(* ===== verification/Game2048.thy ===== *)
theory Game2048
  imports Prelude
begin

text \<open>
  The game logic of \<open>games/2048/2048.c\<close>: tiles are exponents of two in \<open>uint8_t\<close> cells,
  the score is a \<open>uint32_t\<close> global. \<open>rand()\<close> is an input of the operations that call it and
  drawing is left out. An access outside a row, and a shift by 32 or more, is \<open>None\<close>.
\<close>

section \<open>Definitions\<close>

definition SIZE :: nat where
  "SIZE = 4"

type_synonym row = "u8 list"
type_synonym grid = "u8 list list"

record game =
  board :: grid
  score :: u32

text \<open>
  The search loop of \<open>findTarget\<close>. Its counter is unsigned, so the guard \<open>t>=0\<close> always
  holds: a step below index 0 wraps to 255 and reads outside the row.
\<close>

fun findTarget_loop :: "row \<Rightarrow> nat \<Rightarrow> nat \<Rightarrow> nat \<Rightarrow> nat option" where
  "findTarget_loop a x stop t =
     do {
       at \<leftarrow> rd a t;
       if at \<noteq> 0 then
         do { ax \<leftarrow> rd a x; if at \<noteq> ax then Some (t + 1) else Some t }
       else if t = stop then Some t
       else (case t of 0 \<Rightarrow> None | Suc t' \<Rightarrow> findTarget_loop a x stop t')
     }"

definition findTarget :: "row \<Rightarrow> nat \<Rightarrow> nat \<Rightarrow> nat option" where
  "findTarget a x stop = (if x = 0 then Some x else findTarget_loop a x stop (x - 1))"

definition shl32 :: "u32 \<Rightarrow> u8 \<Rightarrow> u32 option" where
  "shl32 w n = (if unat n < 32 then Some (push_bit (unat n) w) else None)"

type_synonym slide_state = "row \<times> u32 \<times> nat \<times> bool"

definition slide_step :: "nat \<Rightarrow> slide_state \<Rightarrow> slide_state option" where
  "slide_step x s = (case s of (a, sc, stop, success) \<Rightarrow>
     do {
       ax \<leftarrow> rd a x;
       if ax = 0 then Some (a, sc, stop, success)
       else do {
         t \<leftarrow> findTarget a x stop;
         if t = x then Some (a, sc, stop, success)
         else do {
           at \<leftarrow> rd a t;
           (a, sc, stop) \<leftarrow>
             (if at = 0 then do { a \<leftarrow> wr a t ax; Some (a, sc, stop) }
              else if at = ax then
                do { a \<leftarrow> wr a t (at + 1); p \<leftarrow> shl32 1 (at + 1); Some (a, sc + p, t + 1) }
              else Some (a, sc, stop));
           a \<leftarrow> wr a x 0;
           Some (a, sc, stop, True)
         }
       }
     })"

definition slideArray :: "row \<Rightarrow> u32 \<Rightarrow> (row \<times> u32 \<times> bool) option" where
  "slideArray a sc =
     do {
       (a, sc, _, success) \<leftarrow> foldo slide_step [0..<SIZE] (a, sc, 0, False);
       Some (a, sc, success)
     }"

definition get2 :: "grid \<Rightarrow> nat \<Rightarrow> nat \<Rightarrow> u8" where
  "get2 b i j = b ! i ! j"

definition set2 :: "grid \<Rightarrow> nat \<Rightarrow> nat \<Rightarrow> u8 \<Rightarrow> grid" where
  "set2 b i j v = b[i := (b ! i)[j := v]]"

definition rotate_cell :: "nat \<Rightarrow> nat \<Rightarrow> nat \<Rightarrow> grid \<Rightarrow> grid" where
  "rotate_cell n i j b =
     (let tmp = get2 b i j;
          b = set2 b i j (get2 b j (n - i - 1));
          b = set2 b j (n - i - 1) (get2 b (n - i - 1) (n - j - 1));
          b = set2 b (n - i - 1) (n - j - 1) (get2 b (n - j - 1) i)
      in set2 b (n - j - 1) i tmp)"

definition rotateBoard :: "grid \<Rightarrow> grid" where
  "rotateBoard b =
     fold (\<lambda>i. fold (\<lambda>j. rotate_cell SIZE i j) [i..<SIZE - i - 1]) [0..<SIZE div 2] b"

definition moveUp :: "game \<Rightarrow> (game \<times> bool) option" where
  "moveUp g =
     foldo (\<lambda>x (g, success).
       do {
         (a, sc, ok) \<leftarrow> slideArray (board g ! x) (score g);
         Some (g\<lparr>board := (board g)[x := a], score := sc\<rparr>, success \<or> ok)
       }) [0..<SIZE] (g, False)"

definition rotate_game :: "game \<Rightarrow> game" where
  "rotate_game g = g\<lparr>board := rotateBoard (board g)\<rparr>"

definition moveLeft :: "game \<Rightarrow> (game \<times> bool) option" where
  "moveLeft g =
     do {
       (g, success) \<leftarrow> moveUp (rotate_game g);
       Some (rotate_game (rotate_game (rotate_game g)), success)
     }"

definition moveDown :: "game \<Rightarrow> (game \<times> bool) option" where
  "moveDown g =
     do {
       (g, success) \<leftarrow> moveUp (rotate_game (rotate_game g));
       Some (rotate_game (rotate_game g), success)
     }"

definition moveRight :: "game \<Rightarrow> (game \<times> bool) option" where
  "moveRight g =
     do {
       (g, success) \<leftarrow> moveUp (rotate_game (rotate_game (rotate_game g)));
       Some (rotate_game g, success)
     }"

definition findPairDown :: "grid \<Rightarrow> bool" where
  "findPairDown b =
     list_ex (\<lambda>x. list_ex (\<lambda>y. get2 b x y = get2 b x (y + 1)) [0..<SIZE - 1]) [0..<SIZE]"

definition empty_cells :: "grid \<Rightarrow> (nat \<times> nat) list" where
  "empty_cells b =
     concat (map (\<lambda>x. map (\<lambda>y. (x, y)) (filter (\<lambda>y. get2 b x y = 0) [0..<SIZE])) [0..<SIZE])"

definition countEmpty :: "grid \<Rightarrow> nat" where
  "countEmpty b =
     fold (\<lambda>x. fold (\<lambda>y count. if get2 b x y = 0 then count + 1 else count) [0..<SIZE])
       [0..<SIZE] 0"

text \<open>\<open>gameEnded\<close> rotates the board in place and back: the board it leaves is part of the result.\<close>

definition gameEnded :: "grid \<Rightarrow> grid \<times> bool" where
  "gameEnded b =
     (if 0 < countEmpty b then (b, False)
      else if findPairDown b then (b, False)
      else
        (let b = rotateBoard b; ended = \<not> findPairDown b
         in (rotateBoard (rotateBoard (rotateBoard b)), ended)))"

text \<open>\<open>r1\<close> and \<open>r2\<close> are the results of the two calls of \<open>rand()\<close>.\<close>

definition addRandom :: "nat \<Rightarrow> nat \<Rightarrow> grid \<Rightarrow> grid" where
  "addRandom r1 r2 b =
     (let l = empty_cells b in
      if 0 < length l then
        (let (x, y) = l ! (r1 mod length l); n = (r2 mod 10) div 9 + 1
         in set2 b x y (of_nat n))
      else b)"

definition initBoard :: "nat \<Rightarrow> nat \<Rightarrow> nat \<Rightarrow> nat \<Rightarrow> game" where
  "initBoard r1 r2 r3 r4 =
     \<lparr>board = addRandom r3 r4 (addRandom r1 r2 (replicate SIZE (replicate SIZE 0))), score = 0\<rparr>"

text \<open>
  One iteration of the loop of \<open>main\<close>: the keys \<open>c\<close>, \<open>c2\<close> and \<open>c3\<close> are what the calls of
  \<open>getchar\<close> return (the last two only where the code asks), \<open>r1\<close> to \<open>r4\<close> the random numbers.
\<close>

datatype outcome = Running game | Finished game

definition key_move :: "nat \<Rightarrow> game \<Rightarrow> (game \<times> bool) option" where
  "key_move c g =
     (if c \<in> {97, 104, 68} then moveLeft g
      else if c \<in> {100, 108, 67} then moveRight g
      else if c \<in> {119, 107, 65} then moveUp g
      else if c \<in> {115, 106, 66} then moveDown g
      else Some (g, False))"

definition restart_prompt :: "nat \<Rightarrow> nat \<Rightarrow> nat \<Rightarrow> nat \<Rightarrow> nat \<Rightarrow> nat \<Rightarrow> game \<Rightarrow> outcome" where
  "restart_prompt c c3 r1 r2 r3 r4 g =
     (if c = 114 \<and> c3 = 121 then Running (initBoard r1 r2 r3 r4) else Running g)"

definition main_step ::
    "nat \<Rightarrow> nat \<Rightarrow> nat \<Rightarrow> nat \<Rightarrow> nat \<Rightarrow> nat \<Rightarrow> nat \<Rightarrow> game \<Rightarrow> outcome option" where
  "main_step c c2 c3 r1 r2 r3 r4 g =
     do {
       (g, success) \<leftarrow> key_move c g;
       let g = (if success then g\<lparr>board := addRandom r1 r2 (board g)\<rparr> else g);
           (b, ended) = (if success then gameEnded (board g) else (board g, False));
           g = g\<lparr>board := b\<rparr> in
       if ended then Some (Finished g)
       else if c = 113 then
         (if c2 = 121 then Some (Finished g)
          else Some (restart_prompt c2 c3 r1 r2 r3 r4 g))
       else Some (restart_prompt c c3 r1 r2 r3 r4 g)
     }"

section \<open>Abstract specification\<close>

text \<open>
  The rule of the game on one row: drop the gaps, merge equal neighbours once from the front,
  and fill up with empty cells; \<open>merge_gain\<close> is what the merges score. \<open>tile_worth\<close> is the score
  a tile stands for when it was merged together from tiles of value two.
\<close>

fun merge_tiles :: "row \<Rightarrow> row" where
  "merge_tiles (x # y # zs) =
     (if x = y then (x + 1) # merge_tiles zs else x # merge_tiles (y # zs))"
| "merge_tiles xs = xs"

fun merge_gain :: "row \<Rightarrow> nat" where
  "merge_gain (x # y # zs) =
     (if x = y then 2 ^ (unat x + 1) + merge_gain zs else merge_gain (y # zs))"
| "merge_gain xs = 0"

definition tiles :: "row \<Rightarrow> row" where
  "tiles a = filter (\<lambda>v. v \<noteq> 0) a"

definition slide_spec :: "row \<Rightarrow> row" where
  "slide_spec a =
     (let m = merge_tiles (tiles a) in m @ replicate (length a - length m) 0)"

definition small_row :: "row \<Rightarrow> bool" where
  "small_row a \<longleftrightarrow> (\<forall>v \<in> set a. v < 31)"

definition tile_sum :: "row \<Rightarrow> nat" where
  "tile_sum a = (\<Sum>v\<leftarrow>a. if v = 0 then 0 else 2 ^ unat v)"

definition tile_worth :: "row \<Rightarrow> nat" where
  "tile_worth a = (\<Sum>v\<leftarrow>a. if v = 0 then 0 else (unat v - 1) * 2 ^ unat v)"

definition wf_board :: "grid \<Rightarrow> bool" where
  "wf_board b \<longleftrightarrow> length b = SIZE \<and> (\<forall>r \<in> set b. length r = SIZE)"

definition small_board :: "grid \<Rightarrow> bool" where
  "small_board b \<longleftrightarrow> (\<forall>r \<in> set b. small_row r)"

definition board_gain :: "grid \<Rightarrow> nat" where
  "board_gain b = (\<Sum>r\<leftarrow>b. merge_gain (tiles r))"

definition board_sum :: "grid \<Rightarrow> nat" where
  "board_sum b = (\<Sum>r\<leftarrow>b. tile_sum r)"

definition board_worth :: "grid \<Rightarrow> nat" where
  "board_worth b = (\<Sum>r\<leftarrow>b. tile_worth r)"

definition no_move :: "game \<Rightarrow> bool" where
  "no_move g \<longleftrightarrow> (\<forall>c. \<exists>g'. key_move c g = Some (g', False))"

inductive play :: "game \<Rightarrow> bool" where
  start: "play (initBoard r1 r2 r3 r4)"
| step: "play g \<Longrightarrow> main_step c c2 c3 r1 r2 r3 r4 g = Some (Running g') \<Longrightarrow> play g'"

section \<open>Lemmas\<close>

lemma foldo_SIZE: "foldo f [0..<SIZE] s =
   do { s \<leftarrow> f 0 s; s \<leftarrow> f 1 s; s \<leftarrow> f 2 s; f 3 s }"
proof -
  have "[0..<SIZE] = [0, 1, 2, 3]" by (simp add: SIZE_def upt_rec)
  moreover have "foldo f [] = Some" by (simp add: fun_eq_iff)
  moreover have "foldo f (x # xs) = (\<lambda>s. Option.bind (f x s) (foldo f xs))" for x xs
    by (simp add: fun_eq_iff)
  ultimately show ?thesis by simp
qed

lemma small_unat_Suc: "v < 31 \<Longrightarrow> unat (v + 1) = unat (v :: u8) + 1"
  by (simp add: unat_word_ariths(1) word_less_nat_alt)

lemma shl32_small: "v < 31 \<Longrightarrow> shl32 1 (v + 1) = Some (of_nat (2 ^ (unat v + 1)))"
  using small_unat_Suc [of v] by (simp add: shl32_def push_bit_eq_mult word_less_nat_alt)

lemma small_Suc_neq0: "v < 31 \<Longrightarrow> v + 1 \<noteq> (0::u8)"
  using small_unat_Suc [of v] by auto
 
declare findTarget_loop.simps [simp del]

lemma list4: "length a = 4 \<Longrightarrow> (\<And>p q r s. a = [p,q,r,s] \<Longrightarrow> P) \<Longrightarrow> P"
  by (auto simp: eval_nat_numeral length_Suc_conv)

lemma slideArray_spec4:
  assumes "p < 31" "q < 31" "r < 31" "s < 31"
  shows "slideArray [p,q,r,s] sc =
    Some (slide_spec [p,q,r,s], sc + of_nat (merge_gain (tiles [p,q,r,s])), slide_spec [p,q,r,s] \<noteq> [p,q,r,s])"
  using assms
  apply (cases "p = 0"; cases "q = 0"; cases "r = 0"; cases "s = 0")
  apply (simp_all add: slideArray_def foldo_SIZE slide_step_def slide_spec_def tiles_def findTarget_def
     findTarget_loop.simps shl32_small small_Suc_neq0 Let_def numeral_eq_Suc split: if_splits)
  done

theorem slideArray_spec:
  assumes "length a = SIZE" and "small_row a"
  shows "slideArray a sc =
    Some (slide_spec a, sc + of_nat (merge_gain (tiles a)), slide_spec a \<noteq> a)"
  using assms by (auto elim!: list4 simp: SIZE_def small_row_def intro: slideArray_spec4)

lemma tile_sum_tiles: "tile_sum a = (\<Sum>v\<leftarrow>tiles a. 2 ^ unat v)"
  by (induction a) (simp_all add: tile_sum_def tiles_def)

lemma tile_worth_tiles: "tile_worth a = (\<Sum>v\<leftarrow>tiles a. (unat v - 1) * 2 ^ unat v)"
  by (induction a) (simp_all add: tile_worth_def tiles_def)

lemma merge_tiles_sum: "\<forall>v\<in>set xs. v < 31 \<Longrightarrow>
  (\<Sum>v\<leftarrow>merge_tiles xs. 2 ^ unat v) = (\<Sum>v\<leftarrow>xs. 2 ^ unat v :: nat)"
  by (induction xs rule: merge_tiles.induct) (auto simp: small_unat_Suc)

lemma merge_tiles_nonzero: "\<forall>v\<in>set xs. v < 31 \<and> v \<noteq> 0 \<Longrightarrow> 0 \<notin> set (merge_tiles xs)"
  by (induction xs rule: merge_tiles.induct) (auto simp: small_Suc_neq0)

lemma merge_tiles_worth: "\<forall>v\<in>set xs. v < 31 \<and> v \<noteq> 0 \<Longrightarrow>
  (\<Sum>v\<leftarrow>merge_tiles xs. (unat v - 1) * 2 ^ unat v) =
  (\<Sum>v\<leftarrow>xs. (unat v - 1) * 2 ^ unat v) + merge_gain xs"
proof (induction xs rule: merge_tiles.induct)
  case (1 x y zs)
  have "unat x \<noteq> 0" using 1 by (auto simp: unat_eq_zero)
  then obtain k where k: "unat x = Suc k" by (cases "unat x") auto
  show ?case
  proof (cases "x = y")
    case True
    with 1 k have "unat (y + 1) = Suc (Suc k)" by (simp add: small_unat_Suc)
    with True 1 k show ?thesis by simp
  next
    case False
    with 1 show ?thesis by simp
  qed
qed auto

lemma merge_tiles_bound: "\<forall>v\<in>set xs. v < 31 \<Longrightarrow> \<forall>v\<in>set (merge_tiles xs). v \<le> 31"
proof (induction xs rule: merge_tiles.induct)
  case (1 x y zs)
  have "x + 1 \<le> 31" using 1(3) small_unat_Suc[of x] by (simp add: word_le_nat_alt word_less_nat_alt)
  then show ?case using 1 by auto
qed auto

lemma length_merge_tiles: "length (merge_tiles xs) \<le> length xs"
  by (induction xs rule: merge_tiles.induct) auto

lemma tiles_slide_spec: "small_row a \<Longrightarrow> tiles (slide_spec a) = merge_tiles (tiles a)"
  using merge_tiles_nonzero [of "tiles a"]
  by (force simp: slide_spec_def tiles_def small_row_def Let_def filter_id_conv)

lemma length_slide_spec: "length (slide_spec a) = length a"
  using length_merge_tiles [of "tiles a"] length_filter_le [of "\<lambda>v. v \<noteq> 0" a]
  unfolding slide_spec_def tiles_def Let_def length_append length_replicate by linarith

lemma slide_spec_sum: "small_row a \<Longrightarrow> tile_sum (slide_spec a) = tile_sum a"
  using merge_tiles_sum [of "tiles a"]
  by (simp add: tile_sum_tiles tiles_slide_spec) (simp add: tiles_def small_row_def)

lemma slide_spec_worth:
  "small_row a \<Longrightarrow> tile_worth (slide_spec a) = tile_worth a + merge_gain (tiles a)"
  using merge_tiles_worth [of "tiles a"]
  by (simp add: tile_worth_tiles tiles_slide_spec) (simp add: tiles_def small_row_def)

lemma list44:
  assumes "length b = 4" "\<forall>r\<in>set b. length r = 4"
  obtains p q r s t u v w x y z a' b' c' d' e' where "b = [[p,q,r,s],[t,u,v,w],[x,y,z,a'],[b',c',d',e']]"
  using assms by (auto elim!: list4)

lemma upt_ranges: "[0..<4] = [0, 1, 2, 3::nat]" "[0..<3] = [0, 1, 2::nat]" "[0..<2] = [0, 1::nat]"
    "[Suc 0..<2] = [1::nat]"
  by (simp_all add: upt_rec)

lemma nth_small: "(x # y # zs) ! 1 = y" "(x # y # z # zs) ! 2 = z" "(x # y # z # w # zs) ! 3 = w"
  by (simp_all add: numeral_eq_Suc)

lemma upd_small: "(x # y # zs)[1 := v] = x # v # zs" "(x # y # z # zs)[2 := v] = x # y # v # zs"
   "(x # y # z # w # zs)[3 := v] = x # y # z # v # zs"
  by (simp_all add: numeral_eq_Suc)

lemmas rotate_unfold = rotateBoard_def SIZE_def rotate_cell_def get2_def set2_def Let_def upt_ranges
  nth_small upd_small

lemma rotate4: "rotateBoard [[p,q,r,s],[t,u,v,w],[x,y,z,a'],[b',c',d',e']] =
  [[s,w,a',e'],[r,v,z,d'],[q,u,y,c'],[p,t,x,b']]"
  by (simp add: rotate_unfold)

lemma rotate_rotate: "wf_board b \<Longrightarrow> rotateBoard (rotateBoard (rotateBoard (rotateBoard b))) = b"
  unfolding wf_board_def SIZE_def by (elim conjE, erule (1) list44) (simp add: rotate4)

lemma rotate_wf: "wf_board b \<Longrightarrow> wf_board (rotateBoard b)"
  unfolding wf_board_def SIZE_def by (elim conjE, erule (1) list44) (simp add: rotate4)


lemma wf_boardE:
  assumes "wf_board b"
  obtains p q r s t u v w x y z a' b' c' d' e' where "b = [[p,q,r,s],[t,u,v,w],[x,y,z,a'],[b',c',d',e']]"
  using assms list44 [of b] unfolding wf_board_def SIZE_def by blast

lemma rotate_small: "wf_board b \<Longrightarrow> small_board b \<Longrightarrow> small_board (rotateBoard b)"
  by (erule wf_boardE) (simp add: rotate4 small_board_def small_row_def)

lemma rotate_sum: "wf_board b \<Longrightarrow> board_sum (rotateBoard b) = board_sum b"
  by (erule wf_boardE) (simp add: rotate4 board_sum_def tile_sum_def)

lemma rotate_worth: "wf_board b \<Longrightarrow> board_worth (rotateBoard b) = board_worth b"
  by (erule wf_boardE) (simp add: rotate4 board_worth_def tile_worth_def)

lemma moveUp_spec:
  assumes "wf_board (board g)" and "small_board (board g)"
  shows "moveUp g = Some (g\<lparr>board := map slide_spec (board g),
      score := score g + of_nat (board_gain (board g))\<rparr>, map slide_spec (board g) \<noteq> board g)"
proof -
  obtain a b c d where b: "board g = [a, b, c, d]"
    using assms(1) by (auto simp: wf_board_def SIZE_def elim!: list4)
  have l: "length a = SIZE" "length b = SIZE" "length c = SIZE" "length d = SIZE"
    using assms(1) by (simp_all add: wf_board_def b)
  have s: "small_row a" "small_row b" "small_row c" "small_row d"
    using assms(2) by (simp_all add: small_board_def b)
  show ?thesis
    by (auto simp: moveUp_def foldo_SIZE b nth_small upd_small slideArray_spec l s board_gain_def
        add.assoc)
qed

lemma map_slide_wf: "wf_board b \<Longrightarrow> wf_board (map slide_spec b)"
  by (simp add: wf_board_def length_slide_spec)

lemma map_slide_sum: "small_board b \<Longrightarrow> board_sum (map slide_spec b) = board_sum b"
  by (induction b) (simp_all add: board_sum_def small_board_def slide_spec_sum)

lemma map_slide_worth: "small_board b \<Longrightarrow>
  board_worth (map slide_spec b) = board_worth b + board_gain b"
  by (induction b) (simp_all add: board_worth_def board_gain_def small_board_def slide_spec_worth)

locale slide_move =
  fixes mv :: "game \<Rightarrow> (game \<times> bool) option"
  assumes mv_total: "wf_board (board g) \<Longrightarrow> small_board (board g) \<Longrightarrow> \<exists>g' ok. mv g = Some (g', ok)"
    and mv_wf: "wf_board (board g) \<Longrightarrow> small_board (board g) \<Longrightarrow> mv g = Some (g', ok) \<Longrightarrow> wf_board (board g')"
    and mv_sum: "wf_board (board g) \<Longrightarrow> small_board (board g) \<Longrightarrow> mv g = Some (g', ok) \<Longrightarrow>
       board_sum (board g') = board_sum (board g)"
    and mv_worth: "wf_board (board g) \<Longrightarrow> small_board (board g) \<Longrightarrow> mv g = Some (g', ok) \<Longrightarrow>
       board_worth (board g) \<le> board_worth (board g') \<and>
       score g' = score g + of_nat (board_worth (board g') - board_worth (board g))"
    and mv_ok: "wf_board (board g) \<Longrightarrow> small_board (board g) \<Longrightarrow> mv g = Some (g', ok) \<Longrightarrow>
       ok \<longleftrightarrow> board g' \<noteq> board g"

lemma rotate_game_simps [simp]: "board (rotate_game g) = rotateBoard (board g)"
   "score (rotate_game g) = score g"
  by (simp_all add: rotate_game_def)

interpretation up: slide_move moveUp
  by unfold_locales (auto simp: moveUp_spec map_slide_wf map_slide_sum map_slide_worth)

lemma rotate_inj: "wf_board b \<Longrightarrow> wf_board b' \<Longrightarrow> rotateBoard b = rotateBoard b' \<longleftrightarrow> b = b'"
  using rotate_rotate by metis

lemmas rotate_facts = rotate_wf rotate_small rotate_sum rotate_worth rotate_rotate map_slide_wf map_slide_sum map_slide_worth

lemma rotate_back:
  assumes "wf_board b" "wf_board c"
  shows "rotateBoard (rotateBoard (rotateBoard c)) = b \<longleftrightarrow> c = rotateBoard b"
    "rotateBoard (rotateBoard c) = b \<longleftrightarrow> c = rotateBoard (rotateBoard b)"
    "rotateBoard c = b \<longleftrightarrow> c = rotateBoard (rotateBoard (rotateBoard b))"
  using assms rotate_rotate rotate_wf by metis+

interpretation left: slide_move moveLeft
  by unfold_locales (auto simp: moveLeft_def moveUp_spec rotate_facts rotate_back)

interpretation down: slide_move moveDown
  by unfold_locales (auto simp: moveDown_def moveUp_spec rotate_facts rotate_back)

interpretation right: slide_move moveRight
  by unfold_locales (auto simp: moveRight_def moveUp_spec rotate_facts rotate_back)


interpretation key: slide_move "key_move c" for c
proof unfold_locales
  fix g :: game assume "wf_board (board g)" "small_board (board g)"
  then show "\<exists>g' ok. key_move c g = Some (g', ok)"
    by (auto simp: key_move_def left.mv_total right.mv_total up.mv_total down.mv_total)
next
  fix g g' :: game and ok assume "wf_board (board g)" "small_board (board g)" "key_move c g = Some (g', ok)"
  then show "wf_board (board g')" 
    by (auto simp: key_move_def dest: left.mv_wf right.mv_wf up.mv_wf down.mv_wf split: if_splits)
next
  fix g g' :: game and ok assume "wf_board (board g)" "small_board (board g)" "key_move c g = Some (g', ok)"
  then show "board_sum (board g') = board_sum (board g)" 
    by (auto simp: key_move_def dest: left.mv_sum right.mv_sum up.mv_sum down.mv_sum split: if_splits)
next
  fix g g' :: game and ok assume "wf_board (board g)" "small_board (board g)" "key_move c g = Some (g', ok)"
  then show "board_worth (board g) \<le> board_worth (board g') \<and>
       score g' = score g + of_nat (board_worth (board g') - board_worth (board g))" 
    by (auto simp: key_move_def dest: left.mv_worth right.mv_worth up.mv_worth down.mv_worth split: if_splits)
next
  fix g g' :: game and ok assume "wf_board (board g)" "small_board (board g)" "key_move c g = Some (g', ok)"
  then show "ok \<longleftrightarrow> board g' \<noteq> board g"
    by (simp add: key_move_def left.mv_ok right.mv_ok up.mv_ok down.mv_ok split: if_splits)
qed

lemma slide_spec_fixed: "p < 31 \<Longrightarrow> q < 31 \<Longrightarrow> r < 31 \<Longrightarrow> s < 31 \<Longrightarrow>
  slide_spec [p,q,r,s] = [p,q,r,s] \<longleftrightarrow>
   (q \<noteq> 0 \<longrightarrow> p \<noteq> 0 \<and> p \<noteq> q) \<and> (r \<noteq> 0 \<longrightarrow> q \<noteq> 0 \<and> q \<noteq> r) \<and> (s \<noteq> 0 \<longrightarrow> r \<noteq> 0 \<and> r \<noteq> s)"
  apply (cases "p = 0"; cases "q = 0"; cases "r = 0"; cases "s = 0")
  apply (auto simp: slide_spec_def tiles_def Let_def small_Suc_neq0)
  done

lemma slide_spec_fixed_both:
  assumes "p < 31" "q < 31" "r < 31" "s < 31"
  shows "slide_spec [p,q,r,s] = [p,q,r,s] \<and> slide_spec [s,r,q,p] = [s,r,q,p] \<longleftrightarrow>
    (p = 0 \<longleftrightarrow> q = 0) \<and> (q = 0 \<longleftrightarrow> r = 0) \<and> (r = 0 \<longleftrightarrow> s = 0) \<and>
    (p \<noteq> 0 \<longrightarrow> p \<noteq> q \<and> q \<noteq> r \<and> r \<noteq> s)"
  using assms by (auto simp: slide_spec_fixed)

lemma gameEnded_board: "wf_board b \<Longrightarrow> fst (gameEnded b) = b"
  by (simp add: gameEnded_def Let_def rotate_rotate)

lemma countEmpty4: "countEmpty [[p,q,r,s],[t,u,v,w],[x,y,z,a'],[b',c',d',e']] = 0 \<longleftrightarrow>
  p \<noteq> 0 \<and> q \<noteq> 0 \<and> r \<noteq> 0 \<and> s \<noteq> 0 \<and> t \<noteq> 0 \<and> u \<noteq> 0 \<and> v \<noteq> 0 \<and> w \<noteq> 0 \<and>
  x \<noteq> 0 \<and> y \<noteq> 0 \<and> z \<noteq> 0 \<and> a' \<noteq> 0 \<and> b' \<noteq> 0 \<and> c' \<noteq> 0 \<and> d' \<noteq> 0 \<and> e' \<noteq> 0"
  by (simp add: countEmpty_def upt_ranges SIZE_def get2_def nth_small)


lemma no_move_iff:
  assumes "wf_board (board g)" "small_board (board g)"
  shows "no_move g \<longleftrightarrow> (\<exists>g'. moveUp g = Some (g', False)) \<and> (\<exists>g'. moveLeft g = Some (g', False)) \<and>
     (\<exists>g'. moveDown g = Some (g', False)) \<and> (\<exists>g'. moveRight g = Some (g', False))" (is "_ \<longleftrightarrow> ?R")
proof
  assume n: "no_move g"
  show ?R
    using n [unfolded no_move_def, THEN spec, of 97] n [unfolded no_move_def, THEN spec, of 100]
      n [unfolded no_move_def, THEN spec, of 119] n [unfolded no_move_def, THEN spec, of 115]
    by (simp add: key_move_def)
next
  assume ?R
  then show "no_move g" by (simp add: no_move_def key_move_def)
qed

lemma no_move_fixed:
  assumes "wf_board (board g)" "small_board (board g)"
  shows "no_move g \<longleftrightarrow> (let b = board g in map slide_spec b = b \<and>
     map slide_spec (rotateBoard b) = rotateBoard b \<and>
     map slide_spec (rotateBoard (rotateBoard b)) = rotateBoard (rotateBoard b) \<and>
     map slide_spec (rotateBoard (rotateBoard (rotateBoard b))) = rotateBoard (rotateBoard (rotateBoard b)))"
  using assms
  by (simp add: no_move_iff moveLeft_def moveDown_def moveRight_def moveUp_spec rotate_facts Let_def)

theorem gameEnded_iff_no_move:
  assumes "wf_board (board g)" "small_board (board g)" "board_sum (board g) \<noteq> 0"
  shows "snd (gameEnded (board g)) \<longleftrightarrow> no_move g"
proof -
  obtain p q r s t u v w x y z a' b' c' d' e' where
    b: "board g = [[p,q,r,s],[t,u,v,w],[x,y,z,a'],[b',c',d',e']]"
    using assms(1) by (rule wf_boardE)
  have sm: "p < 31" "q < 31" "r < 31" "s < 31" "t < 31" "u < 31" "v < 31" "w < 31"
     "x < 31" "y < 31" "z < 31" "a' < 31" "b' < 31" "c' < 31" "d' < 31" "e' < 31"
    using assms(2) by (simp_all add: b small_board_def small_row_def)
  have nz: "\<not> (p = 0 \<and> q = 0 \<and> r = 0 \<and> s = 0 \<and> t = 0 \<and> u = 0 \<and> v = 0 \<and> w = 0 \<and>
      x = 0 \<and> y = 0 \<and> z = 0 \<and> a' = 0 \<and> b' = 0 \<and> c' = 0 \<and> d' = 0 \<and> e' = 0)"
    using assms(3) by (auto simp: b board_sum_def tile_sum_def)
  have n: "no_move g \<longleftrightarrow>
     (slide_spec [p,q,r,s] = [p,q,r,s] \<and> slide_spec [s,r,q,p] = [s,r,q,p]) \<and>
     (slide_spec [t,u,v,w] = [t,u,v,w] \<and> slide_spec [w,v,u,t] = [w,v,u,t]) \<and>
     (slide_spec [x,y,z,a'] = [x,y,z,a'] \<and> slide_spec [a',z,y,x] = [a',z,y,x]) \<and>
     (slide_spec [b',c',d',e'] = [b',c',d',e'] \<and> slide_spec [e',d',c',b'] = [e',d',c',b']) \<and>
     (slide_spec [p,t,x,b'] = [p,t,x,b'] \<and> slide_spec [b',x,t,p] = [b',x,t,p]) \<and>
     (slide_spec [q,u,y,c'] = [q,u,y,c'] \<and> slide_spec [c',y,u,q] = [c',y,u,q]) \<and>
     (slide_spec [r,v,z,d'] = [r,v,z,d'] \<and> slide_spec [d',z,v,r] = [d',z,v,r]) \<and>
     (slide_spec [s,w,a',e'] = [s,w,a',e'] \<and> slide_spec [e',a',w,s] = [e',a',w,s])"
    unfolding no_move_fixed [OF assms(1,2)] Let_def b rotate4 list.map list.inject by argo
  have e: "snd (gameEnded (board g)) \<longleftrightarrow> countEmpty (board g) = 0 \<and> \<not> findPairDown (board g) \<and>
      \<not> findPairDown (rotateBoard (board g))"
    by (simp add: gameEnded_def Let_def)
  note unfold = b rotate4 findPairDown_def SIZE_def upt_ranges get2_def nth_small countEmpty4
  note fixed = n slide_spec_fixed_both [OF sm(1-4)] slide_spec_fixed_both [OF sm(5-8)]
    slide_spec_fixed_both [OF sm(9-12)] slide_spec_fixed_both [OF sm(13-16)]
    slide_spec_fixed_both [OF sm(1,5,9,13)] slide_spec_fixed_both [OF sm(2,6,10,14)]
    slide_spec_fixed_both [OF sm(3,7,11,15)] slide_spec_fixed_both [OF sm(4,8,12,16)]
  show ?thesis
  proof
    assume "snd (gameEnded (board g))"
    then show "no_move g" unfolding e fixed by (simp add: unfold)
  next
    assume m: "no_move g"
    have "p \<noteq> 0"
    proof
      assume "p = 0"
      with m nz show False unfolding fixed by (elim conjE) simp
    qed
    with m show "snd (gameEnded (board g))" unfolding e fixed by (elim conjE) (simp add: unfold)
  qed
qed

lemma slide_step_length: "slide_step x (a, sc, stop, ok) = Some (a', r) \<Longrightarrow> length a' = length a"
  by (auto simp: slide_step_def bind_eq_Some_conv wr_def split: if_splits)

lemma slideArray_length:
  assumes "slideArray a sc = Some (a', sc', ok)"
  shows "length a' = length a"
proof -
  obtain st where "foldo slide_step [0..<SIZE] (a, sc, 0, False) = Some (a', sc', st, ok)"
    using assms by (auto simp: slideArray_def bind_eq_Some_conv)
  then have "length (fst (a', sc', st, ok)) = length a"
    by (rule foldo_invariant) (auto dest: slide_step_length)
  then show ?thesis by simp
qed

lemma wf_board_upd: "wf_board b \<Longrightarrow> length v = SIZE \<Longrightarrow> wf_board (b[x := v])"
  using ball_list_update [of b "\<lambda>r. length r = SIZE" v x] by (auto simp: wf_board_def)

lemma wf_board_nth: "wf_board b \<Longrightarrow> x < SIZE \<Longrightarrow> length (b ! x) = SIZE"
  by (simp add: wf_board_def)

lemma moveUp_wf:
  assumes "moveUp g = Some (g', ok)" "wf_board (board g)"
  shows "wf_board (board g')"
proof -
  have "wf_board (board (fst (g', ok)))"
    using assms(1) unfolding moveUp_def
  proof (rule foldo_invariant)
    fix x s t assume "x \<in> set [0..<SIZE]" "wf_board (board (fst s))"
      and "(case s of (g, success) \<Rightarrow> slideArray (board g ! x) (score g) \<bind>
         (\<lambda>(a, sc, ok). Some (g\<lparr>board := (board g)[x := a], score := sc\<rparr>, success \<or> ok))) = Some t"
    then show "wf_board (board (fst t))"
      by (cases s) (auto simp: bind_eq_Some_conv wf_board_nth intro!: wf_board_upd dest!: slideArray_length)
  qed (simp add: assms(2))
  then show ?thesis by simp
qed

lemma key_move_wf: "key_move c g = Some (g', ok) \<Longrightarrow> wf_board (board g) \<Longrightarrow> wf_board (board g')"
  by (auto simp: key_move_def moveLeft_def moveDown_def moveRight_def bind_eq_Some_conv rotate_wf
      dest!: moveUp_wf split: if_splits)

lemma empty_cells_iff: "(x, y) \<in> set (empty_cells b) \<longleftrightarrow> x < SIZE \<and> y < SIZE \<and> get2 b x y = 0"
  by (auto simp: empty_cells_def)

lemma set2_wf: "wf_board b \<Longrightarrow> x < SIZE \<Longrightarrow> wf_board (set2 b x y v)"
  unfolding set2_def by (rule wf_board_upd) (auto simp: wf_board_def)

lemma sum_list_upd:
  assumes "x < length xs" "(f (xs ! x) :: nat) = 0"
  shows "(\<Sum>r\<leftarrow>xs[x := v]. f r) = (\<Sum>r\<leftarrow>xs. f r) + f v"
  using assms by (induction xs arbitrary: x) (auto split: nat.splits)

lemma addRandom_cell:
  assumes "0 < length (empty_cells b)"
  obtains x y where "empty_cells b ! (r1 mod length (empty_cells b)) = (x, y)"
    "x < SIZE" "y < SIZE" "b ! x ! y = 0"
proof -
  obtain x y where xy: "empty_cells b ! (r1 mod length (empty_cells b)) = (x, y)" by fastforce
  have "(x, y) \<in> set (empty_cells b)" unfolding xy [symmetric] using assms by (intro nth_mem) simp
  with xy show thesis using that by (auto simp: empty_cells_iff get2_def)
qed

lemma addRandom_wf:
  assumes "wf_board b"
  shows "wf_board (addRandom r1 r2 b)"
proof (cases "0 < length (empty_cells b)")
  case True
  then obtain x y where "empty_cells b ! (r1 mod length (empty_cells b)) = (x, y)" "x < SIZE"
    by (rule addRandom_cell)
  with True assms show ?thesis by (simp add: addRandom_def set2_wf)
qed (simp add: addRandom_def assms)

lemma initBoard_wf: "wf_board (board (initBoard r1 r2 r3 r4))"
proof -
  have "wf_board (replicate SIZE (replicate SIZE 0))" by (simp add: wf_board_def)
  then show ?thesis by (simp add: initBoard_def addRandom_wf)
qed

lemma main_step_wf:
  assumes "main_step c c2 c3 r1 r2 r3 r4 g = Some (Running g')" "wf_board (board g)"
  shows "wf_board (board g')"
  using assms
  by (auto simp: main_step_def restart_prompt_def bind_eq_Some_conv initBoard_wf addRandom_wf
      Let_def gameEnded_board dest!: key_move_wf split: if_splits prod.splits)
    (metis addRandom_wf gameEnded_board fst_conv)+

lemma play_wf: "play g \<Longrightarrow> wf_board (board g)"
  by (induction rule: play.induct) (auto intro: initBoard_wf main_step_wf)

lemma sum_list_update_swap: "x < length xs \<Longrightarrow>
  (\<Sum>r\<leftarrow>xs[x := v]. f r) + f (xs ! x) = (\<Sum>r\<leftarrow>xs. f r) + (f v :: nat)"
  by (induction xs arbitrary: x) (auto split: nat.splits)

lemma addRandom_sum:
  assumes "wf_board b" and "0 < countEmpty b"
  shows "board_sum (addRandom r1 r2 b) = board_sum b + (if r2 mod 10 = 9 then 4 else 2)"
proof -
  obtain p q r s t u v w x y z a' b' c' d' e' where
    b: "b = [[p,q,r,s],[t,u,v,w],[x,y,z,a'],[b',c',d',e']]"
    using assms(1) by (rule wf_boardE)
  have "empty_cells b \<noteq> []"
    using assms(2) countEmpty4 [of p q r s t u v w x y z a' b' c' d' e']
    by (auto simp: b empty_cells_def upt_ranges SIZE_def get2_def nth_small)
  then have l: "0 < length (empty_cells b)" by simp
  then obtain x y where xy: "empty_cells b ! (r1 mod length (empty_cells b)) = (x, y)"
    and c: "x < SIZE" "y < SIZE" "b ! x ! y = 0" by (rule addRandom_cell)
  let ?n = "of_nat (r2 mod 10 div 9 + 1) :: u8"
  have d: "r2 mod 10 div 9 = (if r2 mod 10 = 9 then 1 else 0)" by (auto simp: div_eq_0_iff; presburger)
  have "tile_sum ((b ! x)[y := ?n]) = tile_sum (b ! x) + (if r2 mod 10 = 9 then 4 else 2)"
    unfolding tile_sum_def d using c wf_board_nth [OF assms(1), of x] by (subst sum_list_upd) auto
  moreover have "board_sum (b[x := (b ! x)[y := ?n]]) + tile_sum (b ! x) = board_sum b + tile_sum ((b ! x)[y := ?n])"
    unfolding board_sum_def using c assms(1) by (intro sum_list_update_swap) (simp add: wf_board_def)
  ultimately show ?thesis using l by (simp add: addRandom_def xy set2_def)
qed

section \<open>Properties\<close>

text \<open>
  C35. Sliding a row of four tiles is exactly the rule of the game: the code leaves the row in
  which the gaps are gone and equal neighbours are merged once from the front, adds the merged
  values to the score, reports success iff the row changed, and never reads outside the row
  although its search counter is unsigned. Tiles are below \<open>2^31\<close>, so no shift overflows.
\<close>

theorem slideArray_implements_rule:
  assumes "length a = SIZE" and "small_row a"
  shows "slideArray a sc =
    Some (slide_spec a, sc + of_nat (merge_gain (tiles a)), slide_spec a \<noteq> a)"
  using assms by (rule slideArray_spec)

theorem slideArray_implements_rule_witness:
  "slideArray [1, 1, 2, 2] 0 = Some ([2, 3, 0, 0], 12, True)"
  using slideArray_implements_rule [of "[1, 1, 2, 2]" 0]
  by (simp add: SIZE_def small_row_def slide_spec_def tiles_def Let_def)

text \<open>
  C36. Every key keeps the sum of the tile values, and the score grows by exactly what the board
  is worth more than before (a tile \<open>2^k\<close> is worth \<open>(k-1) * 2^k\<close>); the move reports success iff it
  changed the board.
\<close>

theorem key_move_accounting:
  assumes "wf_board (board g)" and "small_board (board g)" and "key_move c g = Some (g', ok)"
  shows "board_sum (board g') = board_sum (board g)
    \<and> board_worth (board g) \<le> board_worth (board g')
    \<and> score g' = score g + of_nat (board_worth (board g') - board_worth (board g))
    \<and> (ok \<longleftrightarrow> board g' \<noteq> board g)"
  using assms key.mv_sum key.mv_worth key.mv_ok by blast

definition sample_game :: game where
  "sample_game = \<lparr>board = [[1, 1, 0, 0], [0, 2, 0, 2], [0, 0, 0, 0], [3, 0, 1, 0]], score = 0\<rparr>"

lemma sample_game_facts: "wf_board (board sample_game)" "small_board (board sample_game)"
  "board_sum (board sample_game) \<noteq> 0"
  by (simp_all add: sample_game_def wf_board_def SIZE_def small_board_def small_row_def
      board_sum_def tile_sum_def)

theorem key_move_accounting_witness:
  "\<exists>g' ok. key_move 119 sample_game = Some (g', ok) \<and>
     board_sum (board g') = board_sum (board sample_game)"
proof -
  obtain g' ok where "key_move 119 sample_game = Some (g', ok)"
    using key.mv_total sample_game_facts by blast
  with key_move_accounting [OF sample_game_facts(1,2) this] show ?thesis by blast
qed

text \<open>
  On a board with at least one tile, \<open>gameEnded\<close> answers true iff no key changes the board.
\<close>

theorem gameEnded_iff_no_key_moves:
  assumes "wf_board (board g)" and "small_board (board g)" and "board_sum (board g) \<noteq> 0"
  shows "snd (gameEnded (board g)) \<longleftrightarrow> (\<forall>c. \<exists>g'. key_move c g = Some (g', False))"
  using gameEnded_iff_no_move [OF assms] by (simp add: no_move_def)

theorem gameEnded_iff_no_key_moves_witness:
  "\<not> (\<forall>c. \<exists>g'. key_move c sample_game = Some (g', False))"
  using gameEnded_iff_no_key_moves [OF sample_game_facts]
  by (simp add: gameEnded_def sample_game_def countEmpty_def SIZE_def upt_ranges get2_def nth_small)

text \<open>
  In every game that the main loop can reach the board is four by four, and while its tiles
  are below \<open>2^31\<close> every key press is handled without undefined behaviour.
\<close>

theorem play_never_undefined:
  assumes "play g"
  shows "wf_board (board g) \<and>
    (small_board (board g) \<longrightarrow> (\<exists>out. main_step c c2 c3 r1 r2 r3 r4 g = Some out))"
  using play_wf [OF assms] key.mv_total [OF play_wf [OF assms], of c]
  by (auto simp: main_step_def Let_def split: prod.splits)

theorem play_never_undefined_witness:
  "\<exists>out. main_step 119 0 0 0 0 0 0 (initBoard 0 0 0 0) = Some out"
proof -
  have "small_board (board (initBoard 0 0 0 0))"
    by code_simp
  with play_never_undefined [OF play.start] show ?thesis by blast
qed

end
