(* ===== verification/Blake2.thy ===== *)
theory Blake2
  imports Prelude
begin

text \<open>
  BLAKE2, after \<open>math/blake2\<close>: \<open>blake2b-ref.c\<close> and \<open>blake2s-ref.c\<close> are one text for two word sizes, and so
  are \<open>blake2bp-ref.c\<close> and \<open>blake2sp-ref.c\<close> on top of them. What differs, the word size, the number of
  rounds, the rotations, the tables and the parameter block, is the record \<open>alg\<close>; the functions
  are written once over it, under the common part of their names, and then named as in each file.
  Buffers are byte lists. A copy behind the end of a buffer would make the list longer: the
  invariant \<open>wf_state\<close> of theory \<open>Blake2_Proofs\<close> says that there is none. Null pointers are only
  modelled for the key.
\<close>

section \<open>Words and bytes (blake2-impl.h)\<close>

definition load32 :: "u8 list \<Rightarrow> u32" where
  "load32 p = ucast (p ! 0) OR push_bit 8 (ucast (p ! 1)) OR push_bit 16 (ucast (p ! 2))
     OR push_bit 24 (ucast (p ! 3))"

definition load64 :: "u8 list \<Rightarrow> u64" where
  "load64 p = ucast (p ! 0) OR push_bit 8 (ucast (p ! 1)) OR push_bit 16 (ucast (p ! 2))
     OR push_bit 24 (ucast (p ! 3)) OR push_bit 32 (ucast (p ! 4)) OR push_bit 40 (ucast (p ! 5))
     OR push_bit 48 (ucast (p ! 6)) OR push_bit 56 (ucast (p ! 7))"

text \<open>\<open>*p++ = (uint8_t)w; w >>= 8;\<close> for a number of bytes.\<close>

fun store_bytes :: "nat \<Rightarrow> 'a::len word \<Rightarrow> u8 list" where
  "store_bytes 0 w = []"
| "store_bytes (Suc n) w = ucast w # store_bytes n (drop_bit 8 w)"

definition store32 :: "u32 \<Rightarrow> u8 list" where "store32 w = store_bytes 4 w"
definition store64 :: "u64 \<Rightarrow> u8 list" where "store64 w = store_bytes 8 w"
definition store48 :: "u64 \<Rightarrow> u8 list" where "store48 w = store_bytes 6 w"

definition load48 :: "u8 list \<Rightarrow> u64" where
  "load48 p = ucast (p ! 0) OR push_bit 8 (ucast (p ! 1)) OR push_bit 16 (ucast (p ! 2))
     OR push_bit 24 (ucast (p ! 3)) OR push_bit 32 (ucast (p ! 4)) OR push_bit 40 (ucast (p ! 5))"

definition rotr :: "'a::len word \<Rightarrow> nat \<Rightarrow> 'a word" where
  "rotr w c = drop_bit c w OR push_bit (LENGTH('a) - c) w"

definition rotl :: "'a::len word \<Rightarrow> nat \<Rightarrow> 'a word" where
  "rotl w c = push_bit c w OR drop_bit (LENGTH('a) - c) w"

text \<open>\<open>memcpy(dst + pos, src, length of src)\<close>.\<close>

definition blit :: "u8 list \<Rightarrow> nat \<Rightarrow> u8 list \<Rightarrow> u8 list" where
  "blit dst pos src = take pos dst @ src @ drop (pos + length src) dst"

section \<open>States, parameter blocks and algorithms (blake2.h)\<close>

record 'w state =
  b_h :: "'w list"
  b_t0 :: 'w
  b_t1 :: 'w
  b_f0 :: 'w
  b_f1 :: 'w
  b_buf :: "u8 list"
  b_buflen :: nat
  b_last_node :: bool

record param =
  digest_length :: u8
  key_length :: u8
  fanout :: u8
  depth :: u8
  leaf_length :: u32
  node_offset :: u64
  node_depth :: u8
  inner_length :: u8
  salt :: "u8 list"
  personal :: "u8 list"

record 'w alg =
  BLOCKBYTES :: nat
  OUTBYTES :: nat
  KEYBYTES :: nat
  WORDBYTES :: nat
  IV :: "'w list"
  SIG :: "nat list list"
  ROT :: "nat list"
  LOAD :: "u8 list \<Rightarrow> 'w"
  STORE :: "'w \<Rightarrow> u8 list"
  PARAM :: "param \<Rightarrow> u8 list"
  ZEROS :: nat

definition blake2b_IV :: "u64 list" where
  "blake2b_IV = [0x6a09e667f3bcc908, 0xbb67ae8584caa73b, 0x3c6ef372fe94f82b, 0xa54ff53a5f1d36f1,
                 0x510e527fade682d1, 0x9b05688c2b3e6c1f, 0x1f83d9abfb41bd6b, 0x5be0cd19137e2179]"

definition blake2s_IV :: "u32 list" where
  "blake2s_IV = [0x6A09E667, 0xBB67AE85, 0x3C6EF372, 0xA54FF53A,
                 0x510E527F, 0x9B05688C, 0x1F83D9AB, 0x5BE0CD19]"

definition blake2s_sigma :: "nat list list" where
  "blake2s_sigma =
     [[ 0,  1,  2,  3,  4,  5,  6,  7,  8,  9, 10, 11, 12, 13, 14, 15],
      [14, 10,  4,  8,  9, 15, 13,  6,  1, 12,  0,  2, 11,  7,  5,  3],
      [11,  8, 12,  0,  5,  2, 15, 13, 10, 14,  3,  6,  7,  1,  9,  4],
      [ 7,  9,  3,  1, 13, 12, 11, 14,  2,  6,  5, 10,  4,  0, 15,  8],
      [ 9,  0,  5,  7,  2,  4, 10, 15, 14,  1, 11, 12,  6,  8,  3, 13],
      [ 2, 12,  6, 10,  0, 11,  8,  3,  4, 13,  7,  5, 15, 14,  1,  9],
      [12,  5,  1, 15, 14, 13,  4, 10,  0,  7,  6,  3,  9,  2,  8, 11],
      [13, 11,  7, 14, 12,  1,  3,  9,  5,  0, 15,  4,  8,  6,  2, 10],
      [ 6, 15, 14,  9, 11,  3,  0,  8, 12,  2, 13,  7,  1,  4, 10,  5],
      [10,  2,  8,  4,  7,  6,  1,  5, 15, 11,  9, 14,  3, 12, 13,  0]]"

definition blake2b_sigma :: "nat list list" where
  "blake2b_sigma =
     [[ 0,  1,  2,  3,  4,  5,  6,  7,  8,  9, 10, 11, 12, 13, 14, 15],
      [14, 10,  4,  8,  9, 15, 13,  6,  1, 12,  0,  2, 11,  7,  5,  3],
      [11,  8, 12,  0,  5,  2, 15, 13, 10, 14,  3,  6,  7,  1,  9,  4],
      [ 7,  9,  3,  1, 13, 12, 11, 14,  2,  6,  5, 10,  4,  0, 15,  8],
      [ 9,  0,  5,  7,  2,  4, 10, 15, 14,  1, 11, 12,  6,  8,  3, 13],
      [ 2, 12,  6, 10,  0, 11,  8,  3,  4, 13,  7,  5, 15, 14,  1,  9],
      [12,  5,  1, 15, 14, 13,  4, 10,  0,  7,  6,  3,  9,  2,  8, 11],
      [13, 11,  7, 14, 12,  1,  3,  9,  5,  0, 15,  4,  8,  6,  2, 10],
      [ 6, 15, 14,  9, 11,  3,  0,  8, 12,  2, 13,  7,  1,  4, 10,  5],
      [10,  2,  8,  4,  7,  6,  1,  5, 15, 11,  9, 14,  3, 12, 13,  0],
      [ 0,  1,  2,  3,  4,  5,  6,  7,  8,  9, 10, 11, 12, 13, 14, 15],
      [14, 10,  4,  8,  9, 15, 13,  6,  1, 12,  0,  2, 11,  7,  5,  3]]"

text \<open>The bytes of the packed structures \<open>blake2b_param\<close> and \<open>blake2s_param\<close>.\<close>

definition blake2b_param :: "param \<Rightarrow> u8 list" where
  "blake2b_param P = [digest_length P, key_length P, fanout P, depth P] @ store32 (leaf_length P)
     @ store64 (node_offset P) @ [node_depth P, inner_length P] @ replicate 14 0
     @ salt P @ personal P"

definition blake2s_param :: "param \<Rightarrow> u8 list" where
  "blake2s_param P = [digest_length P, key_length P, fanout P, depth P] @ store32 (leaf_length P)
     @ store48 (node_offset P) @ [node_depth P, inner_length P] @ salt P @ personal P"

definition blake2b_alg :: "u64 alg" where
  "blake2b_alg = \<lparr>BLOCKBYTES = 128, OUTBYTES = 64, KEYBYTES = 64, WORDBYTES = 8, IV = blake2b_IV,
     SIG = blake2b_sigma, ROT = [32, 24, 16, 63], LOAD = load64, STORE = store64,
     PARAM = blake2b_param, ZEROS = 16\<rparr>"

definition blake2s_alg :: "u32 alg" where
  "blake2s_alg = \<lparr>BLOCKBYTES = 64, OUTBYTES = 32, KEYBYTES = 32, WORDBYTES = 4, IV = blake2s_IV,
     SIG = blake2s_sigma, ROT = [16, 12, 8, 7], LOAD = load32, STORE = store32,
     PARAM = blake2s_param, ZEROS = 8\<rparr>"

section \<open>The sequential hash (blake2b-ref.c, blake2s-ref.c)\<close>

definition increment_counter :: "'a::len word state \<Rightarrow> nat \<Rightarrow> 'a word state" where
  "increment_counter S inc =
     (let t0 = b_t0 S + of_nat inc in
      S\<lparr>b_t0 := t0, b_t1 := b_t1 S + (if t0 < of_nat inc then 1 else 0)\<rparr>)"

definition set_lastnode :: "'a::len word state \<Rightarrow> 'a word state" where
  "set_lastnode S = S\<lparr>b_f1 := - 1\<rparr>"

definition set_lastblock :: "'a::len word state \<Rightarrow> 'a word state" where
  "set_lastblock S = (if b_last_node S then set_lastnode S else S)\<lparr>b_f0 := - 1\<rparr>"

definition clear_lastnode :: "'a::len word state \<Rightarrow> 'a word state" where
  "clear_lastnode S = S\<lparr>b_f1 := 0\<rparr>"

definition clear_lastblock :: "'a::len word state \<Rightarrow> 'a word state" where
  "clear_lastblock S = (if b_last_node S then clear_lastnode S else S)\<lparr>b_f0 := 0\<rparr>"

definition G_mix :: "'a::len word alg \<Rightarrow> 'a word list \<Rightarrow> nat \<Rightarrow> nat \<Rightarrow>
    nat \<times> nat \<times> nat \<times> nat \<Rightarrow> 'a word list \<Rightarrow> 'a word list" where
  "G_mix A m r i q v =
     (case q of (ia, ib, ic, ie) \<Rightarrow>
        let a = v ! ia; b = v ! ib; c = v ! ic; d = v ! ie;
            a = a + b + m ! (SIG A ! r ! (2 * i + 0));
            d = rotr (d XOR a) (ROT A ! 0);
            c = c + d;
            b = rotr (b XOR c) (ROT A ! 1);
            a = a + b + m ! (SIG A ! r ! (2 * i + 1));
            d = rotr (d XOR a) (ROT A ! 2);
            c = c + d;
            b = rotr (b XOR c) (ROT A ! 3)
        in v[ia := a, ib := b, ic := c, ie := d])"

definition ROUND :: "'a::len word alg \<Rightarrow> 'a word list \<Rightarrow> nat \<Rightarrow> 'a word list \<Rightarrow> 'a word list" where
  "ROUND A m r v =
     (let v = G_mix A m r 0 (0, 4,  8, 12) v;
          v = G_mix A m r 1 (1, 5,  9, 13) v;
          v = G_mix A m r 2 (2, 6, 10, 14) v;
          v = G_mix A m r 3 (3, 7, 11, 15) v;
          v = G_mix A m r 4 (0, 5, 10, 15) v;
          v = G_mix A m r 5 (1, 6, 11, 12) v;
          v = G_mix A m r 6 (2, 7,  8, 13) v;
          v = G_mix A m r 7 (3, 4,  9, 14) v
      in v)"

definition compress :: "'a::len word alg \<Rightarrow> 'a word state \<Rightarrow> u8 list \<Rightarrow> 'a word state" where
  "compress A S block =
     (let m = map (\<lambda>i. LOAD A (take (WORDBYTES A) (drop (i * WORDBYTES A) block))) [0..<16];
          v = b_h S @ take 4 (IV A) @ [b_t0 S XOR IV A ! 4, b_t1 S XOR IV A ! 5,
                b_f0 S XOR IV A ! 6, b_f1 S XOR IV A ! 7];
          v = fold (ROUND A m) [0..<length (SIG A)] v
      in S\<lparr>b_h := map (\<lambda>i. b_h S ! i XOR v ! i XOR v ! (i + 8)) [0..<8]\<rparr>)"

definition init0 :: "'a::len word alg \<Rightarrow> 'a word state" where
  "init0 A = \<lparr>b_h = IV A, b_t0 = 0, b_t1 = 0, b_f0 = 0, b_f1 = 0,
     b_buf = replicate (2 * BLOCKBYTES A) 0, b_buflen = 0, b_last_node = False\<rparr>"

definition init_param :: "'a::len word alg \<Rightarrow> param \<Rightarrow> 'a word state" where
  "init_param A P =
     (let S = init0 A; p = PARAM A P in
      S\<lparr>b_h := map (\<lambda>i. b_h S ! i XOR LOAD A (take (WORDBYTES A) (drop (WORDBYTES A * i) p))) [0..<8]\<rparr>)"

definition seq_param :: "'a::len word alg \<Rightarrow> u8 \<Rightarrow> u8 \<Rightarrow> param" where
  "seq_param A outlen keylen =
     \<lparr>digest_length = outlen, key_length = keylen, fanout = 1, depth = 1, leaf_length = 0,
      node_offset = 0, node_depth = 0, inner_length = 0,
      salt = replicate (ZEROS A) 0, personal = replicate (ZEROS A) 0\<rparr>"

definition bad_outlen :: "'a::len word alg \<Rightarrow> u8 \<Rightarrow> bool" where
  "bad_outlen A outlen = (outlen = 0 \<or> OUTBYTES A < unat outlen)"

definition init :: "'a::len word alg \<Rightarrow> u8 \<Rightarrow> 'a word state option" where
  "init A outlen =
     (if bad_outlen A outlen then None else Some (init_param A (seq_param A outlen 0)))"

text \<open>One turn of the loop of \<open>blake2b_update\<close> in which the buffer is filled and compressed.\<close>

definition fill_step :: "'a::len word alg \<Rightarrow> 'a word state \<Rightarrow> u8 list \<Rightarrow> 'a word state" where
  "fill_step A S inp =
     (let left = b_buflen S;
          fill = 2 * BLOCKBYTES A - left;
          S = S\<lparr>b_buf := blit (b_buf S) left (take fill inp), b_buflen := left + fill\<rparr>;
          S = increment_counter S (BLOCKBYTES A);
          S = compress A S (take (BLOCKBYTES A) (b_buf S))
      in S\<lparr>b_buf := blit (b_buf S) 0 (take (BLOCKBYTES A) (drop (BLOCKBYTES A) (b_buf S))),
           b_buflen := b_buflen S - BLOCKBYTES A\<rparr>)"

function update :: "'a::len word alg \<Rightarrow> 'a word state \<Rightarrow> u8 list \<Rightarrow> 'a word state" where
  "update A S inp =
     (if inp = [] \<or> BLOCKBYTES A = 0 then S
      else
        (let left = b_buflen S; fill = 2 * BLOCKBYTES A - left in
         if fill < length inp then update A (fill_step A S inp) (drop fill inp)
         else S\<lparr>b_buf := blit (b_buf S) left inp, b_buflen := left + length inp\<rparr>))"
  by pat_completeness auto
termination
  by (relation "measures [\<lambda>(A, S, inp). length inp, \<lambda>(A, S, inp). b_buflen S]")
    (auto simp: fill_step_def Let_def compress_def increment_counter_def)

definition key_block :: "'a::len word alg \<Rightarrow> u8 list \<Rightarrow> u8 \<Rightarrow> u8 list" where
  "key_block A key keylen = blit (replicate (BLOCKBYTES A) 0) 0 (take (unat keylen) key)"

definition init_key ::
    "'a::len word alg \<Rightarrow> u8 \<Rightarrow> u8 list option \<Rightarrow> u8 \<Rightarrow> 'a word state option" where
  "init_key A outlen key keylen =
     (if bad_outlen A outlen then None
      else if key = None \<or> keylen = 0 \<or> KEYBYTES A < unat keylen then None
      else Some (update A (init_param A (seq_param A outlen keylen))
                   (key_block A (the key) keylen)))"

definition flush_block :: "'a::len word alg \<Rightarrow> 'a word state \<Rightarrow> 'a word state" where
  "flush_block A S =
     (if BLOCKBYTES A < b_buflen S then
        (let S = increment_counter S (BLOCKBYTES A);
             S = compress A S (take (BLOCKBYTES A) (b_buf S));
             S = S\<lparr>b_buflen := b_buflen S - BLOCKBYTES A\<rparr>
         in S\<lparr>b_buf := blit (b_buf S) 0 (take (b_buflen S) (drop (BLOCKBYTES A) (b_buf S)))\<rparr>)
      else S)"

definition final_state :: "'a::len word alg \<Rightarrow> 'a word state \<Rightarrow> 'a word state" where
  "final_state A S =
     (let S = flush_block A S;
          S = increment_counter S (b_buflen S);
          S = set_lastblock S;
          S = S\<lparr>b_buf := blit (b_buf S) (b_buflen S) (replicate (2 * BLOCKBYTES A - b_buflen S) 0)\<rparr>
      in compress A S (take (BLOCKBYTES A) (b_buf S)))"

definition final :: "'a::len word alg \<Rightarrow> 'a word state \<Rightarrow> u8 \<Rightarrow> u8 list option" where
  "final A S outlen =
     (if bad_outlen A outlen then None
      else Some (take (unat outlen) (concat (map (STORE A) (b_h (final_state A S))))))"

definition blake2 :: "'a::len word alg \<Rightarrow> u8 list \<Rightarrow> u8 list option \<Rightarrow> u8 \<Rightarrow> u8 \<Rightarrow> u8 list option" where
  "blake2 A inp key outlen keylen =
     (if key = None \<and> 0 < keylen then None
      else if bad_outlen A outlen then None
      else if KEYBYTES A < unat keylen then None
      else
        do {
          S \<leftarrow> (if 0 < keylen then init_key A outlen key keylen else init A outlen);
          final A (update A S inp) outlen
        })"

definition blake2b_init :: "u8 \<Rightarrow> u64 state option" where
  "blake2b_init = init blake2b_alg"
definition blake2b_update :: "u64 state \<Rightarrow> u8 list \<Rightarrow> u64 state" where
  "blake2b_update = update blake2b_alg"
definition blake2b_final :: "u64 state \<Rightarrow> u8 \<Rightarrow> u8 list option" where
  "blake2b_final = final blake2b_alg"
definition blake2b :: "u8 list \<Rightarrow> u8 list option \<Rightarrow> u8 \<Rightarrow> u8 \<Rightarrow> u8 list option" where
  "blake2b = blake2 blake2b_alg"

definition blake2s_init :: "u8 \<Rightarrow> u32 state option" where
  "blake2s_init = init blake2s_alg"
definition blake2s_update :: "u32 state \<Rightarrow> u8 list \<Rightarrow> u32 state" where
  "blake2s_update = update blake2s_alg"
definition blake2s_final :: "u32 state \<Rightarrow> u8 \<Rightarrow> u8 list option" where
  "blake2s_final = final blake2s_alg"
definition blake2s :: "u8 list \<Rightarrow> u8 list option \<Rightarrow> u8 \<Rightarrow> u8 \<Rightarrow> u8 list option" where
  "blake2s = blake2 blake2s_alg"

declare update.simps [simp del]

section \<open>The parallel hash (blake2bp-ref.c, blake2sp-ref.c)\<close>

record 'w pstate =
  p_S :: "'w state list"
  p_R :: "'w state"
  p_buf :: "u8 list"
  p_buflen :: nat

definition node_param :: "'a::len word alg \<Rightarrow> nat \<Rightarrow> u8 \<Rightarrow> u8 \<Rightarrow> nat \<Rightarrow> u8 \<Rightarrow> param" where
  "node_param A deg outlen keylen offset nd =
     \<lparr>digest_length = outlen, key_length = keylen, fanout = of_nat deg, depth = 2, leaf_length = 0,
      node_offset = of_nat offset, node_depth = nd, inner_length = of_nat (OUTBYTES A),
      salt = replicate (ZEROS A) 0, personal = replicate (ZEROS A) 0\<rparr>"

definition init_leaf :: "'a::len word alg \<Rightarrow> nat \<Rightarrow> u8 \<Rightarrow> u8 \<Rightarrow> nat \<Rightarrow> 'a word state" where
  "init_leaf A deg outlen keylen offset = init_param A (node_param A deg outlen keylen offset 0)"

definition init_root :: "'a::len word alg \<Rightarrow> nat \<Rightarrow> u8 \<Rightarrow> u8 \<Rightarrow> 'a word state" where
  "init_root A deg outlen keylen = init_param A (node_param A deg outlen keylen 0 1)"

definition init_leaves :: "'a::len word alg \<Rightarrow> nat \<Rightarrow> u8 \<Rightarrow> u8 \<Rightarrow> 'a word state list" where
  "init_leaves A deg outlen keylen =
     (let S = map (init_leaf A deg outlen keylen) [0..<deg] in
      S[deg - 1 := (S ! (deg - 1))\<lparr>b_last_node := True\<rparr>])"

definition par_init :: "'a::len word alg \<Rightarrow> nat \<Rightarrow> u8 \<Rightarrow> 'a word pstate option" where
  "par_init A deg outlen =
     (if bad_outlen A outlen then None
      else Some \<lparr>p_S = init_leaves A deg outlen 0,
                 p_R = (init_root A deg outlen 0)\<lparr>b_last_node := True\<rparr>,
                 p_buf = replicate (deg * BLOCKBYTES A) 0, p_buflen = 0\<rparr>)"

definition par_init_key ::
    "'a::len word alg \<Rightarrow> nat \<Rightarrow> u8 \<Rightarrow> u8 list option \<Rightarrow> u8 \<Rightarrow> 'a word pstate option" where
  "par_init_key A deg outlen key keylen =
     (if bad_outlen A outlen then None
      else if key = None \<or> keylen = 0 \<or> KEYBYTES A < unat keylen then None
      else Some \<lparr>p_S = map (\<lambda>S. update A S (key_block A (the key) keylen)) (init_leaves A deg outlen keylen),
                 p_R = (init_root A deg outlen keylen)\<lparr>b_last_node := True\<rparr>,
                 p_buf = replicate (deg * BLOCKBYTES A) 0, p_buflen = 0\<rparr>)"

text \<open>The loop of one leaf over the stripes: \<open>in_t\<close> points at the leaf's block of the stripe.\<close>

function lane_loop :: "'a::len word alg \<Rightarrow> nat \<Rightarrow> 'a word state \<Rightarrow> u8 list \<Rightarrow> nat \<Rightarrow>
    'a word state \<times> u8 list \<times> nat" where
  "lane_loop A deg S in_t inlen_t =
     (if deg * BLOCKBYTES A \<le> inlen_t \<and> 0 < deg * BLOCKBYTES A then
        lane_loop A deg (update A S (take (BLOCKBYTES A) in_t)) (drop (deg * BLOCKBYTES A) in_t)
          (inlen_t - deg * BLOCKBYTES A)
      else (S, in_t, inlen_t))"
  by pat_completeness auto
termination
  by (relation "measure (\<lambda>(A, deg, S, in_t, inlen_t). inlen_t)")
    (auto simp del: nat_0_less_mult_iff)

text \<open>\<open>par_update\<close>: a buffer that the input completes, then the whole stripes, then what is left.\<close>

definition par_fill :: "'a::len word alg \<Rightarrow> nat \<Rightarrow> 'a word pstate \<Rightarrow> u8 list \<Rightarrow>
    'a word pstate \<times> u8 list \<times> nat" where
  "par_fill A deg P inp =
     (let left = p_buflen P;
          fill = length (p_buf P) - left
      in if left \<noteq> 0 \<and> fill \<le> length inp then
           (let buf = blit (p_buf P) left (take fill inp) in
            (P\<lparr>p_buf := buf,
               p_S := map (\<lambda>i. update A (p_S P ! i) (take (BLOCKBYTES A) (drop (i * BLOCKBYTES A) buf)))
                        [0..<deg]\<rparr>,
             drop fill inp, 0))
         else (P, inp, left))"

definition par_stripes :: "'a::len word alg \<Rightarrow> nat \<Rightarrow> 'a word pstate \<Rightarrow> u8 list \<Rightarrow> nat \<Rightarrow> 'a word pstate" where
  "par_stripes A deg P inp left =
     (let P = P\<lparr>p_S := map (\<lambda>id_t. fst (lane_loop A deg (p_S P ! id_t)
                                 (drop (id_t * BLOCKBYTES A) inp) (length inp))) [0..<deg]\<rparr>;
          inlen = length inp mod (deg * BLOCKBYTES A);
          inp = drop (length inp - inlen) inp
      in P\<lparr>p_buf := (if 0 < inlen then blit (p_buf P) left inp else p_buf P),
           p_buflen := left + inlen\<rparr>)"

definition par_update :: "'a::len word alg \<Rightarrow> nat \<Rightarrow> 'a word pstate \<Rightarrow> u8 list \<Rightarrow> 'a word pstate" where
  "par_update A deg P inp =
     (case par_fill A deg P inp of (P, inp, left) \<Rightarrow> par_stripes A deg P inp left)"

definition par_root :: "'a::len word alg \<Rightarrow> 'a word state \<Rightarrow> 'a word state list \<Rightarrow> u8 \<Rightarrow> u8 list option" where
  "par_root A R S outlen =
     do {
       hash \<leftarrow> those (map (\<lambda>s. final A s (of_nat (OUTBYTES A))) S);
       final A (fold (\<lambda>h R. update A R h) hash R) outlen
     }"

definition par_final :: "'a::len word alg \<Rightarrow> nat \<Rightarrow> 'a word pstate \<Rightarrow> u8 \<Rightarrow> u8 list option" where
  "par_final A deg P outlen =
     par_root A (p_R P)
       (map (\<lambda>i. if i * BLOCKBYTES A < p_buflen P then
                   (let left = p_buflen P - i * BLOCKBYTES A;
                        left = (if BLOCKBYTES A < left then BLOCKBYTES A else left)
                    in update A (p_S P ! i) (take left (drop (i * BLOCKBYTES A) (p_buf P))))
                 else p_S P ! i) [0..<deg])
       outlen"

text \<open>The work of one leaf in the one-shot function.\<close>

definition leaf_all :: "'a::len word alg \<Rightarrow> nat \<Rightarrow> 'a word state \<Rightarrow> nat \<Rightarrow> u8 list \<Rightarrow> 'a word state" where
  "leaf_all A deg S id_t inp =
     (let (S, in_t, inlen_t) = lane_loop A deg S (drop (id_t * BLOCKBYTES A) inp) (length inp) in
      if id_t * BLOCKBYTES A < inlen_t then
        (let left = inlen_t - id_t * BLOCKBYTES A;
             len = (if left \<le> BLOCKBYTES A then left else BLOCKBYTES A)
         in update A S (take len in_t))
      else S)"

definition par_hash ::
    "'a::len word alg \<Rightarrow> nat \<Rightarrow> u8 list \<Rightarrow> u8 list option \<Rightarrow> u8 \<Rightarrow> u8 \<Rightarrow> u8 list option" where
  "par_hash A deg inp key outlen keylen =
     (if key = None \<and> 0 < keylen then None
      else if bad_outlen A outlen then None
      else if KEYBYTES A < unat keylen then None
      else
        (let S = init_leaves A deg outlen keylen;
             S = (if 0 < keylen then map (\<lambda>s. update A s (key_block A (the key) keylen)) S else S);
             S = map (\<lambda>id_t. leaf_all A deg (S ! id_t) id_t inp) [0..<deg];
             FS = (init_root A deg outlen keylen)\<lparr>b_last_node := True\<rparr>
         in par_root A FS S outlen))"

definition blake2bp_init :: "u8 \<Rightarrow> u64 pstate option" where
  "blake2bp_init = par_init blake2b_alg 4"
definition blake2bp_init_key :: "u8 \<Rightarrow> u8 list option \<Rightarrow> u8 \<Rightarrow> u64 pstate option" where
  "blake2bp_init_key = par_init_key blake2b_alg 4"
definition blake2bp_update :: "u64 pstate \<Rightarrow> u8 list \<Rightarrow> u64 pstate" where
  "blake2bp_update = par_update blake2b_alg 4"
definition blake2bp_final :: "u64 pstate \<Rightarrow> u8 \<Rightarrow> u8 list option" where
  "blake2bp_final = par_final blake2b_alg 4"
definition blake2bp :: "u8 list \<Rightarrow> u8 list option \<Rightarrow> u8 \<Rightarrow> u8 \<Rightarrow> u8 list option" where
  "blake2bp = par_hash blake2b_alg 4"

definition blake2sp_init :: "u8 \<Rightarrow> u32 pstate option" where
  "blake2sp_init = par_init blake2s_alg 8"
definition blake2sp_init_key :: "u8 \<Rightarrow> u8 list option \<Rightarrow> u8 \<Rightarrow> u32 pstate option" where
  "blake2sp_init_key = par_init_key blake2s_alg 8"
definition blake2sp_update :: "u32 pstate \<Rightarrow> u8 list \<Rightarrow> u32 pstate" where
  "blake2sp_update = par_update blake2s_alg 8"
definition blake2sp_final :: "u32 pstate \<Rightarrow> u8 \<Rightarrow> u8 list option" where
  "blake2sp_final = par_final blake2s_alg 8"
definition blake2sp :: "u8 list \<Rightarrow> u8 list option \<Rightarrow> u8 \<Rightarrow> u8 \<Rightarrow> u8 list option" where
  "blake2sp = par_hash blake2s_alg 8"

declare lane_loop.simps [simp del]

end
