(* ===== verification/Blake2_Proofs.thy ===== *)
theory Blake2_Proofs
  imports Blake2
begin

text \<open>
  BLAKE2 against RFC 7693: the lazy double-buffered loop of \<open>update\<close> and the padding of \<open>final\<close>
  compute the block recursion of the RFC, however the input is cut into pieces.
\<close>

section \<open>Definitions\<close>

text \<open>The compression function F of the RFC, of a chaining value, a block, a byte count and the flags.\<close>

definition F :: "'a::len word alg \<Rightarrow> 'a word list \<Rightarrow> u8 list \<Rightarrow> nat \<Rightarrow> bool \<Rightarrow> bool \<Rightarrow> 'a word list" where
  "F A h block t fin node =
     b_h (compress A \<lparr>b_h = h, b_t0 = of_nat t, b_t1 = of_nat (t div 2 ^ LENGTH('a)),
        b_f0 = (if fin then - 1 else 0), b_f1 = (if fin \<and> node then - 1 else 0),
        b_buf = [], b_buflen = 0, b_last_node = node\<rparr> block)"

text \<open>The recursion of the RFC: full blocks, then the last one, padded and flagged.\<close>

function rfc7693 :: "'a::len word alg \<Rightarrow> bool \<Rightarrow> 'a word list \<Rightarrow> nat \<Rightarrow> u8 list \<Rightarrow> 'a word list" where
  "rfc7693 A node h t d =
     (if length d \<le> BLOCKBYTES A \<or> BLOCKBYTES A = 0 then
        F A h (d @ replicate (BLOCKBYTES A - length d) 0) (t + length d) True node
      else
        rfc7693 A node (F A h (take (BLOCKBYTES A) d) (t + BLOCKBYTES A) False node)
          (t + BLOCKBYTES A) (drop (BLOCKBYTES A) d))"
  by pat_completeness auto
termination
  by (relation "measure (\<lambda>(A, node, h, t, d). length d)") auto

declare rfc7693.simps [simp del]

definition wf_state :: "'a::len word alg \<Rightarrow> nat \<Rightarrow> 'a word state \<Rightarrow> bool" where
  "wf_state A t S =
     (length (b_buf S) = 2 * BLOCKBYTES A \<and> b_buflen S \<le> 2 * BLOCKBYTES A \<and>
      b_t0 S = of_nat t \<and> b_t1 S = of_nat (t div 2 ^ LENGTH('a)) \<and> b_f0 S = 0 \<and> b_f1 S = 0)"

definition pending :: "'a::len word state \<Rightarrow> u8 list" where
  "pending S = take (b_buflen S) (b_buf S)"

section \<open>Lemmas\<close>

lemma length_blit: "pos + length src \<le> length dst \<Longrightarrow> length (blit dst pos src) = length dst"
  by (simp add: blit_def)

lemma take_blit: "pos \<le> length dst \<Longrightarrow> take (pos + length src) (blit dst pos src) = take pos dst @ src"
  by (simp add: blit_def)

lemma blit_blit:
  assumes "pos \<le> length dst"
  shows "blit (blit dst pos x) (pos + length x) y = blit dst pos (x @ y)"
  using assms by (simp add: blit_def ac_simps)

lemma blit_Nil: "blit dst pos [] = dst"
  by (simp add: blit_def)

lemma take_shifted:
  "length buf = n + n \<Longrightarrow> take n (blit buf 0 (take n (drop n buf))) = take n (drop n buf)"
  by (simp add: blit_def)

lemma take_drop_take: "take n (drop n (take (2 * n) xs)) = take n (drop n xs)"
  by (simp add: drop_take)

lemma fill_step_cong:
  assumes "S\<lparr>b_buf := blit (b_buf S) (b_buflen S) (take (2 * BLOCKBYTES A - b_buflen S) x),
      b_buflen := b_buflen S + (2 * BLOCKBYTES A - b_buflen S)\<rparr>
    = T\<lparr>b_buf := blit (b_buf T) (b_buflen T) (take (2 * BLOCKBYTES A - b_buflen T) y),
      b_buflen := b_buflen T + (2 * BLOCKBYTES A - b_buflen T)\<rparr>"
  shows "fill_step A S x = fill_step A T y"
  unfolding fill_step_def Let_def assms ..

lemma compress_eq: "compress A S block = S\<lparr>b_h := b_h (compress A S block)\<rparr>"
  by (simp add: compress_def Let_def)

lemma compress_fields [simp]:
  "b_t0 (compress A S bl) = b_t0 S" "b_t1 (compress A S bl) = b_t1 S" "b_f0 (compress A S bl) = b_f0 S"
  "b_f1 (compress A S bl) = b_f1 S" "b_buf (compress A S bl) = b_buf S"
  "b_buflen (compress A S bl) = b_buflen S" "b_last_node (compress A S bl) = b_last_node S"
  by (simp_all add: compress_def Let_def)

lemma increment_counter_fields [simp]:
  "b_h (increment_counter S n) = b_h S" "b_f0 (increment_counter S n) = b_f0 S"
  "b_f1 (increment_counter S n) = b_f1 S" "b_buf (increment_counter S n) = b_buf S"
  "b_buflen (increment_counter S n) = b_buflen S" "b_last_node (increment_counter S n) = b_last_node S"
  by (simp_all add: increment_counter_def Let_def)

lemma set_lastblock_fields [simp]:
  "b_h (set_lastblock S) = b_h S" "b_t0 (set_lastblock S) = b_t0 S" "b_t1 (set_lastblock S) = b_t1 S"
  "b_f0 (set_lastblock S) = - 1" "b_f1 (set_lastblock S) = (if b_last_node S then - 1 else b_f1 S)"
  "b_buf (set_lastblock S) = b_buf S" "b_buflen (set_lastblock S) = b_buflen S"
  by (simp_all add: set_lastblock_def set_lastnode_def)

text \<open>The two counter words hold the low and the high part of the byte count.\<close>

lemma counter_carry:
  assumes "n < 2 ^ LENGTH('a)"
  shows "(of_nat ((t + n) div 2 ^ LENGTH('a)) :: 'a::len word)
    = of_nat (t div 2 ^ LENGTH('a)) + (if (of_nat (t + n) :: 'a word) < of_nat n then 1 else 0)"
proof -
  let ?M = "2 ^ LENGTH('a) :: nat"
  have less: "(of_nat (t + n) :: 'a word) < of_nat n \<longleftrightarrow> (t + n) mod ?M < n"
    using assms by (simp add: word_less_nat_alt unat_of_nat del: of_nat_add)
  have t: "t + n = ?M * (t div ?M) + (t mod ?M + n)" by simp
  have M: "t mod ?M < ?M" by simp
  have gen: "(?M * q + r) div ?M = q" "(?M * q + r) mod ?M = r" if "r < ?M" for q r
    using that by simp_all
  show ?thesis
  proof (cases "t mod ?M + n < ?M")
    case True
    have "(t + n) div ?M = t div ?M" using gen(1) [OF True, of "t div ?M"] t by metis
    moreover have "(t + n) mod ?M = t mod ?M + n" using gen(2) [OF True, of "t div ?M"] t by metis
    ultimately show ?thesis using less by simp
  next
    case False
    have s: "t mod ?M + n = ?M + (t mod ?M + n - ?M)" using False by simp
    have r: "t mod ?M + n - ?M < n" "t mod ?M + n - ?M < ?M" using M assms False by linarith+
    have t': "t + n = ?M * Suc (t div ?M) + (t mod ?M + n - ?M)" using t s by simp
    have "(t + n) div ?M = Suc (t div ?M)" using gen(1) [OF r(2), of "Suc (t div ?M)"] t' by metis
    moreover have "(t + n) mod ?M = t mod ?M + n - ?M" using gen(2) [OF r(2), of "Suc (t div ?M)"] t' by metis
    ultimately show ?thesis using less r(1) by simp
  qed
qed

lemma increment_counter_t:
  fixes S :: "'a::len word state"
  assumes "b_t0 S = of_nat t" "b_t1 S = of_nat (t div 2 ^ LENGTH('a))" "n < 2 ^ LENGTH('a)"
  shows "b_t0 (increment_counter S n) = of_nat (t + n)"
    "b_t1 (increment_counter S n) = of_nat ((t + n) div 2 ^ LENGTH('a))"
  using assms counter_carry [OF assms(3), of t]
  by (simp_all add: increment_counter_def Let_def)

lemma compress_F:
  fixes S :: "'a::len word state"
  assumes "b_t0 S = of_nat t" "b_t1 S = of_nat (t div 2 ^ LENGTH('a))"
    "b_f0 S = (if fin then - 1 else 0)" "b_f1 S = (if fin \<and> node then - 1 else 0)"
  shows "b_h (compress A S block) = F A (b_h S) block t fin node"
  using assms by (simp add: F_def compress_def Let_def)

text \<open>What the two algorithms have in common: the sizes that the buffering relies on.\<close>

locale blake2_algorithm =
  fixes A :: "'a::len word alg"
  assumes block_pos: "0 < BLOCKBYTES A"
    and block_small: "2 * BLOCKBYTES A < 2 ^ LENGTH('a)"
    and key_fits: "KEYBYTES A \<le> BLOCKBYTES A"
begin

lemma fill_step_spec:
  assumes wf: "wf_state A t S" and len: "2 * BLOCKBYTES A - b_buflen S \<le> length inp"
  shows "wf_state A (t + BLOCKBYTES A) (fill_step A S inp)"
    and "b_h (fill_step A S inp) = F A (b_h S)
      (take (BLOCKBYTES A) (pending S @ inp)) (t + BLOCKBYTES A) False (b_last_node S)"
    and "pending (fill_step A S inp)
      = take (BLOCKBYTES A) (drop (BLOCKBYTES A) (pending S @ inp))"
    and "b_last_node (fill_step A S inp) = b_last_node S"
    and "b_buflen (fill_step A S inp) = BLOCKBYTES A"
proof -
  let ?fill = "2 * BLOCKBYTES A - b_buflen S"
  let ?buf = "blit (b_buf S) (b_buflen S) (take ?fill inp)"
  have l: "length (b_buf S) = 2 * BLOCKBYTES A" "b_buflen S \<le> 2 * BLOCKBYTES A"
    using wf by (auto simp: wf_state_def)
  have buf: "?buf = take (2 * BLOCKBYTES A) (pending S @ inp)"
    using l len by (simp add: blit_def pending_def)
  let ?S1 = "S\<lparr>b_buf := ?buf, b_buflen := b_buflen S + ?fill\<rparr>"
  have small: "BLOCKBYTES A < 2 ^ LENGTH('a)" using block_small by linarith
  have t: "b_t0 ?S1 = of_nat t" "b_t1 ?S1 = of_nat (t div 2 ^ LENGTH('a))"
    using wf by (simp_all add: wf_state_def)
  note c = increment_counter_t [OF t small]
  have lb: "length ?buf = 2 * BLOCKBYTES A" using l len by (simp add: length_blit)
  show "b_last_node (fill_step A S inp) = b_last_node S" "b_buflen (fill_step A S inp) = BLOCKBYTES A"
    using l by (simp_all add: fill_step_def Let_def)
  show "wf_state A (t + BLOCKBYTES A) (fill_step A S inp)"
    using c wf l lb by (simp add: wf_state_def fill_step_def Let_def length_blit)
  show "b_h (fill_step A S inp) = F A (b_h S)
      (take (BLOCKBYTES A) (pending S @ inp)) (t + BLOCKBYTES A) False (b_last_node S)"
  proof -
    have "b_h (compress A (increment_counter ?S1 (BLOCKBYTES A)) (take (BLOCKBYTES A) ?buf))
      = F A (b_h S) (take (BLOCKBYTES A) ?buf) (t + BLOCKBYTES A) False (b_last_node S)"
      using c wf by (subst compress_F [where fin = False]) (simp_all add: wf_state_def)
    moreover have "take (BLOCKBYTES A) ?buf = take (BLOCKBYTES A) (pending S @ inp)"
      unfolding buf take_take by (simp add: min_absorb1)
    ultimately show ?thesis by (simp add: fill_step_def Let_def)
  qed
  have "pending (fill_step A S inp) = take (BLOCKBYTES A) (drop (BLOCKBYTES A) ?buf)"
  proof -
    have "pending (fill_step A S inp) = take (BLOCKBYTES A)
        (blit ?buf 0 (take (BLOCKBYTES A) (drop (BLOCKBYTES A) ?buf)))"
      using l by (simp add: pending_def fill_step_def Let_def)
    also have "\<dots> = take (BLOCKBYTES A) (drop (BLOCKBYTES A) ?buf)"
      by (rule take_shifted) (simp add: lb)
    finally show ?thesis .
  qed
  also have "\<dots> = take (BLOCKBYTES A) (drop (BLOCKBYTES A) (pending S @ inp))"
    unfolding buf by (rule take_drop_take)
  finally show "pending (fill_step A S inp)
      = take (BLOCKBYTES A) (drop (BLOCKBYTES A) (pending S @ inp))" .
qed

lemma update_Nil [simp]: "update A S [] = S"
  by (simp add: update.simps)

lemma update_long:
  assumes "2 * BLOCKBYTES A - b_buflen S < length inp"
  shows "update A S inp = update A (fill_step A S inp) (drop (2 * BLOCKBYTES A - b_buflen S) inp)"
proof -
  have "inp \<noteq> []" using assms by auto
  then show ?thesis using assms block_pos by (subst update.simps) (simp add: Let_def)
qed

lemma update_short:
  assumes "length inp \<le> 2 * BLOCKBYTES A - b_buflen S"
  shows "update A S inp = S\<lparr>b_buf := blit (b_buf S) (b_buflen S) inp, b_buflen := b_buflen S + length inp\<rparr>"
  using assms block_pos by (subst update.simps) (auto simp: Let_def blit_Nil)

lemma flush_digest:
  assumes wf: "wf_state A t S" and big: "BLOCKBYTES A < b_buflen S"
  shows "wf_state A (t + BLOCKBYTES A) (flush_block A S)"
    and "b_h (flush_block A S) = F A (b_h S) (take (BLOCKBYTES A) (pending S)) (t + BLOCKBYTES A) False (b_last_node S)"
    and "pending (flush_block A S) = drop (BLOCKBYTES A) (pending S)"
    and "b_last_node (flush_block A S) = b_last_node S"
    and "b_buflen (flush_block A S) \<le> BLOCKBYTES A"
proof -
  have l: "length (b_buf S) = 2 * BLOCKBYTES A" "b_buflen S \<le> 2 * BLOCKBYTES A"
    using wf by (auto simp: wf_state_def)
  have small: "BLOCKBYTES A < 2 ^ LENGTH('a)" using block_small by linarith
  have t: "b_t0 S = of_nat t" "b_t1 S = of_nat (t div 2 ^ LENGTH('a))"
    using wf by (simp_all add: wf_state_def)
  note c = increment_counter_t [OF t small]
  show "b_last_node (flush_block A S) = b_last_node S" "b_buflen (flush_block A S) \<le> BLOCKBYTES A"
    using l big by (simp_all add: flush_block_def Let_def)
  show "wf_state A (t + BLOCKBYTES A) (flush_block A S)"
    using c wf l big by (simp add: wf_state_def flush_block_def Let_def length_blit)
  have "b_h (compress A (increment_counter S (BLOCKBYTES A)) (take (BLOCKBYTES A) (b_buf S)))
      = F A (b_h S) (take (BLOCKBYTES A) (b_buf S)) (t + BLOCKBYTES A) False (b_last_node S)"
    using c wf by (subst compress_F [where fin = False]) (simp_all add: wf_state_def)
  moreover have "take (BLOCKBYTES A) (pending S) = take (BLOCKBYTES A) (b_buf S)"
    using big by (simp add: pending_def min_def)
  ultimately show "b_h (flush_block A S) = F A (b_h S) (take (BLOCKBYTES A) (pending S)) (t + BLOCKBYTES A) False (b_last_node S)"
    using big by (simp add: flush_block_def Let_def)
  show "pending (flush_block A S) = drop (BLOCKBYTES A) (pending S)"
    using big l by (simp add: pending_def flush_block_def Let_def blit_def drop_take)
qed

lemma final_state_digest:
  assumes wf: "wf_state A t S"
  shows "b_h (final_state A S) = rfc7693 A (b_last_node S) (b_h S) t (pending S)"
proof -
  have last: "b_h (final_state A V) = rfc7693 A (b_last_node V) (b_h V) k (pending V)"
    if wf: "wf_state A k V" and le: "b_buflen V \<le> BLOCKBYTES A" for k V
  proof -
    have l: "length (b_buf V) = 2 * BLOCKBYTES A" "b_buflen V \<le> 2 * BLOCKBYTES A"
      using wf by (auto simp: wf_state_def)
    have lp: "length (pending V) = b_buflen V" using l by (simp add: pending_def)
    have small: "b_buflen V < 2 ^ LENGTH('a)" using block_small le by linarith
    have t: "b_t0 V = of_nat k" "b_t1 V = of_nat (k div 2 ^ LENGTH('a))"
      using wf by (simp_all add: wf_state_def)
    note c = increment_counter_t [OF t small]
    let ?buf = "blit (b_buf V) (b_buflen V) (replicate (2 * BLOCKBYTES A - b_buflen V) 0)"
    have buf: "take (BLOCKBYTES A) ?buf = pending V @ replicate (BLOCKBYTES A - b_buflen V) 0"
      using l le by (simp add: blit_def pending_def min_def)
    have "flush_block A V = V" using le by (simp add: flush_block_def)
    then have "b_h (final_state A V) = F A (b_h V) (take (BLOCKBYTES A) ?buf) (k + b_buflen V) True (b_last_node V)"
      using c wf unfolding final_state_def Let_def
      by (subst compress_F [where fin = True]) (simp_all add: wf_state_def)
    then show ?thesis
      unfolding buf using le lp by (subst rfc7693.simps) simp
  qed
  show ?thesis
  proof (cases "BLOCKBYTES A < b_buflen S")
    case False
    then show ?thesis using last [OF wf] by simp
  next
    case True
    note fl = flush_digest [OF wf True]
    have "flush_block A (flush_block A S) = flush_block A S"
      using fl(5) by (simp add: flush_block_def [of A "flush_block A S"])
    then have "b_h (final_state A S) = b_h (final_state A (flush_block A S))"
      by (simp add: final_state_def)
    moreover have "length (pending S) = b_buflen S" using wf by (simp add: pending_def wf_state_def)
    ultimately show ?thesis
      using last [OF fl(1,5)] fl True block_pos
      by (subst rfc7693.simps) simp
  qed
qed

lemma short_wf:
  assumes wf: "wf_state A t S" and le: "length inp \<le> 2 * BLOCKBYTES A - b_buflen S"
  shows "wf_state A t (update A S inp)" "pending (update A S inp) = pending S @ inp"
    "b_h (update A S inp) = b_h S" "b_last_node (update A S inp) = b_last_node S"
  using wf le take_blit [of "b_buflen S" "b_buf S" inp]
  by (auto simp: update_short wf_state_def pending_def length_blit)

lemma update_wf: "wf_state A t S \<Longrightarrow> \<exists>t'. wf_state A t' (update A S inp)"
proof (induction "length inp + b_buflen S" arbitrary: t S inp rule: less_induct)
  case less
  show ?case
  proof (cases "2 * BLOCKBYTES A - b_buflen S < length inp")
    case True
    then have le: "2 * BLOCKBYTES A - b_buflen S \<le> length inp" by simp
    note fs = fill_step_spec [OF less.prems le]
    have "length (drop (2 * BLOCKBYTES A - b_buflen S) inp) + b_buflen (fill_step A S inp)
        < length inp + b_buflen S"
      using fs(5) True block_pos less.prems by (simp add: wf_state_def)
    from less.hyps [OF this fs(1)] show ?thesis using True by (simp add: update_long)
  next
    case False
    then show ?thesis using short_wf(1) [OF less.prems] by (meson not_less)
  qed
qed

text \<open>Updating and finishing is the recursion of the RFC over the pending bytes and the input.\<close>

lemma update_digest:
  "wf_state A t S \<Longrightarrow>
   b_h (final_state A (update A S inp)) = rfc7693 A (b_last_node S) (b_h S) t (pending S @ inp)"
proof (induction "length inp + b_buflen S" arbitrary: t S inp rule: less_induct)
  case less
  let ?fill = "2 * BLOCKBYTES A - b_buflen S"
  show ?case
  proof (cases "?fill < length inp")
    case True
    then have le: "?fill \<le> length inp" by simp
    note fs = fill_step_spec [OF less.prems le]
    have wf: "length (b_buf S) = 2 * BLOCKBYTES A" "b_buflen S \<le> 2 * BLOCKBYTES A"
      using less.prems by (auto simp: wf_state_def)
    have lp: "length (pending S) = b_buflen S" using wf by (simp add: pending_def)
    have "length (drop ?fill inp) + b_buflen (fill_step A S inp) < length inp + b_buflen S"
      using fs(5) True block_pos wf by simp
    from less.hyps [OF this fs(1)]
    have "b_h (final_state A (update A S inp))
      = rfc7693 A (b_last_node S) (b_h (fill_step A S inp)) (t + BLOCKBYTES A)
          (pending (fill_step A S inp) @ drop ?fill inp)"
      using fs(4) True by (simp add: update_long)
    moreover have "pending (fill_step A S inp) @ drop ?fill inp = drop (BLOCKBYTES A) (pending S @ inp)"
    proof -
      have "drop (BLOCKBYTES A) (drop (BLOCKBYTES A) (pending S @ inp)) = drop ?fill inp"
      proof -
        have "drop (BLOCKBYTES A) (drop (BLOCKBYTES A) (pending S @ inp))
          = drop (2 * BLOCKBYTES A) (pending S @ inp)" by (simp only: drop_drop mult_2)
        also have "\<dots> = drop ?fill inp" using lp wf by (simp only: drop_append) simp
        finally show ?thesis .
      qed
      then show ?thesis unfolding fs(3) by (metis append_take_drop_id)
    qed
    moreover have "\<not> (length (pending S @ inp) \<le> BLOCKBYTES A \<or> BLOCKBYTES A = 0)"
      using True lp wf block_pos by simp
    ultimately show ?thesis
      using fs(2) by (subst rfc7693.simps) simp
  next
    case False
    then have le: "length inp \<le> ?fill" by simp
    note sw = short_wf [OF less.prems le]
    show ?thesis using final_state_digest [OF sw(1)] sw by simp
  qed
qed

text \<open>Two updates in a row are one with the concatenated input.\<close>

lemma update_append:
  "wf_state A t S \<Longrightarrow> update A S (x @ y) = update A (update A S x) y"
proof (induction "length x + b_buflen S" arbitrary: t S x rule: less_induct)
  case less
  let ?fill = "2 * BLOCKBYTES A - b_buflen S"
  have wf: "length (b_buf S) = 2 * BLOCKBYTES A" "b_buflen S \<le> 2 * BLOCKBYTES A"
    using less.prems by (auto simp: wf_state_def)
  show ?case
  proof (cases "?fill < length x")
    case True
    then have le: "?fill \<le> length x" by simp
    note fs = fill_step_spec [OF less.prems le]
    have "fill_step A S (x @ y) = fill_step A S x" using True by (simp add: fill_step_def)
    moreover have "length (drop ?fill x) + b_buflen (fill_step A S x) < length x + b_buflen S"
      using fs(5) True block_pos wf by simp
    ultimately show ?thesis
      using less.hyps [OF _ fs(1), of "drop ?fill x"] True by (simp add: update_long)
  next
    case False
    then have le: "length x \<le> ?fill" by simp
    let ?U = "S\<lparr>b_buf := blit (b_buf S) (b_buflen S) x, b_buflen := b_buflen S + length x\<rparr>"
    have U: "update A S x = ?U" using le by (rule update_short)
    show ?thesis
    proof (cases "?fill < length (x @ y)")
      case True
      have bb: "blit (b_buf S) (b_buflen S) (take ?fill (x @ y))
          = blit (b_buf ?U) (b_buflen ?U) (take (2 * BLOCKBYTES A - b_buflen ?U) y)"
        using le wf by (simp add: blit_blit)
      have "fill_step A S (x @ y) = fill_step A ?U y"
        by (rule fill_step_cong) (use bb le wf in simp)
      moreover have "2 * BLOCKBYTES A - b_buflen ?U < length y" using True le by simp
      ultimately show ?thesis
        unfolding U using True le wf by (simp add: update_long)
    next
      case False
      then show ?thesis
        unfolding U using le wf by (simp add: update_short blit_blit)
    qed
  qed
qed

end

text \<open>The initial chaining value of the RFC, for an unkeyed or keyed sequential hash.\<close>

definition rfc_h0 :: "'a::len word alg \<Rightarrow> u8 \<Rightarrow> u8 \<Rightarrow> 'a word list" where
  "rfc_h0 A outlen keylen =
     (IV A ! 0 XOR 0x01010000 XOR push_bit 8 (ucast keylen) XOR ucast outlen) # tl (IV A)"

definition rfc_data :: "'a::len word alg \<Rightarrow> u8 list option \<Rightarrow> u8 \<Rightarrow> u8 list \<Rightarrow> u8 list" where
  "rfc_data A key keylen inp =
     (if keylen = 0 then inp
      else take (unat keylen) (the key) @ replicate (BLOCKBYTES A - unat keylen) 0 @ inp)"

lemma or_xor_bytes:
  fixes k n :: u8 and c :: "'a::len word"
  assumes "c = push_bit 16 1 OR push_bit 24 1"
  shows "ucast n OR push_bit 8 (ucast k) OR push_bit 16 1 OR push_bit 24 1
   = c XOR push_bit 8 (ucast k) XOR ucast n"
proof (rule bit_word_eqI)
  fix i assume "i < LENGTH('a)"
  let ?P = "bit (ucast n :: 'a word) i" and ?Q = "bit (push_bit 8 (ucast k) :: 'a word) i"
    and ?R = "bit (push_bit 16 1 :: 'a word) i" and ?T = "bit (push_bit 24 1 :: 'a word) i"
  have P: "?P \<Longrightarrow> i < 8" using bit_imp_le_length [of n i] by (auto simp: bit_unsigned_iff)
  have Q: "?Q \<Longrightarrow> 8 \<le> i \<and> i < 16" using bit_imp_le_length [of k "i - 8"]
    by (auto simp: bit_push_bit_iff bit_unsigned_iff)
  have R: "?R \<Longrightarrow> 16 \<le> i" "?T \<Longrightarrow> 24 \<le> i" by (simp_all only: bit_push_bit_iff)
  have "?P \<or> ?Q \<or> ?R \<or> ?T \<longleftrightarrow> ((?R \<or> ?T) \<noteq> (?Q \<noteq> ?P))"
    using P Q R by linarith
  then show "bit (ucast n OR push_bit 8 (ucast k) OR push_bit 16 1 OR push_bit 24 1 :: 'a word) i
      = bit (c XOR push_bit 8 (ucast k) XOR ucast n) i"
    unfolding assms by (simp only: bit_or_iff bit_xor_iff disj_assoc)
qed

lemma store_zero: "store32 0 = [0, 0, 0, 0]" "store64 0 = [0, 0, 0, 0, 0, 0, 0, 0]"
    "store48 0 = [0, 0, 0, 0, 0, 0]"
  by (simp_all add: store32_def store64_def store48_def eval_nat_numeral)

lemma load_zero: "load64 [0, 0, 0, 0, 0, 0, 0, 0] = 0" "load32 [0, 0, 0, 0] = 0"
  by (simp_all add: load64_def load32_def)

lemma load_lengths:
  "load64 [n, k, 1, 1, 0, 0, 0, 0] = 0x01010000 XOR push_bit 8 (ucast k) XOR ucast n"
  "load32 [n, k, 1, 1] = 0x01010000 XOR push_bit 8 (ucast k) XOR ucast n"
proof -
  have "(0x01010000 :: u64) = push_bit 16 1 OR push_bit 24 1"
    "(0x01010000 :: u32) = push_bit 16 1 OR push_bit 24 1" by simp_all
  note or_xor_bytes [OF this(1), of n k] or_xor_bytes [OF this(2), of n k]
  then show "load64 [n, k, 1, 1, 0, 0, 0, 0] = 0x01010000 XOR push_bit 8 (ucast k) XOR ucast n"
    "load32 [n, k, 1, 1] = 0x01010000 XOR push_bit 8 (ucast k) XOR ucast n"
    by (simp_all add: load64_def load32_def or.assoc)
qed


lemma blake2s_h0: "b_h (init_param blake2s_alg (seq_param blake2s_alg n k)) = rfc_h0 blake2s_alg n k"
  by (simp add: init_param_def init0_def seq_param_def blake2s_alg_def blake2s_param_def store_zero
        rfc_h0_def upt_rec numeral_eq_Suc load_lengths load_zero xor.assoc)
   (simp add: blake2s_IV_def)

lemma init_param_wf: "wf_state A 0 (init_param A P)" "pending (init_param A P) = []"
    "\<not> b_last_node (init_param A P)"
  by (simp_all add: init_param_def init0_def wf_state_def pending_def Let_def)

definition digest :: "'a::len word alg \<Rightarrow> 'a word list \<Rightarrow> u8 list" where
  "digest A h = concat (map (STORE A) h)"

context blake2_algorithm
begin

lemma final_update:
  assumes "wf_state A t S" "\<not> bad_outlen A outlen"
  shows "final A (update A S inp) outlen
    = Some (take (unat outlen) (digest A (rfc7693 A (b_last_node S) (b_h S) t (pending S @ inp))))"
  using assms update_digest [OF assms(1), of inp] by (simp add: final_def digest_def)

lemma key_block_eq:
  assumes "unat keylen \<le> length k" "unat keylen \<le> KEYBYTES A"
  shows "key_block A k keylen = take (unat keylen) k @ replicate (BLOCKBYTES A - unat keylen) 0"
  using assms by (simp add: key_block_def blit_def min_absorb2)

lemma blake2_rfc:
  assumes ok: "\<not> bad_outlen A outlen" "unat keylen \<le> KEYBYTES A"
    and key: "keylen = 0 \<or> (\<exists>k. key = Some k \<and> unat keylen \<le> length k)"
  shows "blake2 A inp key outlen keylen = Some (take (unat outlen) (digest A
    (rfc7693 A False (b_h (init_param A (seq_param A outlen keylen))) 0 (rfc_data A key keylen inp))))"
proof (cases "keylen = 0")
  case True
  then show ?thesis
    using ok final_update [OF init_param_wf(1) ok(1), of "seq_param A outlen 0" inp]
    by (simp add: blake2_def init_def init_param_wf rfc_data_def)
next
  case False
  then obtain k where k: "key = Some k" "unat keylen \<le> length k" using key by auto
  let ?S = "init_param A (seq_param A outlen keylen)"
  have "0 < keylen" using False by (simp add: word_neq_0_conv)
  then have "blake2 A inp key outlen keylen = final A (update A (update A ?S (key_block A k keylen)) inp) outlen"
    using ok k False by (simp add: blake2_def init_key_def)
  also have "\<dots> = final A (update A ?S (key_block A k keylen @ inp)) outlen"
    by (simp add: update_append [OF init_param_wf(1)])
  finally show ?thesis
    using final_update [OF init_param_wf(1) ok(1), of "seq_param A outlen keylen" "key_block A k keylen @ inp"]
      key_block_eq [OF k(2) ok(2)] k False
    by (simp add: init_param_wf rfc_data_def)
qed

lemma update_pieces:
  "wf_state A t S \<Longrightarrow> fold (\<lambda>x S. update A S x) xs S = update A S (concat xs)"
proof (induction xs arbitrary: t S)
  case Nil
  then show ?case by simp
next
  case (Cons x xs)
  obtain t' where t': "wf_state A t' (update A S x)" using update_wf [OF Cons.prems, of x] by blast
  show ?case using Cons.IH [OF t'] by (simp add: update_append [OF Cons.prems])
qed

end

interpretation b2b: blake2_algorithm blake2b_alg
  by unfold_locales (simp_all add: blake2b_alg_def)

interpretation b2s: blake2_algorithm blake2s_alg
  by unfold_locales (simp_all add: blake2s_alg_def)

lemma store_bytes_eq: "store_bytes n w = map (\<lambda>k. ucast (drop_bit (8 * k) w)) [0..<n]"
proof (induction n arbitrary: w)
  case (Suc n)
  have "map (\<lambda>k. ucast (drop_bit (8 * k) w) :: u8) [0..<Suc n]
    = ucast w # map (\<lambda>k. ucast (drop_bit (8 * Suc k) w)) [0..<n]"
    by (simp add: map_upt_Suc del: upt_Suc)
  then show ?case using Suc by (simp add: add.commute del: upt_Suc)
qed simp

lemma bit_byte:
  fixes w :: "'a::len word"
  assumes "i < LENGTH('a)"
  shows "bit (push_bit (8 * k) (ucast (ucast (drop_bit (8 * k) w) :: u8)) :: 'a word) i
    \<longleftrightarrow> i div 8 = k \<and> bit w i"
proof -
  have "i div 8 = k \<longleftrightarrow> 8 * k \<le> i \<and> i - 8 * k < 8" by linarith
  then show ?thesis
    using assms by (auto simp: bit_push_bit_iff bit_unsigned_iff bit_drop_bit_eq possible_bit_word)
qed

lemma load_store32: "load32 (store32 w) = w"
proof (rule bit_word_eqI)
  fix i assume i: "i < LENGTH(32)"
  have "bit (load32 (store32 w)) i \<longleftrightarrow> (\<exists>k \<in> {0, 1, 2, 3}. i div 8 = k \<and> bit w i)"
    using bit_byte [OF i, of 0 w] bit_byte [OF i, of 1 w] bit_byte [OF i, of 2 w] bit_byte [OF i, of 3 w]
    by (simp add: load32_def store32_def store_bytes_eq upt_rec bit_or_iff) blast
  moreover have "i div 8 \<in> {0, 1, 2, 3}" using i by auto
  ultimately show "bit (load32 (store32 w)) i = bit w i" by blast
qed

lemma load_store64: "load64 (store64 w) = w"
proof (rule bit_word_eqI)
  fix i assume i: "i < LENGTH(64)"
  have "bit (load64 (store64 w)) i \<longleftrightarrow> (\<exists>k \<in> {0, 1, 2, 3, 4, 5, 6, 7}. i div 8 = k \<and> bit w i)"
    using bit_byte [OF i, of 0 w] bit_byte [OF i, of 1 w] bit_byte [OF i, of 2 w] bit_byte [OF i, of 3 w]
      bit_byte [OF i, of 4 w] bit_byte [OF i, of 5 w] bit_byte [OF i, of 6 w] bit_byte [OF i, of 7 w]
    by (simp add: load64_def store64_def store_bytes_eq upt_rec bit_or_iff) blast
  moreover have "i div 8 \<in> {0, 1, 2, 3, 4, 5, 6, 7}" using i by auto
  ultimately show "bit (load64 (store64 w)) i = bit w i" by blast
qed

section \<open>Properties\<close>



text \<open>
  \<open>blake2s\<close> computes the hash function of RFC 7693 on 32 bit words.
\<close>

theorem blake2s_is_rfc7693:
  assumes "0 < outlen" "unat outlen \<le> 32" "unat keylen \<le> 32"
    and "keylen = 0 \<or> (\<exists>k. key = Some k \<and> unat keylen \<le> length k)"
  shows "blake2s inp key outlen keylen = Some (take (unat outlen) (concat (map store32
    (rfc7693 blake2s_alg False (rfc_h0 blake2s_alg outlen keylen) 0 (rfc_data blake2s_alg key keylen inp)))))"
  using b2s.blake2_rfc [of outlen keylen key inp] assms blake2s_h0 [of outlen keylen]
  by (simp add: blake2s_def bad_outlen_def digest_def blake2s_alg_def)

theorem blake2s_is_rfc7693_witness:
  "blake2s [1, 2, 3] None 32 0 = Some (take 32 (concat (map store32
    (rfc7693 blake2s_alg False (rfc_h0 blake2s_alg 32 0) 0 [1, 2, 3]))))"
proof -
  have "rfc_data blake2s_alg None 0 [1, 2, 3] = [1, 2, 3]"
    by (simp add: rfc_data_def)
  then show ?thesis using blake2s_is_rfc7693 [of 32 0 None "[1, 2, 3]"] by simp
qed

text \<open>The bytes of a message that belong to leaf \<open>i\<close>: every \<open>deg\<close>-th block of \<open>b\<close> bytes.\<close>

definition lane :: "nat \<Rightarrow> nat \<Rightarrow> nat \<Rightarrow> u8 list \<Rightarrow> u8 list" where
  "lane deg b i xs = nths xs {p. p div b mod deg = i}"

definition stripes :: "nat \<Rightarrow> u8 list \<Rightarrow> u8 list" where
  "stripes w xs = take (length xs - length xs mod w) xs"

definition remainder :: "nat \<Rightarrow> u8 list \<Rightarrow> u8 list" where
  "remainder w xs = drop (length xs - length xs mod w) xs"

lemma nths_interval: "nths xs {p. m \<le> p \<and> p < m + n} = take n (drop m xs)"
proof (cases "m \<le> length xs")
  case True
  have "nths (take m xs @ drop m xs) {p. m \<le> p \<and> p < m + n}
    = nths (take m xs) {p. m \<le> p \<and> p < m + n} @ nths (drop m xs) {..<n}"
    using True by (simp only: nths_append) (simp add: lessThan_def add.commute)
  moreover have "nths (take m xs) {p. m \<le> p \<and> p < m + n} = []"
    by (auto simp: nths_def filter_empty_conv in_set_zip)
  ultimately show ?thesis by (simp add: nths_upt_eq_take)
next
  case False
  then have "nths xs {p. m \<le> p \<and> p < m + n} = []"
    by (auto simp: nths_def filter_empty_conv in_set_zip)
  then show ?thesis using False by simp
qed

lemma nths_cong_length:
  "(\<And>p. p < length xs \<Longrightarrow> p \<in> I \<longleftrightarrow> p \<in> J) \<Longrightarrow> nths xs I = nths xs J"
  unfolding nths_def by (rule arg_cong [of _ _ "map fst"], rule filter_cong) (auto simp: in_set_zip)

lemma lane_append:
  assumes "deg * b dvd length xs" "0 < b"
  shows "lane deg b i (xs @ ys) = lane deg b i xs @ lane deg b i ys"
proof -
  obtain k where k: "length xs = deg * b * k" using assms(1) by blast
  have "(j + length xs) div b mod deg = j div b mod deg" for j
  proof -
    have "(j + length xs) div b = j div b + deg * k"
      using assms(2) k by (simp add: mult.assoc mult.left_commute [of deg b])
    then show ?thesis by simp
  qed
  then show ?thesis by (simp add: lane_def nths_append)
qed

lemma lane_short:
  assumes "length xs \<le> deg * b" "0 < b" "i < deg"
  shows "lane deg b i xs = take b (drop (i * b) xs)"
proof -
  have "p div b mod deg = i \<longleftrightarrow> i * b \<le> p \<and> p < i * b + b" if "p < length xs" for p
  proof -
    have "p div b < deg" using that assms by (simp add: div_less_iff_less_mult)
    then have "p div b mod deg = i \<longleftrightarrow> p div b = i" by simp
    also have "\<dots> \<longleftrightarrow> i * b \<le> p \<and> p < i * b + b"
    proof -
      have "p div b = i \<longleftrightarrow> i \<le> p div b \<and> p div b < Suc i" by auto
      then show ?thesis
        using assms(2) by (simp add: less_eq_div_iff_mult_less_eq div_less_iff_less_mult add.commute)
    qed
    finally show ?thesis .
  qed
  then have "lane deg b i xs = nths xs {p. i * b \<le> p \<and> p < i * b + b}"
    unfolding lane_def by (intro nths_cong_length) simp
  then show ?thesis by (simp add: nths_interval)
qed

lemma stripes_remainder: "stripes w xs @ remainder w xs = xs"
  by (simp add: stripes_def remainder_def)

lemma stripes_dvd: "w dvd length (stripes w xs)"
  by (simp add: stripes_def dvd_minus_mod)

lemma length_remainder: "length (remainder w xs) = length xs mod w"
  by (simp add: remainder_def)

lemma stripes_unique:
  assumes "w dvd length a" "length b < w"
  shows "stripes w (a @ b) = a" "remainder w (a @ b) = b"
proof -
  have "length (a @ b) mod w = length b"
    using assms by (auto elim!: dvdE)
  then show "stripes w (a @ b) = a" "remainder w (a @ b) = b"
    by (simp_all add: stripes_def remainder_def)
qed

locale blake2_tree = blake2_algorithm A for A :: "'a::len word alg" +
  fixes deg :: nat
  assumes deg_pos: "0 < deg"
    and out_size: "OUTBYTES A = 8 * WORDBYTES A" "0 < OUTBYTES A" "OUTBYTES A < 256"
    and store_length: "length (STORE A w) = WORDBYTES A"
begin

lemma width_pos: "0 < deg * BLOCKBYTES A"
  using deg_pos block_pos by simp

lemma lane_loop_eq:
  "(\<exists>t. wf_state A t S) \<Longrightarrow> i < deg \<Longrightarrow>
   lane_loop A deg S (drop (i * BLOCKBYTES A) inp) (length inp)
   = (update A S (lane deg (BLOCKBYTES A) i (stripes (deg * BLOCKBYTES A) inp)),
      drop (i * BLOCKBYTES A) (remainder (deg * BLOCKBYTES A) inp), length inp mod (deg * BLOCKBYTES A))"
proof (induction "length inp" arbitrary: S inp rule: less_induct)
  case less
  let ?B = "BLOCKBYTES A" and ?W = "deg * BLOCKBYTES A"
  show ?case
  proof (cases "?W \<le> length inp")
    case True
    let ?a = "take ?W inp" and ?r = "drop ?W inp"
    have lt: "length ?r < length inp" using True width_pos by (simp del: nat_0_less_mult_iff)
    obtain t where t: "wf_state A t S" using less.prems by blast
    have s: "stripes ?W inp = ?a @ stripes ?W ?r" "remainder ?W inp = remainder ?W ?r"
    proof -
      have "?W dvd length (?a @ stripes ?W ?r)"
        using True stripes_dvd [of ?W ?r] by (simp add: min_absorb2)
      moreover have "length (remainder ?W ?r) < ?W" using width_pos by (simp add: length_remainder)
      ultimately have "stripes ?W ((?a @ stripes ?W ?r) @ remainder ?W ?r) = ?a @ stripes ?W ?r"
        "remainder ?W ((?a @ stripes ?W ?r) @ remainder ?W ?r) = remainder ?W ?r"
        by (rule stripes_unique)+
      moreover have "(?a @ stripes ?W ?r) @ remainder ?W ?r = inp" by (simp add: stripes_remainder)
      ultimately show "stripes ?W inp = ?a @ stripes ?W ?r" "remainder ?W inp = remainder ?W ?r"
        by simp_all
    qed
    have blk: "take ?B (drop (i * ?B) inp) = lane deg ?B i ?a"
    proof -
      have le: "?B \<le> ?W - i * ?B"
      proof -
        have "i * ?B + ?B \<le> ?W" using mult_le_mono1 [of "Suc i" deg ?B] less.prems(2) by simp
        then show ?thesis by simp
      qed
      have "lane deg ?B i ?a = take ?B (drop (i * ?B) ?a)"
        using less.prems(2) block_pos by (intro lane_short) simp_all
      then show ?thesis using le by (simp add: drop_take min_absorb1)
    qed
    have "lane_loop A deg S (drop (i * ?B) inp) (length inp)
      = lane_loop A deg (update A S (lane deg ?B i ?a)) (drop (i * ?B) ?r) (length ?r)"
      using True width_pos by (subst lane_loop.simps) (simp add: blk add.commute)
    also have "\<dots> = (update A (update A S (lane deg ?B i ?a)) (lane deg ?B i (stripes ?W ?r)),
       drop (i * ?B) (remainder ?W ?r), length ?r mod ?W)"
      by (rule less.hyps [OF lt update_wf [OF t] less.prems(2)])
    also have "update A (update A S (lane deg ?B i ?a)) (lane deg ?B i (stripes ?W ?r))
        = update A S (lane deg ?B i (stripes ?W inp))"
      using True by (simp add: s lane_append block_pos update_append [OF t] min_absorb2)
    also have "length ?r mod ?W = length inp mod ?W"
      using True by (simp add: le_mod_geq)
    finally show ?thesis by (simp add: s)
  next
    case False
    then have "stripes ?W inp = []" "remainder ?W inp = inp"
      by (simp_all add: stripes_def remainder_def)
    then show ?thesis using False by (subst lane_loop.simps) (simp add: lane_def)
  qed
qed

lemma leaf_all_eq:
  assumes wf: "\<exists>t. wf_state A t S" and i: "i < deg"
  shows "leaf_all A deg S i inp = update A S (lane deg (BLOCKBYTES A) i inp)"
proof -
  let ?B = "BLOCKBYTES A" and ?W = "deg * BLOCKBYTES A"
  let ?r = "remainder ?W inp" and ?U = "update A S (lane deg ?B i (stripes ?W inp))"
  obtain t where t: "wf_state A t S" using wf by blast
  have lr: "length ?r = length inp mod ?W" "length ?r \<le> ?W"
    using width_pos by (simp_all add: length_remainder less_imp_le)
  have "leaf_all A deg S i inp = update A ?U (take ?B (drop (i * ?B) ?r))"
    using lr(1) by (auto simp: leaf_all_def lane_loop_eq [OF wf i] Let_def)
  also have "take ?B (drop (i * ?B) ?r) = lane deg ?B i ?r"
    using lr(2) block_pos i by (rule lane_short [symmetric])
  also have "update A ?U (lane deg ?B i ?r) = update A S (lane deg ?B i (stripes ?W inp @ ?r))"
    by (simp add: lane_append [OF stripes_dvd block_pos] update_append [OF t])
  finally show ?thesis by (simp add: stripes_remainder)
qed

text \<open>A parallel state that has taken the message \<open>M\<close> into leaves that started as \<open>S0\<close>.\<close>

definition taken :: "(nat \<Rightarrow> 'a word state) \<Rightarrow> u8 list \<Rightarrow> 'a word pstate \<Rightarrow> bool" where
  "taken S0 M P =
     (length (p_buf P) = deg * BLOCKBYTES A \<and>
      p_buflen P = length (remainder (deg * BLOCKBYTES A) M) \<and>
      take (p_buflen P) (p_buf P) = remainder (deg * BLOCKBYTES A) M \<and>
      (\<forall>i < deg. p_S P ! i = update A (S0 i) (lane deg (BLOCKBYTES A) i (stripes (deg * BLOCKBYTES A) M))))"

end

context blake2_tree
begin

lemma par_stripes_taken:
  assumes S0: "\<And>i. i < deg \<Longrightarrow> \<exists>t. wf_state A t (S0 i)"
    and M1: "deg * BLOCKBYTES A dvd length M1"
    and leaves: "\<And>i. i < deg \<Longrightarrow> p_S P ! i = update A (S0 i) (lane deg (BLOCKBYTES A) i M1)"
    and buf: "length (p_buf P) = deg * BLOCKBYTES A" "take (length pend) (p_buf P) = pend"
    and small: "pend = [] \<or> length pend + length inp < deg * BLOCKBYTES A"
  shows "taken S0 (M1 @ pend @ inp) (par_stripes A deg P inp (length pend))"
proof -
  let ?B = "BLOCKBYTES A" and ?W = "deg * BLOCKBYTES A"
  let ?s = "stripes ?W inp" and ?r = "remainder ?W inp"
  let ?Q = "par_stripes A deg P inp (length pend)"
  have lr: "length ?r = length inp mod ?W" "length ?r < ?W"
    using width_pos by (simp_all add: length_remainder)
  have eq: "(M1 @ ?s) @ (pend @ ?r) = M1 @ pend @ inp"
  proof (cases "pend = []")
    case True
    then show ?thesis by (simp add: stripes_remainder)
  next
    case False
    then have "?s = []" "?r = inp" using small by (simp_all add: stripes_def remainder_def)
    then show ?thesis by simp
  qed
  have d: "?W dvd length (M1 @ ?s)" using M1 stripes_dvd [of ?W inp] by simp
  have l: "length (pend @ ?r) < ?W"
  proof -
    have "length ?r \<le> length inp" using lr(1) by simp
    then show ?thesis using small lr(2) by auto
  qed
  note un = stripes_unique [OF d l, unfolded eq]
  have "p_S ?Q ! i = update A (S0 i) (lane deg ?B i (M1 @ ?s))" if i: "i < deg" for i
  proof -
    obtain t where t: "wf_state A t (S0 i)" using S0 [OF i] by blast
    have "p_S ?Q ! i = update A (p_S P ! i) (lane deg ?B i ?s)"
      using i by (simp add: par_stripes_def Let_def lane_loop_eq leaves update_wf [OF t])
    then show ?thesis
      using i by (simp add: leaves lane_append [OF M1 block_pos] update_append [OF t])
  qed
  moreover have "length (p_buf ?Q) = ?W"
    using buf(1) l lr(1) by (simp add: par_stripes_def Let_def length_blit)
  moreover have "p_buflen ?Q = length (pend @ ?r)"
    using lr(1) by (simp add: par_stripes_def Let_def)
  moreover have "take (p_buflen ?Q) (p_buf ?Q) = pend @ ?r"
  proof -
    have "?r = drop (length inp - length inp mod ?W) inp" by (simp add: remainder_def)
    then show ?thesis
      using buf l lr take_blit [of "length pend" "p_buf P" ?r]
      by (auto simp: par_stripes_def Let_def)
  qed
  ultimately show ?thesis unfolding taken_def un by simp
qed

lemma par_update_taken:
  assumes S0: "\<And>i. i < deg \<Longrightarrow> \<exists>t. wf_state A t (S0 i)"
    and P: "taken S0 M P"
  shows "taken S0 (M @ x) (par_update A deg P x)"
proof -
  let ?B = "BLOCKBYTES A" and ?W = "deg * BLOCKBYTES A"
  let ?s = "stripes ?W M" and ?r = "remainder ?W M"
  have buf: "length (p_buf P) = ?W" "p_buflen P = length ?r" "take (length ?r) (p_buf P) = ?r"
    and leaves: "\<And>i. i < deg \<Longrightarrow> p_S P ! i = update A (S0 i) (lane deg ?B i ?s)"
    using P by (auto simp: taken_def)
  have lr: "length ?r < ?W" using width_pos by (simp add: length_remainder)
  have M: "M = ?s @ ?r" by (simp add: stripes_remainder)
  show ?thesis
  proof (cases "?r \<noteq> [] \<and> ?W - length ?r \<le> length x")
    case False
    then have "par_fill A deg P x = (P, x, length ?r)" using buf by (auto simp: par_fill_def Let_def)
    moreover have "?r = [] \<or> length ?r + length x < ?W" using False lr by auto
    ultimately show ?thesis
      using par_stripes_taken [OF S0 stripes_dvd leaves buf(1,3), of x]
      by (simp add: par_update_def stripes_remainder flip: append.assoc)
  next
    case True
    let ?fill = "?W - length ?r"
    define b where "b = ?r @ take ?fill x"
    have b: "blit (p_buf P) (length ?r) (take ?fill x) = b"
      using buf True by (simp add: b_def blit_def min_absorb2)
    have lb: "length b = ?W" using True lr by (simp add: b_def)
    have split: "(?s @ b) @ drop ?fill x = M @ x"
      using stripes_remainder [of ?W M] by (metis b_def append.assoc append_take_drop_id)
    let ?P = "P\<lparr>p_buf := b, p_S := map (\<lambda>i. update A (p_S P ! i) (take ?B (drop (i * ?B) b))) [0..<deg]\<rparr>"
    have fill: "par_fill A deg P x = (?P, drop ?fill x, 0)"
      using buf True b by (simp add: par_fill_def Let_def)
    have leaves': "p_S ?P ! i = update A (S0 i) (lane deg ?B i (?s @ b))" if i: "i < deg" for i
    proof -
      obtain t where t: "wf_state A t (S0 i)" using S0 [OF i] by blast
      have "take ?B (drop (i * ?B) b) = lane deg ?B i b"
        using lb block_pos i by (intro lane_short [symmetric]) simp_all
      then show ?thesis
        using i by (simp add: leaves lane_append [OF stripes_dvd block_pos] update_append [OF t])
    qed
    have "?W dvd length (?s @ b)" using stripes_dvd [of ?W M] lb by simp
    from par_stripes_taken [OF S0 this leaves', of "[]" "drop ?fill x"]
    have "taken S0 ((?s @ b) @ drop ?fill x) (par_stripes A deg ?P (drop ?fill x) 0)"
      using lb by simp
    then show ?thesis by (simp only: par_update_def fill split prod.case)
  qed
qed

lemma par_updates_taken:
  assumes S0: "\<And>i. i < deg \<Longrightarrow> \<exists>t. wf_state A t (S0 i)" and P: "taken S0 M P"
  shows "taken S0 (M @ concat xs) (fold (\<lambda>x P. par_update A deg P x) xs P)"
  using P
proof (induction xs arbitrary: M P)
  case (Cons x xs)
  from Cons.IH [OF par_update_taken [OF S0 Cons.prems, of x]] show ?case by simp
qed simp

lemma par_final_eq:
  assumes S0: "\<And>i. i < deg \<Longrightarrow> \<exists>t. wf_state A t (S0 i)" and P: "taken S0 M P"
  shows "par_final A deg P outlen
    = par_root A (p_R P) (map (\<lambda>i. update A (S0 i) (lane deg (BLOCKBYTES A) i M)) [0..<deg]) outlen"
proof -
  let ?B = "BLOCKBYTES A" and ?W = "deg * BLOCKBYTES A"
  let ?s = "stripes ?W M" and ?r = "remainder ?W M"
  have buf: "length (p_buf P) = ?W" "p_buflen P = length ?r" "take (length ?r) (p_buf P) = ?r"
    and leaves: "\<And>i. i < deg \<Longrightarrow> p_S P ! i = update A (S0 i) (lane deg ?B i ?s)"
    using P by (auto simp: taken_def)
  have lr: "length ?r \<le> ?W" using width_pos by (simp add: length_remainder less_imp_le)
  have "(if i * ?B < p_buflen P then
           (let left = p_buflen P - i * ?B; left = (if ?B < left then ?B else left)
            in update A (p_S P ! i) (take left (drop (i * ?B) (p_buf P))))
         else p_S P ! i) = update A (S0 i) (lane deg ?B i M)" if i: "i < deg" for i
  proof -
    obtain t where t: "wf_state A t (S0 i)" using S0 [OF i] by blast
    have "update A (S0 i) (lane deg ?B i M) = update A (p_S P ! i) (take ?B (drop (i * ?B) ?r))"
      using lane_append [where xs = ?s and deg = deg and i = i and ys = ?r, OF stripes_dvd block_pos] lane_short [OF lr block_pos i]
      by (simp add: stripes_remainder leaves [OF i] update_append [OF t])
    moreover have "take ?B (drop (i * ?B) ?r) = take (min ?B (length ?r - i * ?B)) (drop (i * ?B) (p_buf P))"
      by (subst buf(3) [symmetric]) (simp add: drop_take)
    ultimately show ?thesis
      using buf(2) by (auto simp: Let_def min_def)
  qed
  then show ?thesis unfolding par_final_def by (intro arg_cong2 [where f = "\<lambda>S. par_root A (p_R P) S"]) simp_all
qed

end

text \<open>The state that a keyed or unkeyed parallel hash starts from.\<close>

definition par_start ::
    "'a::len word alg \<Rightarrow> nat \<Rightarrow> u8 \<Rightarrow> u8 list option \<Rightarrow> u8 \<Rightarrow> 'a word pstate option" where
  "par_start A deg outlen key keylen =
     (if keylen = 0 then par_init A deg outlen else par_init_key A deg outlen key keylen)"

definition key_bytes :: "'a::len word alg \<Rightarrow> u8 list option \<Rightarrow> u8 \<Rightarrow> u8 list" where
  "key_bytes A key keylen = (if keylen = 0 then [] else key_block A (the key) keylen)"

text \<open>
  The tree of the specification: the digests of the leaves, over the key block and the leaf's
  part of the message, are the message of the root.
\<close>

definition leaf_h0 :: "'a::len word alg \<Rightarrow> nat \<Rightarrow> u8 \<Rightarrow> u8 \<Rightarrow> nat \<Rightarrow> 'a word list" where
  "leaf_h0 A deg outlen keylen i = b_h (init_leaf A deg outlen keylen i)"

definition tree_hash :: "'a::len word alg \<Rightarrow> nat \<Rightarrow> u8 \<Rightarrow> u8 \<Rightarrow> u8 list \<Rightarrow> u8 list \<Rightarrow> u8 list" where
  "tree_hash A deg outlen keylen kb inp =
     digest A (rfc7693 A True (b_h (init_root A deg outlen keylen)) 0
       (concat (map (\<lambda>i. digest A (rfc7693 A (i = deg - 1) (leaf_h0 A deg outlen keylen i) 0
                       (kb @ lane deg (BLOCKBYTES A) i inp))) [0..<deg])))"

lemma length_rfc7693: "length (rfc7693 A node h t d) = 8"
  by (induction A node h t d rule: rfc7693.induct)
    (subst rfc7693.simps, auto simp: F_def compress_def Let_def)

lemma wf_last_node: "wf_state A t (S\<lparr>b_last_node := b\<rparr>) = wf_state A t S"
  by (simp add: wf_state_def)

lemma pending_last_node: "pending (S\<lparr>b_last_node := b\<rparr>) = pending S"
  by (simp add: pending_def)

context blake2_tree
begin

lemma init_leaves_nth:
  assumes "i < deg"
  shows "init_leaves A deg outlen keylen ! i = (init_leaf A deg outlen keylen i)\<lparr>b_last_node := (i = deg - 1)\<rparr>"
proof -
  have nl: "S\<lparr>b_last_node := False\<rparr> = S" if "\<not> b_last_node S" for S :: "'a word state"
    using that by simp
  show ?thesis
    using assms deg_pos nl [OF init_param_wf(3), of A] by (simp add: init_leaves_def init_leaf_def Let_def nth_list_update)
qed

lemma length_init_leaves: "length (init_leaves A deg outlen keylen) = deg"
  by (simp add: init_leaves_def Let_def)

definition start_leaf :: "u8 \<Rightarrow> u8 list option \<Rightarrow> u8 \<Rightarrow> nat \<Rightarrow> 'a word state" where
  "start_leaf outlen key keylen i =
     update A ((init_leaf A deg outlen keylen i)\<lparr>b_last_node := (i = deg - 1)\<rparr>) (key_bytes A key keylen)"

lemma leaf_wf: "wf_state A 0 ((init_leaf A deg outlen keylen i)\<lparr>b_last_node := b\<rparr>)"
  by (simp add: wf_last_node init_leaf_def init_param_wf)

lemma start_leaf_wf: "\<exists>t. wf_state A t (start_leaf outlen key keylen i)"
  unfolding start_leaf_def by (rule update_wf [OF leaf_wf])

lemma par_start_taken:
  assumes "par_start A deg outlen key keylen = Some P"
  shows "taken (start_leaf outlen key keylen) [] P" "p_R P = (init_root A deg outlen keylen)\<lparr>b_last_node := True\<rparr>"
    "\<not> bad_outlen A outlen" "unat keylen \<le> KEYBYTES A" "key = None \<longrightarrow> keylen = 0"
proof -
  have e: "remainder w [] = []" "stripes w [] = []" "lane deg b i [] = []" for w b i
    by (simp_all add: remainder_def stripes_def lane_def)
  show "taken (start_leaf outlen key keylen) [] P"
    using assms
    by (auto simp: par_start_def par_init_def par_init_key_def taken_def e init_leaves_nth
        length_init_leaves start_leaf_def key_bytes_def split: if_splits)
  show "p_R P = (init_root A deg outlen keylen)\<lparr>b_last_node := True\<rparr>"
    "\<not> bad_outlen A outlen" "unat keylen \<le> KEYBYTES A" "key = None \<longrightarrow> keylen = 0"
    using assms by (auto simp: par_start_def par_init_def par_init_key_def split: if_splits)
qed

lemma par_hash_eq:
  assumes "\<not> bad_outlen A outlen" "unat keylen \<le> KEYBYTES A" "key = None \<longrightarrow> keylen = 0"
  shows "par_hash A deg inp key outlen keylen
    = par_root A ((init_root A deg outlen keylen)\<lparr>b_last_node := True\<rparr>)
        (map (\<lambda>i. update A (start_leaf outlen key keylen i) (lane deg (BLOCKBYTES A) i inp)) [0..<deg]) outlen"
proof -
  have z: "0 < keylen \<longleftrightarrow> keylen \<noteq> 0" by (simp add: word_neq_0_conv)
  let ?S = "init_leaves A deg outlen keylen"
  let ?T = "if 0 < keylen then map (\<lambda>s. update A s (key_block A (the key) keylen)) ?S else ?S"
  have "?T ! i = start_leaf outlen key keylen i" if "i < deg" for i
    using that by (simp add: z init_leaves_nth length_init_leaves start_leaf_def key_bytes_def)
  then have leaves: "map (\<lambda>i. leaf_all A deg (?T ! i) i inp) [0..<deg]
    = map (\<lambda>i. update A (start_leaf outlen key keylen i) (lane deg (BLOCKBYTES A) i inp)) [0..<deg]"
    by (auto simp: leaf_all_eq [OF start_leaf_wf])
  have g: "\<not> (key = None \<and> 0 < keylen)" "\<not> KEYBYTES A < unat keylen" using assms z by auto
  show ?thesis by (simp only: par_hash_def Let_def g assms(1) if_False leaves)
qed

lemma par_stream:
  assumes "par_start A deg outlen key keylen = Some P"
  shows "par_final A deg (fold (\<lambda>x P. par_update A deg P x) xs P) outlen
    = par_hash A deg (concat xs) key outlen keylen"
proof -
  note st = par_start_taken [OF assms]
  have R: "p_R (fold (\<lambda>x P. par_update A deg P x) xs Q) = p_R Q" for Q
    by (induction xs arbitrary: Q)
      (auto simp: par_update_def par_fill_def par_stripes_def Let_def)
  have T: "taken (start_leaf outlen key keylen) (concat xs) (fold (\<lambda>x P. par_update A deg P x) xs P)"
    using par_updates_taken [OF start_leaf_wf st(1), of xs] by simp
  show ?thesis
    using par_final_eq [OF start_leaf_wf T] par_hash_eq [OF st(3-5)] st(2) by (simp add: R)
qed

lemma digest_length: "length (digest A (rfc7693 A node h t d)) = OUTBYTES A"
  by (simp add: digest_def length_concat comp_def store_length length_rfc7693 out_size sum_list_triv)

lemma par_hash_tree:
  assumes ok: "\<not> bad_outlen A outlen" "unat keylen \<le> KEYBYTES A" "key = None \<longrightarrow> keylen = 0"
  shows "par_hash A deg inp key outlen keylen
    = Some (take (unat outlen) (tree_hash A deg outlen keylen (key_bytes A key keylen) inp))"
proof -
  let ?d = "\<lambda>i. digest A (rfc7693 A (i = deg - 1) (leaf_h0 A deg outlen keylen i) 0
                       (key_bytes A key keylen @ lane deg (BLOCKBYTES A) i inp))"
  let ?R = "(init_root A deg outlen keylen)\<lparr>b_last_node := True\<rparr>"
  have ob: "unat (of_nat (OUTBYTES A) :: u8) = OUTBYTES A" "\<not> bad_outlen A (of_nat (OUTBYTES A))"
  proof -
    show "unat (of_nat (OUTBYTES A) :: u8) = OUTBYTES A" using out_size by (intro unat_of_nat_u8) simp
    then show "\<not> bad_outlen A (of_nat (OUTBYTES A))" using out_size by (auto simp: bad_outlen_def)
  qed
  have leaf: "final A (update A (start_leaf outlen key keylen i) (lane deg (BLOCKBYTES A) i inp))
      (of_nat (OUTBYTES A)) = Some (?d i)" for i
  proof -
    let ?L = "(init_leaf A deg outlen keylen i)\<lparr>b_last_node := (i = deg - 1)\<rparr>"
    have "update A (start_leaf outlen key keylen i) (lane deg (BLOCKBYTES A) i inp)
        = update A ?L (key_bytes A key keylen @ lane deg (BLOCKBYTES A) i inp)"
      by (simp only: start_leaf_def update_append [OF leaf_wf])
    then show ?thesis
      by (simp only: final_update [OF leaf_wf ob(2)])
        (simp add: ob(1) digest_length pending_last_node init_leaf_def init_param_wf leaf_h0_def)
  qed
  have "those (map (\<lambda>s. final A s (of_nat (OUTBYTES A)))
      (map (\<lambda>i. update A (start_leaf outlen key keylen i) (lane deg (BLOCKBYTES A) i inp)) [0..<deg]))
    = Some (map ?d [0..<deg])"
    by (simp add: leaf comp_def those_map_Some)
  moreover have wf: "wf_state A 0 ?R" "pending ?R = []"
    by (simp_all add: wf_last_node pending_last_node init_root_def init_param_wf)
  ultimately show ?thesis
    using final_update [OF wf(1) ok(1)]
    by (simp add: par_hash_eq [OF ok] par_root_def update_pieces [OF wf(1)] wf(2) tree_hash_def)
qed

end

interpretation b2bp: blake2_tree blake2b_alg 4
  by unfold_locales (simp_all add: blake2b_alg_def store64_def store_bytes_eq)

interpretation b2sp: blake2_tree blake2s_alg 8
  by unfold_locales (simp_all add: blake2s_alg_def store32_def store_bytes_eq)

text \<open>
  C6. The parallel hash may be fed in pieces: starting, updating with any pieces and finishing
  gives what the one-shot function gives on their concatenation, for \<open>blake2bp\<close> and \<open>blake2sp\<close>.
\<close>

theorem parallel_streaming_is_oneshot:
  "(\<forall>P. par_start blake2b_alg 4 outlen key keylen = Some P \<longrightarrow>
      blake2bp_final (fold (\<lambda>x P. blake2bp_update P x) xs P) outlen = blake2bp (concat xs) key outlen keylen) \<and>
   (\<forall>P. par_start blake2s_alg 8 outlen key keylen = Some P \<longrightarrow>
      blake2sp_final (fold (\<lambda>x P. blake2sp_update P x) xs P) outlen = blake2sp (concat xs) key outlen keylen)"
  unfolding blake2bp_final_def blake2bp_update_def blake2bp_def blake2sp_final_def blake2sp_update_def
    blake2sp_def
  using b2bp.par_stream b2sp.par_stream by blast

theorem parallel_streaming_is_oneshot_witness:
  "blake2bp_final (blake2bp_update (blake2bp_update (the (blake2bp_init 64)) [1, 2]) [3]) 64
     = blake2bp [1, 2, 3] None 64 0"
proof -
  have "par_start blake2b_alg 4 64 None 0 = Some (the (blake2bp_init 64))"
    by (simp add: par_start_def par_init_def blake2bp_init_def bad_outlen_def blake2b_alg_def)
  then show ?thesis
    using conjunct1 [OF parallel_streaming_is_oneshot [of 64 None 0 "[[1, 2], [3]]"]] by simp
qed



text \<open>
  C38. A sequential hash may be fed in pieces: the digest is that of their concatenation, for
  \<open>blake2b\<close> and \<open>blake2s\<close>.
\<close>

theorem sequential_streaming:
  "(\<forall>S. blake2b_init outlen = Some S \<longrightarrow>
      blake2b_final (fold (\<lambda>x S. blake2b_update S x) xs S) outlen = blake2b (concat xs) None outlen 0) \<and>
   (\<forall>S. blake2s_init outlen = Some S \<longrightarrow>
      blake2s_final (fold (\<lambda>x S. blake2s_update S x) xs S) outlen = blake2s (concat xs) None outlen 0)"
  by (auto simp: blake2b_init_def blake2b_final_def blake2b_update_def blake2b_def
      blake2s_init_def blake2s_final_def blake2s_update_def blake2s_def init_def blake2_def
      b2b.update_pieces [OF init_param_wf(1)] b2s.update_pieces [OF init_param_wf(1)] split: if_splits)

theorem sequential_streaming_witness:
  "blake2s_final (blake2s_update (blake2s_update (the (blake2s_init 32)) [1, 2]) [3]) 32
     = blake2s [1, 2, 3] None 32 0"
proof -
  have "blake2s_init 32 = Some (the (blake2s_init 32))"
    by (simp add: blake2s_init_def init_def bad_outlen_def blake2s_alg_def)
  then show ?thesis
    using conjunct2 [OF sequential_streaming [of 32 "[[1, 2], [3]]"]] by simp
qed

text \<open>
  Storing a word as bytes and loading it again gives the word, for both word sizes.
\<close>

theorem load_store_words: "load64 (store64 w) = w \<and> load32 (store32 v) = v"
  by (simp add: load_store64 load_store32)

end
