(* ===== verification/FastLZ.thy ===== *)
theory FastLZ
  imports Prelude
begin

text \<open>
  The block codec of \<open>archivers/fastlz/fastlz.c\<close>. The source compiles one body twice, for level 1
  and level 2; here the level is a parameter. Buffers are byte lists, pointers are offsets into
  them, and \<open>*op++ = b\<close> appends to the output. A read outside a buffer is \<open>None\<close> (or \<open>Overread\<close> and
  \<open>Wild\<close> in the decompressor). The byte behind the input buffer is a parameter \<open>past\<close>:
  \<open>None\<close> if reading it is undefined, \<open>Some b\<close> if the memory there is readable and holds \<open>b\<close>.
\<close>

section \<open>Definitions\<close>

datatype level = Level1 | Level2

definition MAX_COPY :: nat where
  "MAX_COPY = 32"

definition MAX_LEN :: nat where
  "MAX_LEN = 264"

fun MAX_DISTANCE :: "level \<Rightarrow> nat" where
  "MAX_DISTANCE Level1 = 8192"
| "MAX_DISTANCE Level2 = 8191"

definition MAX_FARDISTANCE :: nat where
  "MAX_FARDISTANCE = 65535 + MAX_DISTANCE Level2 - 1"

definition HASH_LOG :: nat where
  "HASH_LOG = 13"

definition HASH_MASK :: u32 where
  "HASH_MASK = push_bit HASH_LOG 1 - 1"

subsection \<open>Compressor\<close>

definition peek :: "u8 list \<Rightarrow> u8 option \<Rightarrow> nat \<Rightarrow> u8 option" where
  "peek inp past i =
     (if i < length inp then Some (inp ! i) else if i = length inp then past else None)"

definition READU16 :: "u8 list \<Rightarrow> u8 option \<Rightarrow> nat \<Rightarrow> u32 option" where
  "READU16 inp past p =
     do {
       a \<leftarrow> peek inp past p;
       b \<leftarrow> peek inp past (p + 1);
       Some (ucast a OR push_bit 8 (ucast b))
     }"

definition HASH_FUNCTION :: "u8 list \<Rightarrow> u8 option \<Rightarrow> nat \<Rightarrow> u32 option" where
  "HASH_FUNCTION inp past p =
     do {
       v \<leftarrow> READU16 inp past p;
       w \<leftarrow> READU16 inp past (p + 1);
       Some ((v XOR (w XOR drop_bit (16 - HASH_LOG) v)) AND HASH_MASK)
     }"

type_synonym htab = "u32 \<Rightarrow> nat"

record enc =
  e_ip :: nat
  e_op :: "u8 list"
  e_htab :: htab
  e_copy :: nat

text \<open>The chain \<open>*ref++ != *ip++ || ...\<close> over \<open>k\<close> bytes: do all of them agree?\<close>

fun same_bytes :: "u8 list \<Rightarrow> nat \<Rightarrow> nat \<Rightarrow> nat \<Rightarrow> bool option" where
  "same_bytes inp 0 ref ip = Some True"
| "same_bytes inp (Suc k) ref ip =
     do {
       a \<leftarrow> rd inp ref;
       b \<leftarrow> rd inp ip;
       if a \<noteq> b then Some False else same_bytes inp k (ref + 1) (ip + 1)
     }"

text \<open>\<open>while(ip < ip_bound) if(*ref++ != x) break; else ip++;\<close>\<close>

function run_scan :: "u8 list \<Rightarrow> u8 \<Rightarrow> nat \<Rightarrow> nat \<Rightarrow> nat \<Rightarrow> nat option" where
  "run_scan inp x bound ref ip =
     (if ip < bound then
        do {
          b \<leftarrow> rd inp ref;
          if b \<noteq> x then Some ip else run_scan inp x bound (ref + 1) (ip + 1)
        }
      else Some ip)"
  by pat_completeness auto
termination
  by (relation "measure (\<lambda>(inp, x, bound, ref, ip). bound - ip)") auto

text \<open>\<open>while(ip < ip_bound) if(*ref++ != *ip++) break;\<close>\<close>

function match_scan :: "u8 list \<Rightarrow> nat \<Rightarrow> nat \<Rightarrow> nat \<Rightarrow> nat option" where
  "match_scan inp bound ref ip =
     (if ip < bound then
        do {
          a \<leftarrow> rd inp ref;
          b \<leftarrow> rd inp ip;
          if a \<noteq> b then Some (ip + 1) else match_scan inp bound (ref + 1) (ip + 1)
        }
      else Some ip)"
  by pat_completeness auto
termination
  by (relation "measure (\<lambda>(inp, bound, ref, ip). bound - ip)") auto

text \<open>The unrolled comparisons (eight of them in the source, without a bound check) before that loop.\<close>

fun match_unrolled :: "u8 list \<Rightarrow> nat \<Rightarrow> nat \<Rightarrow> nat \<Rightarrow> nat \<Rightarrow> nat option" where
  "match_unrolled inp bound 0 ref ip = match_scan inp bound ref ip"
| "match_unrolled inp bound (Suc k) ref ip =
     do {
       a \<leftarrow> rd inp ref;
       b \<leftarrow> rd inp ip;
       if a \<noteq> b then Some (ip + 1) else match_unrolled inp bound k (ref + 1) (ip + 1)
     }"

text \<open>The run test of level 2.\<close>

definition run_check :: "level \<Rightarrow> u8 list \<Rightarrow> u8 option \<Rightarrow> nat \<Rightarrow> bool option" where
  "run_check lv inp past ip =
     (if lv = Level2 then
        do {
          a \<leftarrow> rd inp ip;
          b \<leftarrow> rd inp (ip - 1);
          if a = b then
            do { u \<leftarrow> READU16 inp past (ip - 1); w \<leftarrow> READU16 inp past (ip + 1); Some (u = w) }
          else Some False
        }
      else Some False)"

text \<open>
  The search for a match at \<open>ip\<close>: \<open>Some (len, distance)\<close> where control reaches the label
  \<open>match\<close> (with the distance not yet biased), \<open>None\<close> where it goes to \<open>literal\<close>; and the hash table.
\<close>

definition find_match ::
    "level \<Rightarrow> u8 list \<Rightarrow> u8 option \<Rightarrow> htab \<Rightarrow> nat \<Rightarrow> ((nat \<times> nat) option \<times> htab) option" where
  "find_match lv inp past htab anchor =
     do {
       run \<leftarrow> run_check lv inp past anchor;
       if run then Some (Some (3, 1), htab)
       else do {
         hval \<leftarrow> HASH_FUNCTION inp past anchor;
         let ref = htab hval; distance = anchor - ref; htab = htab(hval := anchor) in
         if distance = 0 \<or>
            (if lv = Level1 then MAX_DISTANCE lv \<le> distance else MAX_FARDISTANCE \<le> distance)
         then Some (None, htab)
         else do {
           eq3 \<leftarrow> same_bytes inp 3 ref anchor;
           if \<not> eq3 then Some (None, htab)
           else if lv = Level2 \<and> MAX_DISTANCE lv \<le> distance then
             do {
               eq5 \<leftarrow> same_bytes inp 2 (ref + 3) (anchor + 3);
               Some (if eq5 then Some (5, distance) else None, htab)
             }
           else Some (Some (3, distance), htab)
         }
       }
     }"

text \<open>From the label \<open>match\<close> to the end of the comparison: the final \<open>ip\<close>.\<close>

definition extend_match :: "u8 list \<Rightarrow> nat \<Rightarrow> nat \<Rightarrow> nat \<Rightarrow> nat option" where
  "extend_match inp anchor len distance =
     (let ip = anchor + len; ref = anchor - distance + len; ip_bound = length inp - 2 in
      if distance - 1 = 0 then
        do { x \<leftarrow> rd inp (ip - 1); run_scan inp x ip_bound ref ip }
      else match_unrolled inp ip_bound 8 ref ip)"

text \<open>Patch the literal count, or take the unused count byte back.\<close>

definition close_copy :: "u8 list \<Rightarrow> nat \<Rightarrow> u8 list" where
  "close_copy op copy =
     (if copy \<noteq> 0 then op[length op - copy - 1 := of_nat (copy - 1)] else butlast op)"

text \<open>Level 1: \<open>len\<close> and \<open>distance\<close> are biased.\<close>

function emit_match1 :: "nat \<Rightarrow> nat \<Rightarrow> u8 list" where
  "emit_match1 len distance =
     (if MAX_LEN - 2 < len then
        [of_nat (7 * 32 + distance div 256), of_nat (MAX_LEN - 2 - 7 - 2), of_nat (distance mod 256)]
          @ emit_match1 (len - (MAX_LEN - 2)) distance
      else if len < 7 then
        [of_nat (len * 32 + distance div 256), of_nat (distance mod 256)]
      else
        [of_nat (7 * 32 + distance div 256), of_nat (len - 7), of_nat (distance mod 256)])"
  by pat_completeness auto
termination
  by (relation "measure fst") (auto simp: MAX_LEN_def)

fun emit_length :: "nat \<Rightarrow> u8 list" where
  "emit_length len = (if 255 \<le> len then 255 # emit_length (len - 255) else [of_nat len])"

definition emit_match2 :: "nat \<Rightarrow> nat \<Rightarrow> u8 list" where
  "emit_match2 len distance =
     (if distance < MAX_DISTANCE Level2 then
        if len < 7 then
          [of_nat (len * 32 + distance div 256), of_nat (distance mod 256)]
        else
          [of_nat (7 * 32 + distance div 256)] @ emit_length (len - 7) @ [of_nat (distance mod 256)]
      else
        (let far = distance - MAX_DISTANCE Level2 in
         if len < 7 then
           [of_nat (len * 32 + 31), 255, of_nat (far div 256), of_nat (far mod 256)]
         else
           [of_nat (7 * 32 + 31)] @ emit_length (len - 7)
             @ [255, of_nat (far div 256), of_nat (far mod 256)]))"

definition emit_match :: "level \<Rightarrow> nat \<Rightarrow> nat \<Rightarrow> u8 list" where
  "emit_match lv len distance =
     (case lv of Level1 \<Rightarrow> emit_match1 len distance | Level2 \<Rightarrow> emit_match2 len distance)"

definition match_step ::
    "level \<Rightarrow> u8 list \<Rightarrow> u8 option \<Rightarrow> nat \<Rightarrow> nat \<Rightarrow> enc \<Rightarrow> enc option" where
  "match_step lv inp past len distance e =
     do {
       let anchor = e_ip e in do {
         ip \<leftarrow> extend_match inp anchor len distance;
         let op = close_copy (e_op e) (e_copy e);
             ip = ip - 3;
             op = op @ emit_match lv (ip - anchor) (distance - 1) in do {
           h1 \<leftarrow> HASH_FUNCTION inp past ip;
           h2 \<leftarrow> HASH_FUNCTION inp past (ip + 1);
           Some \<lparr>e_ip = ip + 2, e_op = op @ [of_nat (MAX_COPY - 1)],
                 e_htab = (e_htab e)(h1 := ip, h2 := ip + 1), e_copy = 0\<rparr>
         }
       }
     }"

definition push_literal :: "u8 \<Rightarrow> u8 list \<Rightarrow> nat \<Rightarrow> u8 list \<times> nat" where
  "push_literal b op copy =
     (if copy + 1 = MAX_COPY then (op @ [b, of_nat (MAX_COPY - 1)], 0) else (op @ [b], copy + 1))"

definition literal_step :: "u8 list \<Rightarrow> enc \<Rightarrow> enc option" where
  "literal_step inp e =
     do {
       b \<leftarrow> rd inp (e_ip e);
       let (op, copy) = push_literal b (e_op e) (e_copy e) in
       Some (e\<lparr>e_ip := e_ip e + 1, e_op := op, e_copy := copy\<rparr>)
     }"

definition main_step_flz :: "level \<Rightarrow> u8 list \<Rightarrow> u8 option \<Rightarrow> enc \<Rightarrow> enc option" where
  "main_step_flz lv inp past e =
     do {
       (m, htab) \<leftarrow> find_match lv inp past (e_htab e) (e_ip e);
       case m of
         None \<Rightarrow> literal_step inp (e\<lparr>e_htab := htab\<rparr>)
       | Some (len, distance) \<Rightarrow> match_step lv inp past len distance (e\<lparr>e_htab := htab\<rparr>)
     }"

partial_function (option) main_loop ::
    "level \<Rightarrow> u8 list \<Rightarrow> u8 option \<Rightarrow> enc \<Rightarrow> enc option" where
  "main_loop lv inp past e =
     (if e_ip e + 12 < length inp then
        do { e \<leftarrow> main_step_flz lv inp past e; main_loop lv inp past e }
      else Some e)"

declare main_loop.simps [code]

text \<open>The left-over bytes as literals: \<open>while(ip <= ip_bound)\<close> after \<open>ip_bound++\<close>.\<close>

fun leftover :: "u8 list \<Rightarrow> u8 list \<Rightarrow> nat \<Rightarrow> u8 list \<times> nat" where
  "leftover [] op copy = (op, copy)"
| "leftover (b # bs) op copy =
     (let (op, copy) = push_literal b op copy in leftover bs op copy)"

definition compress_level :: "level \<Rightarrow> u8 option \<Rightarrow> u8 list \<Rightarrow> u8 list option" where
  "compress_level lv past inp =
     (let n = length inp in
      if n < 4 then
        (if n \<noteq> 0 then Some (of_nat (n - 1) # inp) else Some [])
      else
        do {
          e \<leftarrow> main_loop lv inp past
                \<lparr>e_ip = 2, e_op = [of_nat (MAX_COPY - 1), inp ! 0, inp ! 1],
                 e_htab = (\<lambda>_. 0), e_copy = 2\<rparr>;
          let (op, copy) = leftover (drop (e_ip e) inp) (e_op e) (e_copy e);
              op = close_copy op copy in
          Some (if lv = Level2 then op[0 := op ! 0 OR push_bit 5 1] else op)
        })"

definition fastlz_compress :: "u8 option \<Rightarrow> u8 list \<Rightarrow> u8 list option" where
  "fastlz_compress past inp =
     (if length inp < 65536 then compress_level Level1 past inp
      else compress_level Level2 past inp)"

definition fastlz_compress_level :: "int \<Rightarrow> u8 option \<Rightarrow> u8 list \<Rightarrow> u8 list option" where
  "fastlz_compress_level level past inp =
     (if level = 1 then compress_level Level1 past inp
      else if level = 2 then compress_level Level2 past inp
      else Some [])"

subsection \<open>Decompressor\<close>

text \<open>
  \<open>Done out\<close>: the buffer filled; \<open>Reject\<close>: the code returns 0; \<open>Overread\<close>: a byte behind the
  input is read; \<open>Wild\<close>: a byte outside the output written so far is read.
\<close>

datatype dres = Done "u8 list" | Reject | Overread | Wild

text \<open>The length bytes of level 2: \<open>do { code = *ip++; len += code; } while (code==255);\<close>\<close>

function read_length :: "u8 list \<Rightarrow> nat \<Rightarrow> nat \<Rightarrow> (nat \<times> nat) option" where
  "read_length inp ip len =
     (if ip < length inp then
        (let code = unat (inp ! ip); len = unat (of_nat (len + code) :: u32) in
         if code = 255 then read_length inp (ip + 1) len else Some (ip + 1, len))
      else None)"
  by pat_completeness auto
termination
  by (relation "measure (\<lambda>(inp, ip, len). length inp - ip)") auto

text \<open>
  The operands of a match instruction: the new \<open>ip\<close>, \<open>len\<close> and \<open>op - ref\<close>.
\<close>

definition read_match :: "level \<Rightarrow> u8 list \<Rightarrow> nat \<Rightarrow> nat \<Rightarrow> (nat \<times> nat \<times> nat) option" where
  "read_match lv inp ip ctrl =
     (let len = ctrl div 32 - 1; ofs = (ctrl mod 32) * 256 in
      case lv of
        Level1 \<Rightarrow>
          do {
            (ip, len) \<leftarrow>
              (if len = 7 - 1 then do { c \<leftarrow> rd inp ip; Some (ip + 1, len + unat c) }
               else Some (ip, len));
            c \<leftarrow> rd inp ip;
            Some (ip + 1, len, ofs + unat c)
          }
      | Level2 \<Rightarrow>
          do {
            (ip, len) \<leftarrow> (if len = 7 - 1 then read_length inp ip len else Some (ip, len));
            code \<leftarrow> rd inp ip;
            if code = 255 \<and> ofs = 31 * 256 then
              do {
                a \<leftarrow> rd inp (ip + 1);
                b \<leftarrow> rd inp (ip + 2);
                Some (ip + 3, len, unat a * 256 + unat b + MAX_DISTANCE Level2)
              }
            else Some (ip + 1, len, ofs + unat code)
          })"

declare run_scan.simps [simp del] match_scan.simps [simp del] emit_match1.simps [simp del]
  emit_length.simps [simp del] read_length.simps [simp del]

lemma read_length_ip: "read_length inp ip len = Some (ip', len') \<Longrightarrow> ip < ip'"
proof (induction inp ip len rule: read_length.induct)
  case (1 inp ip len)
  then show ?case
    by (subst (asm) (2) read_length.simps) (auto simp: Let_def split: if_splits dest: Suc_lessD)
qed

lemma read_match_ip: "read_match lv inp ip ctrl = Some (ip', len, back) \<Longrightarrow> ip < ip'"
  by (cases lv) (auto simp: read_match_def Let_def bind_eq_Some_conv dest!: read_length_ip split: if_splits)

text \<open>Byte by byte copy from the output written so far: source and destination may overlap.\<close>

fun copy_ref :: "nat \<Rightarrow> nat \<Rightarrow> u8 list \<Rightarrow> u8 list option" where
  "copy_ref 0 ref out = Some out"
| "copy_ref (Suc k) ref out = do { b \<leftarrow> rd out ref; copy_ref k (ref + 1) (out @ [b]) }"

definition copy_match :: "nat \<Rightarrow> nat \<Rightarrow> u8 list \<Rightarrow> u8 list option" where
  "copy_match len back out =
     (if back = 0 then
        do { b \<leftarrow> rd out (length out - 1); Some (out @ replicate (len + 3) b) }
      else copy_ref (len + 3) (length out - back - 1) out)"

function dec_loop :: "level \<Rightarrow> u8 list \<Rightarrow> nat \<Rightarrow> nat \<Rightarrow> nat \<Rightarrow> u8 list \<Rightarrow> dres" where
  "dec_loop lv inp maxout ip ctrl out =
     (if 32 \<le> ctrl then
        (case read_match lv inp ip ctrl of
           None \<Rightarrow> Overread
         | Some (ip', len, back) \<Rightarrow>
             if maxout < length out + len + 3 then Reject
             else if length out < back + 1 then Reject
             else
               (case copy_match len back out of
                  None \<Rightarrow> Wild
                | Some out' \<Rightarrow>
                    if ip' < length inp
                    then dec_loop lv inp maxout (ip' + 1) (unat (inp ! ip')) out'
                    else Done out'))
      else
        (let ctrl = ctrl + 1 in
         if maxout < length out + ctrl then Reject
         else if length inp < ip + ctrl then Reject
         else
           (let out' = out @ take ctrl (drop ip inp); ip' = ip + ctrl in
            if ip' < length inp
            then dec_loop lv inp maxout (ip' + 1) (unat (inp ! ip')) out'
            else Done out')))"
  by pat_completeness auto
termination
  by (relation "measure (\<lambda>(lv, inp, maxout, ip, ctrl, out). length inp - ip)")
    (auto dest!: read_match_ip)

definition decompress_level :: "level \<Rightarrow> u8 list \<Rightarrow> nat \<Rightarrow> dres" where
  "decompress_level lv inp maxout =
     (case inp of
        [] \<Rightarrow> Overread
      | c # _ \<Rightarrow> dec_loop lv inp maxout 1 (unat (c AND 31)) [])"

definition fastlz_decompress :: "u8 list \<Rightarrow> nat \<Rightarrow> dres" where
  "fastlz_decompress inp maxout =
     (case inp of
        [] \<Rightarrow> Overread
      | c # _ \<Rightarrow>
          (let level = unat (drop_bit 5 c) + 1 in
           if level = 1 then decompress_level Level1 inp maxout
           else if level = 2 then decompress_level Level2 inp maxout
           else Reject))"

end
