(* ===== verification/FastLZ_Proofs.thy ===== *)
theory FastLZ_Proofs
  imports FastLZ
begin

text \<open>
  Correctness of the FastLZ codec. The compressed stream is described as a list of tokens: a run
  of literals, or a copy of \<open>m\<close> bytes from distance \<open>d\<close>. The decompressor interprets the bytes of a
  token as \<open>expand\<close> does; every iteration of the compressor keeps the invariant that the
  output is the bytes of valid tokens that expand to the input consumed so far, behind which the
  pending literals stand under their count byte.
\<close>

section \<open>Definitions\<close>

datatype token = Lit "u8 list" | Copy nat nat

fun tok_bytes :: "level \<Rightarrow> token \<Rightarrow> u8 list" where
  "tok_bytes lv (Lit bs) = of_nat (length bs - 1) # bs"
| "tok_bytes lv (Copy m d) = emit_match lv (m - 2) (d - 1)"

fun tok_valid :: "level \<Rightarrow> token \<Rightarrow> bool" where
  "tok_valid lv (Lit bs) \<longleftrightarrow> 1 \<le> length bs \<and> length bs \<le> MAX_COPY"
| "tok_valid Level1 (Copy m d) \<longleftrightarrow> 3 \<le> m \<and> m \<le> MAX_LEN \<and> 1 \<le> d \<and> d \<le> MAX_DISTANCE Level1"
| "tok_valid Level2 (Copy m d) \<longleftrightarrow> 3 \<le> m \<and> m < 2 ^ 31 \<and> 1 \<le> d \<and> d < MAX_FARDISTANCE"

fun expand :: "token \<Rightarrow> u8 list \<Rightarrow> u8 list option" where
  "expand (Lit bs) out = Some (out @ bs)"
| "expand (Copy m d) out =
     (if 1 \<le> d \<and> d \<le> length out then copy_ref m (length out - d) out else None)"

definition dist_bytes :: "nat \<Rightarrow> u8 list" where
  "dist_bytes dist = (if dist < 8191 then [of_nat (dist mod 256)] else
      [255, of_nat ((dist - 8191) div 256), of_nat ((dist - 8191) mod 256)])"

definition next_dec :: "level \<Rightarrow> u8 list \<Rightarrow> nat \<Rightarrow> nat \<Rightarrow> u8 list \<Rightarrow> dres" where
  "next_dec lv inp maxout ip out =
     (if ip < length inp then dec_loop lv inp maxout (ip + 1) (unat (inp ! ip)) out else Done out)"

definition agree :: "u8 list \<Rightarrow> nat \<Rightarrow> nat \<Rightarrow> nat \<Rightarrow> bool" where
  "agree inp a d m \<longleftrightarrow> 1 \<le> d \<and> d \<le> a \<and> a + m \<le> length inp \<and> (\<forall>i<m. inp ! (a + i) = inp ! (a - d + i))"

definition match_ok :: "level \<Rightarrow> u8 list \<Rightarrow> nat \<Rightarrow> nat \<Rightarrow> nat \<Rightarrow> bool" where
  "match_ok lv inp a len d \<longleftrightarrow> agree inp a d len \<and> (len = 3 \<or> lv = Level2 \<and> len = 5) \<and>
     (lv = Level1 \<longrightarrow> d < 8192) \<and> d < MAX_FARDISTANCE \<and> (8191 \<le> d \<and> lv = Level2 \<longrightarrow> len = 5)"

definition lits_at :: "level \<Rightarrow> u8 list \<Rightarrow> token list \<Rightarrow> u8 list \<Rightarrow> nat \<Rightarrow> u8 list \<Rightarrow> nat \<Rightarrow> bool" where
  "lits_at lv inp ts lits ip op copy \<longleftrightarrow>
     op = concat (map (tok_bytes lv) ts) @ of_nat (MAX_COPY - 1) # lits \<and>
     length lits = copy \<and> copy < MAX_COPY \<and> (\<forall>t \<in> set ts. tok_valid lv t) \<and>
     (\<exists>out. foldo expand ts [] = Some out \<and> out @ lits = take ip inp) \<and>
     ip \<le> length inp \<and> 32 * length op + copy \<le> 33 * ip + 32"

definition close_toks :: "token list \<Rightarrow> u8 list \<Rightarrow> token list" where
  "close_toks ts lits = (if lits = [] then ts else ts @ [Lit lits])"

fun match_toks :: "level \<Rightarrow> nat \<Rightarrow> nat \<Rightarrow> token list" where
  "match_toks Level2 len d = [Copy (len + 2) d]"
| "match_toks Level1 len d =
     (if 262 < len then Copy 262 d # match_toks Level1 (len - 262) d else [Copy (len + 2) d])"

definition enc_inv :: "level \<Rightarrow> u8 list \<Rightarrow> enc \<Rightarrow> bool" where
  "enc_inv lv inp e \<longleftrightarrow> 2 \<le> e_ip e \<and> (\<forall>h. e_htab e h < e_ip e) \<and>
     (\<exists>ts lits. lits_at lv inp ts lits (e_ip e) (e_op e) (e_copy e))"

declare match_toks.simps(2) [simp del]

section \<open>Lemmas\<close>

declare dec_loop.simps [simp del]

lemma rd_drop: "drop i xs = y # ys \<Longrightarrow> rd xs i = Some y"
  by (metis drop_eq_Nil2 list.simps(3) nth_via_drop rd_in not_le)

lemma drop_Suc_cons: "drop i xs = y # ys \<Longrightarrow> drop (Suc i) xs = ys"
  by (metis drop_Suc list.sel(3) tl_drop)

lemma drop_append_eq: "drop i xs = ys @ zs \<Longrightarrow> drop (i + length ys) xs = zs"
proof -
  assume d: "drop i xs = ys @ zs"
  have "drop (i + length ys) xs = drop (length ys) (drop i xs)" by (simp add: add.commute)
  with d show ?thesis by simp
qed

lemma length_copy_ref: "copy_ref k ref out = Some out' \<Longrightarrow> length out' = length out + k"
proof (induction k arbitrary: ref out)
  case (Suc k)
  then obtain b where "copy_ref k (ref + 1) (out @ [b]) = Some out'"
    by (auto simp: bind_eq_Some_conv)
  from Suc.IH [OF this] show ?case by simp
qed simp


lemma copy_ref_run: "out \<noteq> [] \<Longrightarrow>
  copy_ref k (length out - 1) out = Some (out @ replicate k (last out))"
proof (induction k arbitrary: out)
  case (Suc k)
  have "rd out (length out - 1) = Some (last out)"
    using Suc.prems by (simp add: last_conv_nth)
  moreover have "copy_ref k (length out) (out @ [last out]) =
      Some ((out @ [last out]) @ replicate k (last out))"
    using Suc.IH [of "out @ [last out]"] by simp
  ultimately show ?case using Suc.prems by simp
qed simp

lemma copy_match_eq:
  assumes "back + 1 \<le> length out"
  shows "copy_match len back out = copy_ref (len + 3) (length out - back - 1) out"
proof (cases "back = 0")
  case True
  with assms have "out \<noteq> []" by auto
  with copy_ref_run [OF this, of "len + 3"] True show ?thesis
    by (simp add: copy_match_def last_conv_nth)
qed (simp add: copy_match_def)

lemma expand_Copy_dec:
  assumes "expand (Copy m d) out = Some out'" "3 \<le> m"
  shows "1 \<le> d" "d \<le> length out" "copy_match (m - 3) (d - 1) out = Some out'"
    "length out' = length out + m"
  using assms copy_match_eq [of "d - 1" out "m - 3"] length_copy_ref
  by (auto split: if_splits)

lemma match_head_div: "b < 32 \<Longrightarrow> (len * 32 + b) div 32 = (len :: nat)"
  "b < 32 \<Longrightarrow> (len * 32 + b) mod 32 = (b :: nat)"
  by simp_all

lemma read_length_emit:
  assumes "drop ip inp = emit_length k @ rest" "len + k < 2 ^ 32"
  shows "read_length inp ip len = Some (ip + length (emit_length k), len + k)"
  using assms
proof (induction k arbitrary: ip len rule: emit_length.induct)
  case (1 k)
  have in_range: "ip < length inp"
    using "1.prems"(1) by (subst (asm) emit_length.simps) (auto split: if_splits intro: ccontr)
  show ?case
  proof (cases "255 \<le> k")
    case True
    then have e: "emit_length k = 255 # emit_length (k - 255)" by (subst emit_length.simps) simp
    with "1.prems" have d: "drop ip inp = 255 # (emit_length (k - 255) @ rest)" by simp
    then have x: "inp ! ip = 255" by (rule nth_via_drop)
    have "read_length inp (Suc ip) (len + 255) = Some (Suc ip + length (emit_length (k - 255)), len + 255 + (k - 255))"
      using "1.IH" [OF True drop_Suc_cons [OF d]] "1.prems"(2) True by simp
    moreover have "unat (of_nat (len + 255) :: u32) = len + 255"
      using "1.prems"(2) True by (simp add: unat_of_nat del: of_nat_add)
    ultimately show ?thesis
      using True in_range x by (subst read_length.simps) (simp add: Let_def e del: of_nat_add)
  next
    case False
    then have e: "emit_length k = [of_nat k]" by (subst emit_length.simps) simp
    with "1.prems" have "drop ip inp = of_nat k # rest" by simp
    then have x: "inp ! ip = of_nat k" by (rule nth_via_drop)
    have "unat (of_nat (len + k) :: u32) = len + k"
      using "1.prems"(2) by (simp add: unat_of_nat del: of_nat_add)
    then show ?thesis
      using False in_range x
      by (subst read_length.simps) (simp add: Let_def e unat_of_nat_u8 del: of_nat_add)
  qed
qed


lemma emit1_short: "len < 7 \<Longrightarrow> emit_match1 len dist =
    [of_nat (len * 32 + dist div 256), of_nat (dist mod 256)]"
  by (subst emit_match1.simps) (simp add: MAX_LEN_def)

lemma emit1_long: "7 \<le> len \<Longrightarrow> len \<le> MAX_LEN - 2 \<Longrightarrow> emit_match1 len dist =
    [of_nat (7 * 32 + dist div 256), of_nat (len - 7), of_nat (dist mod 256)]"
  by (subst emit_match1.simps) simp

lemma head_byte:
  assumes "1 \<le> len" "len \<le> 7" "b < 32"
  shows "unat (of_nat (len * 32 + b) :: u8) = len * 32 + b"
  using assms by (intro unat_of_nat_u8) simp

lemma read_match1:
  assumes v: "tok_valid Level1 (Copy m d)"
    and h: "tok_bytes Level1 (Copy m d) = c # cs" and dr: "drop ip inp = cs @ rest"
  shows "32 \<le> unat c \<and> read_match Level1 inp ip (unat c) = Some (ip + length cs, m - 3, d - 1)"
proof -
  define len dist where "len = m - 2" and "dist = d - 1"
  have b: "1 \<le> len" "len \<le> 262" "dist div 256 < 32" "dist mod 256 < 256"
    using v by (auto simp: len_def dist_def MAX_LEN_def)
  have ofs_eq: "dist div 256 * 256 + dist mod 256 = dist" by simp
  show ?thesis
  proof (cases "len < 7")
    case True
    with h have c: "c = of_nat (len * 32 + dist div 256)" "cs = [of_nat (dist mod 256)]"
      by (auto simp: emit_match_def emit1_short len_def dist_def)
    have u: "unat c = len * 32 + dist div 256" unfolding c using b True by (intro head_byte) auto
    have q: "unat c div 32 = len" "unat c mod 32 = dist div 256" unfolding u using b by simp_all
    from dr have "rd inp ip = Some (of_nat (dist mod 256))" unfolding c by (auto intro: rd_drop)
    then show ?thesis using b True
      by (simp add: read_match_def q Let_def c(2) unat_of_nat_u8 ofs_eq)
        (simp add: u len_def dist_def)
  next
    case False
    with h b have c: "c = of_nat (7 * 32 + dist div 256)" "cs = [of_nat (len - 7), of_nat (dist mod 256)]"
      by (auto simp: emit_match_def emit1_long MAX_LEN_def len_def dist_def)
    have u: "unat c = 7 * 32 + dist div 256" unfolding c using b by (intro head_byte) auto
    have q: "unat c div 32 = 7" "unat c mod 32 = dist div 256"
      unfolding u using match_head_div [OF b(3), of 7] by simp_all
    from dr have dr': "drop ip inp = of_nat (len - 7) # of_nat (dist mod 256) # rest" by (simp add: c)
    have r: "rd inp ip = Some (of_nat (len - 7))" "rd inp (Suc ip) = Some (of_nat (dist mod 256))"
      using rd_drop [OF dr'] rd_drop [OF drop_Suc_cons [OF dr']] by simp_all
    show ?thesis using b False
      by (simp add: read_match_def q r Let_def c(2) unat_of_nat_u8 ofs_eq del: of_nat_diff)
        (simp add: u len_def dist_def)
  qed
qed


lemma far_code: "dist < 8191 \<Longrightarrow> \<not> (of_nat (dist mod 256) = (255 :: u8) \<and> dist div 256 * 256 = 31 * 256)"
proof
  assume d: "dist < 8191" and h: "of_nat (dist mod 256) = (255 :: u8) \<and> dist div 256 * 256 = 31 * 256"
  then have "dist mod 256 = 255" using unat_of_nat_u8 [of "dist mod 256"] by simp
  moreover have "dist = dist div 256 * 256 + dist mod 256" by simp
  ultimately show False using h d by linarith
qed

lemma read_match2_tail:
  assumes "drop ip inp = dist_bytes dist @ rest"
    and "dist < 73725" "ofs = (if dist < 8191 then dist div 256 * 256 else 31 * 256)"
  shows "do { code \<leftarrow> rd inp ip;
            if code = 255 \<and> ofs = 31 * 256 then
              do {
                a \<leftarrow> rd inp (ip + 1);
                b \<leftarrow> rd inp (ip + 2);
                Some (ip + 3, len :: nat, unat a * 256 + unat b + MAX_DISTANCE Level2)
              }
            else Some (ip + 1, len, ofs + unat code) } = Some (ip + length (dist_bytes dist), len, dist)"
proof (cases "dist < 8191")
  case True
  with assms have "drop ip inp = of_nat (dist mod 256) # rest" by (simp add: dist_bytes_def)
  then have "rd inp ip = Some (of_nat (dist mod 256))" by (rule rd_drop)
  with True far_code [OF True] assms(3) show ?thesis by (auto simp: unat_of_nat_u8 dist_bytes_def)
next
  case False
  define far where "far = dist - 8191"
  have f: "far div 256 < 256" "dist = far + 8191" using assms(2) False by (auto simp: far_def)
  from False assms have dr: "drop ip inp = 255 # of_nat (far div 256) # of_nat (far mod 256) # rest"
    by (simp add: far_def dist_bytes_def)
  note dr1 = drop_Suc_cons [OF dr] and dr2 = drop_Suc_cons [OF drop_Suc_cons [OF dr]]
  have "rd inp ip = Some 255" "rd inp (Suc ip) = Some (of_nat (far div 256))"
    "rd inp (Suc (Suc ip)) = Some (of_nat (far mod 256))"
    using rd_drop [OF dr] rd_drop [OF dr1] rd_drop [OF dr2] by simp_all
  with False assms(3) f show ?thesis by (simp add: unat_of_nat_u8 dist_bytes_def)
qed

lemma emit2_eq: "emit_match2 len dist =
   of_nat ((if len < 7 then len else 7) * 32 + (if dist < 8191 then dist div 256 else 31)) #
   (if len < 7 then [] else emit_length (len - 7)) @ dist_bytes dist"
  by (simp add: emit_match2_def Let_def dist_bytes_def)

lemma read_match2:
  assumes v: "tok_valid Level2 (Copy m d)"
    and h: "tok_bytes Level2 (Copy m d) = c # cs" and dr: "drop ip inp = cs @ rest"
  shows "32 \<le> unat c \<and> read_match Level2 inp ip (unat c) = Some (ip + length cs, m - 3, d - 1)"
proof -
  define len dist where "len = m - 2" and "dist = d - 1"
  define hi where "hi = (if dist < 8191 then dist div 256 else 31)"
  define k where "k = (if len < 7 then len else 7)"
  let ?t = "dist_bytes dist"
  have b: "1 \<le> len" "len < 2 ^ 31" "hi < 32" "dist < 73725" "1 \<le> k" "k \<le> 7" "m - 3 = len - 1"
    using v by (auto simp: len_def dist_def hi_def k_def MAX_FARDISTANCE_def)
  have c: "c = of_nat (k * 32 + hi)" "cs = (if len < 7 then [] else emit_length (len - 7)) @ ?t"
    using h by (auto simp: emit_match_def emit2_eq len_def dist_def hi_def k_def)
  have u: "unat c = k * 32 + hi" unfolding c using b by (intro head_byte) auto
  have q: "unat c div 32 = k" "unat c mod 32 = hi" unfolding u using b by simp_all
  define ip' where "ip' = ip + length (if len < 7 then [] else emit_length (len - 7))"
  have rl: "(if k - 1 = 7 - 1 then read_length inp ip (k - 1) else Some (ip, k - 1)) = Some (ip', len - 1)"
  proof (cases "len < 7")
    case False
    have "read_length inp ip 6 = Some (ip + length (emit_length (len - 7)), 6 + (len - 7))"
      using dr b False unfolding c by (intro read_length_emit [where rest = "?t @ rest"]) auto
    with False show ?thesis by (simp add: k_def ip'_def)
  qed (use b in \<open>auto simp: k_def ip'_def\<close>)
  have "drop ip inp = (if len < 7 then [] else emit_length (len - 7)) @ (?t @ rest)"
    using dr by (simp add: c)
  then have dr': "drop ip' inp = ?t @ rest" unfolding ip'_def by (rule drop_append_eq)
  have ofs: "hi * 256 = (if dist < 8191 then dist div 256 * 256 else 31 * 256)" by (simp add: hi_def)
  have "read_match Level2 inp ip (unat c) = Some (ip' + length ?t, len - 1, dist)"
    unfolding read_match_def Let_def q level.case rl bind.bind_lunit prod.case
    by (rule read_match2_tail [OF dr' b(4) ofs])
  moreover have "ip' + length ?t = ip + length cs" by (simp add: c(2) ip'_def)
  ultimately show ?thesis using b by (simp add: u) (simp add: dist_def)
qed


lemma read_match_token:
  assumes "tok_valid lv (Copy m d)" "tok_bytes lv (Copy m d) = c # cs" "drop ip inp = cs @ rest"
  shows "32 \<le> unat c \<and> read_match lv inp ip (unat c) = Some (ip + length cs, m - 3, d - 1)"
  using assms read_match1 read_match2 by (cases lv) blast+

lemma tok_bytes_Cons: "\<exists>c cs. tok_bytes lv t = c # cs"
proof (cases t)
  case (Copy m d)
  show ?thesis
  proof (cases lv)
    case Level1
    with Copy show ?thesis by (simp add: emit_match_def) (subst emit_match1.simps, simp)
  next
    case Level2
    with Copy show ?thesis by (simp add: emit_match_def emit2_eq)
  qed
qed simp

lemma tok_valid_CopyD: "tok_valid lv (Copy m d) \<Longrightarrow> 3 \<le> m"
  by (cases lv) auto

lemma dec_token:
  assumes v: "tok_valid lv t" and h: "tok_bytes lv t = c # cs"
    and dr: "drop ip inp = cs @ rest" and e: "expand t out = Some out'" and mx: "length out' \<le> maxout"
  shows "dec_loop lv inp maxout ip (unat c) out = next_dec lv inp maxout (ip + length cs) out'"
proof (cases t)
  case (Lit bs)
  with v h have l: "1 \<le> length bs" "length bs \<le> 32" and c: "unat c = length bs - 1" "cs = bs"
    by (auto simp: MAX_COPY_def unat_of_nat_u8 simp del: of_nat_diff)
  have "length (drop ip inp) = length bs + length rest" by (simp add: dr c)
  then have n: "ip + length bs \<le> length inp" using l by simp
  have t: "take (length bs) (drop ip inp) = bs" by (simp add: dr c)
  obtain k where k: "length bs = Suc k" using l by (cases "length bs") auto
  have "length out' = length out + Suc k" using e Lit k by auto
  then have "dec_loop lv inp maxout ip k out = next_dec lv inp maxout (ip + Suc k) out'"
    using l n e mx Lit k t
    by (subst dec_loop.simps) (simp add: next_dec_def Let_def)
  then show ?thesis using c k by simp
next
  case (Copy m d)
  have m: "3 \<le> m" using v tok_valid_CopyD by (simp add: Copy)
  from read_match_token [of lv m d c cs ip inp rest] v h dr
  have r: "32 \<le> unat c" "read_match lv inp ip (unat c) = Some (ip + length cs, m - 3, d - 1)"
    by (simp_all add: Copy)
  have e': "expand (Copy m d) out = Some out'" using e by (simp only: Copy)
  note x = expand_Copy_dec [OF e' m]
  show ?thesis using r x m mx
    by (subst dec_loop.simps) (simp add: next_dec_def)
qed

lemma expand_length: "expand t out = Some out' \<Longrightarrow> length out \<le> length out'"
  by (cases t) (auto dest: length_copy_ref split: if_splits)

lemma expands_length: "foldo expand ts out = Some out' \<Longrightarrow> length out \<le> length out'"
  by (induction ts arbitrary: out) (auto simp: bind_eq_Some_conv dest: expand_length order_trans)

lemma dec_tokens:
  assumes "\<forall>t\<in>set ts. tok_valid lv t" "drop ip inp = concat (map (tok_bytes lv) ts)"
    "foldo expand ts out = Some out'" "length out' \<le> maxout"
  shows "next_dec lv inp maxout ip out = Done out'"
  using assms
proof (induction ts arbitrary: ip out)
  case Nil
  then show ?case by (simp add: next_dec_def)
next
  case (Cons t ts)
  obtain c cs where h: "tok_bytes lv t = c # cs" using tok_bytes_Cons by blast
  obtain out1 where o: "expand t out = Some out1" "foldo expand ts out1 = Some out'"
    using Cons.prems(3) by (auto simp: bind_eq_Some_conv)
  let ?rest = "concat (map (tok_bytes lv) ts)"
  have dr: "drop ip inp = c # (cs @ ?rest)" using Cons.prems(2) by (simp add: h)
  have d1: "drop (Suc ip) inp = cs @ ?rest" using drop_Suc_cons [OF dr] .
  have i: "ip < length inp" "inp ! ip = c" using dr nth_via_drop [OF dr] by (auto intro: ccontr)
  have "dec_loop lv inp maxout (Suc ip) (unat c) out = next_dec lv inp maxout (Suc ip + length cs) out1"
    using Cons.prems expands_length [OF o(2)] h d1 o by (intro dec_token) auto
  moreover have "next_dec lv inp maxout (Suc ip + length cs) out1 = Done out'"
    using Cons.prems o drop_append_eq [OF d1] by (intro Cons.IH) auto
  ultimately show ?case using i by (simp add: next_dec_def)
qed

lemma agree_Suc: "agree inp a d m \<Longrightarrow> a + m < length inp \<Longrightarrow> inp ! (a - d + m) = inp ! (a + m) \<Longrightarrow>
   agree inp a d (Suc m)"
  by (auto simp: agree_def less_Suc_eq)

lemma agree_mono: "agree inp a d m \<Longrightarrow> k \<le> m \<Longrightarrow> agree inp a d k"
  by (auto simp: agree_def)

lemma copy_ref_agree_aux:
  assumes "agree inp a d (j + k)"
  shows "copy_ref k (a - d + j) (take (a + j) inp) = Some (take (a + (j + k)) inp)"
  using assms
proof (induction k arbitrary: j)
  case (Suc k)
  have b: "a + j < length inp" "a - d + j < a + j" "inp ! (a + j) = inp ! (a - d + j)"
    using Suc.prems by (auto simp: agree_def)
  then have "rd (take (a + j) inp) (a - d + j) = Some (inp ! (a + j))" by (simp add: rd_def)
  moreover have "take (a + j) inp @ [inp ! (a + j)] = take (a + Suc j) inp"
    using b by (simp add: take_Suc_conv_app_nth)
  ultimately show ?case using Suc.IH [of "Suc j"] Suc.prems by simp
qed simp

lemma copy_ref_agree: "agree inp a d m \<Longrightarrow> copy_ref m (a - d) (take a inp) = Some (take (a + m) inp)"
  using copy_ref_agree_aux [of inp a d 0 m] by simp

lemma expand_agree: "agree inp a d m \<Longrightarrow> expand (Copy m d) (take a inp) = Some (take (a + m) inp)"
proof -
  assume ag: "agree inp a d m"
  then have "length (take a inp) = a" "1 \<le> d" "d \<le> a" by (auto simp: agree_def)
  with copy_ref_agree [OF ag] show ?thesis by (simp only: expand.simps) simp
qed

lemma match_scan_agree:
  assumes "agree inp a d m" "a + m \<le> bound" "bound \<le> length inp"
  shows "\<exists>ip. match_scan inp bound (a - d + m) (a + m) = Some ip \<and> a + m \<le> ip \<and>
     (a + m < bound \<longrightarrow> a + m < ip) \<and> ip \<le> bound \<and> agree inp a d (ip - 1 - a)"
  using assms
proof (induction "bound - (a + m)" arbitrary: m)
  case 0
  then show ?case by (subst match_scan.simps) (auto intro: agree_mono)
next
  case (Suc n)
  have b: "a + m < bound" "a + m < length inp" "a - d + m < length inp" using Suc by auto
  show ?case
  proof (cases "inp ! (a - d + m) = inp ! (a + m)")
    case True
    with Suc.prems b have "agree inp a d (Suc m)" by (intro agree_Suc) auto
    moreover have "n = bound - (a + Suc m)" using Suc.hyps(2) by simp
    ultimately obtain ip where "match_scan inp bound (a - d + Suc m) (a + Suc m) = Some ip" "a + Suc m \<le> ip"
        "ip \<le> bound" "agree inp a d (ip - 1 - a)"
      using Suc.hyps(1) [of "Suc m"] Suc.prems b by auto
    then show ?thesis using True b by (subst match_scan.simps) auto
  next
    case False
    then show ?thesis using b Suc.prems by (subst match_scan.simps) auto
  qed
qed

lemma match_unrolled_agree:
  assumes "agree inp a d m" "a + m + k \<le> length inp" "bound \<le> length inp" "0 < k \<or> a + m < bound"
  shows "\<exists>ip. match_unrolled inp bound k (a - d + m) (a + m) = Some ip \<and> a + m < ip \<and>
     (ip \<le> a + m + k \<or> ip \<le> bound) \<and> agree inp a d (ip - 1 - a)"
  using assms
proof (induction k arbitrary: m)
  case 0
  then show ?case using match_scan_agree [of inp a d m bound] by auto
next
  case (Suc k)
  have b: "a + m < length inp" "a - d + m < length inp" using Suc by auto
  show ?case
  proof (cases "inp ! (a - d + m) = inp ! (a + m)")
    case True
    with Suc.prems b have ag: "agree inp a d (Suc m)" by (intro agree_Suc) auto
    show ?thesis
    proof (cases "0 < k \<or> a + Suc m < bound")
      case nz: True
      obtain ip where "match_unrolled inp bound k (a - d + Suc m) (a + Suc m) = Some ip" "a + Suc m < ip"
         "ip \<le> a + Suc m + k \<or> ip \<le> bound" "agree inp a d (ip - 1 - a)"
        using Suc.IH [OF ag] Suc.prems nz by auto
      then show ?thesis using True b by auto
    next
      case z: False
      then have "match_unrolled inp bound k (a - d + Suc m) (a + Suc m) = Some (a + Suc m)"
        by (simp add: match_scan.simps)
      then show ?thesis using True b ag z Suc.prems(1) by auto
    qed
  next
    case False
    then show ?thesis using b Suc.prems by auto
  qed
qed

lemma run_scan_agree:
  assumes "agree inp a 1 m" "1 \<le> m" "a + m \<le> bound" "bound \<le> length inp" "x = inp ! (a + m - 1)"
  shows "\<exists>ip. run_scan inp x bound (a + m) (a + m + 1) = Some ip \<and> a + m + 1 \<le> ip \<and>
     ip \<le> max bound (a + m + 1) \<and> agree inp a 1 (ip - 1 - a)"
  using assms
proof (induction "bound - (a + m)" arbitrary: m)
  case 0
  then show ?case by (subst run_scan.simps) auto
next
  case (Suc n)
  have b: "a + m < bound" "a + m < length inp" using Suc by auto
  show ?case
  proof (cases "a + m + 1 < bound \<and> inp ! (a + m) = x")
    case True
    with Suc.prems have ag: "agree inp a 1 (Suc m)" by (intro agree_Suc) (auto simp: agree_def)
    moreover have "n = bound - (a + Suc m)" using Suc.hyps(2) by simp
    ultimately obtain ip where "run_scan inp x bound (a + Suc m) (a + Suc m + 1) = Some ip" "a + Suc m + 1 \<le> ip"
       "ip \<le> max bound (a + Suc m + 1)" "agree inp a 1 (ip - 1 - a)"
      using Suc.hyps(1) [of "Suc m"] Suc.prems b True by auto
    then show ?thesis using True b by (subst run_scan.simps) auto
  next
    case False
    then show ?thesis using b Suc.prems by (subst run_scan.simps) auto
  qed
qed

lemma extend_match_agree:
  assumes ag: "agree inp a d len" and n: "a + 12 < length inp" and len: "len = 3 \<or> len = 5"
  shows "\<exists>ip. extend_match inp a len d = Some ip \<and> a + len < ip \<and> ip \<le> length inp \<and>
     (len = 3 \<longrightarrow> ip + 2 \<le> length inp) \<and> agree inp a d (ip - 1 - a)"
proof (cases "d = 1")
  case True
  have b: "1 \<le> a" using ag by (simp add: agree_def True)
  have r: "rd inp (a + len - 1) = Some (inp ! (a + len - 1))" using n len by auto
  have s: "run_scan inp x (length inp - 2) (a - 1 + len) (a + len) =
      (if inp ! (a + len - 1) = x then run_scan inp x (length inp - 2) (a + len) (a + len + 1) else Some (a + len))" for x
    using n len b by (subst run_scan.simps) auto
  have pre: "1 \<le> len" "a + len \<le> length inp - 2" "length inp - 2 \<le> length inp"
    using n len by auto
  obtain ip where ip: "run_scan inp (inp ! (a + len - 1)) (length inp - 2) (a + len) (a + len + 1) = Some ip"
    "a + len + 1 \<le> ip" "ip \<le> max (length inp - 2) (a + len + 1)" "agree inp a 1 (ip - 1 - a)"
    using run_scan_agree [OF ag [unfolded True] pre refl] by blast
  have "extend_match inp a len 1 = Some ip"
    unfolding extend_match_def Let_def by (simp add: r s ip(1) del: One_nat_def)
  then show ?thesis using ip n len True by auto
next
  case False
  have d: "d - 1 \<noteq> 0" using ag False by (auto simp: agree_def)
  have e: "extend_match inp a len d = match_unrolled inp (length inp - 2) 8 (a - d + len) (a + len)"
    using d by (simp add: extend_match_def Let_def)
  have pre: "a + len + 8 \<le> length inp" "length inp - 2 \<le> length inp" using n len by auto
  obtain ip where ip: "match_unrolled inp (length inp - 2) 8 (a - d + len) (a + len) = Some ip"
    "a + len < ip" "ip \<le> a + len + 8 \<or> ip \<le> length inp - 2" "agree inp a d (ip - 1 - a)"
    using match_unrolled_agree [OF ag pre] by auto
  have "ip \<le> length inp" "len = 3 \<longrightarrow> ip + 2 \<le> length inp" using ip(3) n len by arith+
  with e ip show ?thesis by auto
qed

lemma peek_in [simp]: "i < length inp \<Longrightarrow> peek inp past i = Some (inp ! i)"
  by (simp add: peek_def)

lemma READU16_in: "p + 1 < length inp \<Longrightarrow>
   READU16 inp past p = Some (ucast (inp ! p) OR push_bit 8 (ucast (inp ! (p + 1))))"
  by (simp add: READU16_def)

lemma HASH_in: "p + 2 < length inp \<Longrightarrow> \<exists>h. HASH_FUNCTION inp past p = Some h"
  by (simp add: HASH_FUNCTION_def READU16_in)

lemma HASH_edge: "p + 2 = length inp \<Longrightarrow> past \<noteq> None \<Longrightarrow> \<exists>h. HASH_FUNCTION inp past p = Some h"
  by (auto simp: HASH_FUNCTION_def READU16_def peek_def)

lemma u16_inject:
  fixes a b a' b' :: u8
  assumes "(ucast a OR push_bit 8 (ucast b) :: u32) = ucast a' OR push_bit 8 (ucast b')"
  shows "a = a' \<and> b = b'"
proof -
  have lo: "ucast (ucast x OR push_bit 8 (ucast y) :: u32) = (x :: u8)" for x y :: u8
    by (rule bit_word_eqI) (auto simp: bit_simps)
  have hi: "ucast (drop_bit 8 (ucast x OR push_bit 8 (ucast y) :: u32)) = (y :: u8)" for x y :: u8
    by (rule bit_word_eqI) (auto simp: bit_simps dest: bit_imp_le_length)
  show ?thesis using assms lo hi by metis
qed

lemma same_bytes_in: "ref + k \<le> length inp \<Longrightarrow> ip + k \<le> length inp \<Longrightarrow>
   same_bytes inp k ref ip = Some (\<forall>i<k. inp ! (ip + i) = inp ! (ref + i))"
proof (induction k arbitrary: ref ip)
  case (Suc k)
  have "(\<forall>i<Suc k. inp ! (ip + i) = inp ! (ref + i)) \<longleftrightarrow>
     inp ! ip = inp ! ref \<and> (\<forall>i<k. inp ! (Suc ip + i) = inp ! (Suc ref + i))"
    by (auto simp: less_Suc_eq_0_disj)
  then show ?case using Suc by auto
qed simp

lemma run_check_in:
  assumes "1 \<le> a" "a + 2 < length inp"
  shows "\<exists>r. run_check lv inp past a = Some r \<and> (r \<longrightarrow> lv = Level2 \<and> agree inp a 1 3)"
proof (cases "lv = Level2 \<and> inp ! a = inp ! (a - 1)")
  case True
  let ?w = "\<lambda>p. ucast (inp ! p) OR push_bit 8 (ucast (inp ! (p + 1))) :: u32"
  have r: "READU16 inp past (a - 1) = Some (?w (a - 1))" "READU16 inp past (a + 1) = Some (?w (a + 1))"
    using assms by (intro READU16_in; simp)+
  have "agree inp a 1 3" if "?w (a - 1) = ?w (a + 1)"
  proof -
    have "inp ! (a - 1) = inp ! (a + 1) \<and> inp ! a = inp ! (a + 2)"
      using u16_inject [OF that] assms(1) by simp
    then show ?thesis using True assms
      by (auto simp: agree_def numeral_eq_Suc less_Suc_eq)
  qed
  then show ?thesis using True assms r by (simp add: run_check_def)
next
  case False
  then show ?thesis using assms by (auto simp: run_check_def)
qed

lemma find_match_in:
  assumes "2 \<le> a" "a + 12 < length inp" "\<forall>h. htab h < a"
  shows "\<exists>mo htab'. find_match lv inp past htab a = Some (mo, htab') \<and> (\<forall>h. htab' h \<le> a) \<and>
     (\<forall>len d. mo = Some (len, d) \<longrightarrow> match_ok lv inp a len d)"
proof -
  obtain r where r: "run_check lv inp past a = Some r" "r \<longrightarrow> lv = Level2 \<and> agree inp a 1 3"
    using run_check_in [of a inp lv past] assms by auto
  obtain hv where hv: "HASH_FUNCTION inp past a = Some hv"
    using HASH_in [of a inp past] assms by auto
  define ref d where "ref = htab hv" and "d = a - ref"
  have rd: "ref < a" "a - d = ref" "1 \<le> d" "d \<le> a"
    using assms(3) [rule_format, of hv] by (auto simp: ref_def d_def)
  have s3: "same_bytes inp 3 ref a = Some (\<forall>i<3. inp ! (a + i) = inp ! (ref + i))"
    using assms rd by (intro same_bytes_in) auto
  have s2: "same_bytes inp 2 (ref + 3) (a + 3) = Some (\<forall>i<2. inp ! (a + 3 + i) = inp ! (ref + 3 + i))"
    using assms rd by (intro same_bytes_in) auto
  have a3: "agree inp a d 3 \<longleftrightarrow> (\<forall>i<3. inp ! (a + i) = inp ! (ref + i))"
    using assms rd by (auto simp: agree_def)
  have a5: "agree inp a d 5 \<longleftrightarrow> agree inp a d 3 \<and> (\<forall>i<2. inp ! (a + 3 + i) = inp ! (ref + 3 + i))"
    using assms rd by (auto simp: agree_def numeral_eq_Suc less_Suc_eq)
  have h: "\<forall>h. (htab(hv := a)) h \<le> a" "\<forall>h. htab h \<le> a" using assms(3) by (auto simp: less_imp_le)
  show ?thesis
  proof (cases r)
    case True
    with r h show ?thesis by (auto simp: find_match_def match_ok_def MAX_FARDISTANCE_def)
  next
    case False
    have fm: "find_match lv inp past htab a =
      (if d = 0 \<or> (if lv = Level1 then MAX_DISTANCE lv \<le> d else MAX_FARDISTANCE \<le> d)
       then Some (None, htab(hv := a))
       else if \<not> agree inp a d 3 then Some (None, htab(hv := a))
       else if lv = Level2 \<and> MAX_DISTANCE lv \<le> d
       then Some (if agree inp a d 5 then Some (5, d) else None, htab(hv := a))
       else Some (Some (3, d), htab(hv := a)))"
      unfolding find_match_def r(1) hv bind.bind_lunit Let_def ref_def [symmetric] d_def [symmetric]
        s3 [folded a3] s2 a5 using False by (cases lv) auto
    show ?thesis unfolding fm using h
      by (cases lv) (auto simp: match_ok_def MAX_FARDISTANCE_def)
  qed
qed


lemma push_literal_at:
  assumes "lits_at lv inp ts lits ip op copy" "ip < length inp"
  shows "\<exists>ts' lits'. lits_at lv inp ts' lits' (ip + 1) (fst (push_literal (inp ! ip) op copy))
     (snd (push_literal (inp ! ip) op copy))"
proof -
  obtain out where o: "foldo expand ts [] = Some out" "out @ lits = take ip inp"
    using assms by (auto simp: lits_at_def)
  have o': "out @ (lits @ [inp ! ip]) = take (Suc ip) inp"
    using o(2) assms(2) by (simp add: take_Suc_conv_app_nth flip: append_assoc)
  show ?thesis
  proof (cases "copy + 1 = MAX_COPY")
    case True
    then have "lits_at lv inp (ts @ [Lit (lits @ [inp ! ip])]) [] (ip + 1) (op @ [inp ! ip, of_nat (MAX_COPY - 1)]) 0"
      using assms o o' by (auto simp: lits_at_def foldo_snoc MAX_COPY_def)
    with True show ?thesis by (auto simp: push_literal_def)
  next
    case False
    then have "lits_at lv inp ts (lits @ [inp ! ip]) (ip + 1) (op @ [inp ! ip]) (copy + 1)"
      using assms o o' by (auto simp: lits_at_def)
    with False show ?thesis by (auto simp: push_literal_def)
  qed
qed

lemma leftover_at:
  assumes "lits_at lv inp ts lits ip op copy" "leftover (drop ip inp) op copy = (op', copy')"
  shows "\<exists>ts' lits'. lits_at lv inp ts' lits' (length inp) op' copy'"
  using assms
proof (induction "drop ip inp" arbitrary: ip ts lits op copy)
  case Nil
  then have "ip = length inp" by (simp add: lits_at_def)
  with Nil show ?case by auto
next
  case (Cons b bs)
  have dr: "drop ip inp = b # bs" using Cons.hyps(2) by simp
  have ip: "ip < length inp" "inp ! ip = b" using dr nth_via_drop [OF dr] by (auto intro: ccontr)
  obtain op1 copy1 where p: "push_literal b op copy = (op1, copy1)" by fastforce
  obtain ts' lits' where "lits_at lv inp ts' lits' (Suc ip) op1 copy1"
    using push_literal_at [OF Cons.prems(1) ip(1)] p ip(2) by auto
  moreover have "leftover (drop (Suc ip) inp) op1 copy1 = (op', copy')"
    using Cons.prems(2) p by (simp add: dr drop_Suc_cons [OF dr])
  ultimately show ?case using Cons.hyps(1) drop_Suc_cons [OF dr] by blast
qed

lemma close_copy_at:
  assumes "lits_at lv inp ts lits ip op copy"
  shows "close_copy op copy = concat (map (tok_bytes lv) (close_toks ts lits))"
    "\<forall>t \<in> set (close_toks ts lits). tok_valid lv t"
    "foldo expand (close_toks ts lits) [] = Some (take ip inp)"
    "length (close_copy op copy) \<le> length op"
    "copy = 0 \<Longrightarrow> length (close_copy op copy) + 1 = length op"
  using assms
  by (auto simp: lits_at_def close_copy_def close_toks_def foldo_snoc butlast_append list_update_append
      Suc_le_eq simp del: of_nat_diff)


lemma emit_match_toks:
  assumes "1 \<le> d"
  shows "emit_match lv len (d - 1) = concat (map (tok_bytes lv) (match_toks lv len d))"
proof (cases lv)
  case Level1
  have "emit_match1 len (d - 1) = concat (map (tok_bytes Level1) (match_toks Level1 len d))"
  proof (induction len rule: less_induct)
    case (less len)
    show ?case
    proof (cases "262 < len")
      case True
      have "emit_match1 len (d - 1) = emit_match1 260 (d - 1) @ emit_match1 (len - 262) (d - 1)"
        using True by (subst emit_match1.simps) (simp add: MAX_LEN_def emit1_long)
      with True less.IH [of "len - 262"] show ?thesis
        by (simp add: match_toks.simps(2) [of len] emit_match_def)
    next
      case False
      then show ?thesis by (simp add: match_toks.simps(2) [of len] emit_match_def)
    qed
  qed
  with Level1 show ?thesis by (simp add: emit_match_def)
qed (simp add: emit_match_def)

lemma match_toks_expand:
  assumes "agree inp a d (len + 2)"
  shows "foldo expand (match_toks lv len d) (take a inp) = Some (take (a + len + 2) inp)"
proof (cases lv)
  case Level1
  have "foldo expand (match_toks Level1 len d) (take a inp) = Some (take (a + len + 2) inp)"
    using assms
  proof (induction len arbitrary: a rule: less_induct)
    case (less len)
    show ?case
    proof (cases "262 < len")
      case True
      have "agree inp a d 262" using less.prems True by (auto intro: agree_mono)
      then have e: "expand (Copy 262 d) (take a inp) = Some (take (a + 262) inp)" by (rule expand_agree)
      have "agree inp (a + 262) d (len - 262 + 2)"
        using less.prems True by (auto simp: agree_def add.assoc dest: spec [of _ "262 + _"])
      from less.IH [OF _ this] True e show ?thesis
        by (simp add: match_toks.simps(2) [of len] del: expand.simps)
    next
      case False
      then show ?thesis
        using expand_agree [OF less.prems]
        by (simp add: match_toks.simps(2) [of len] add.assoc del: expand.simps)
    qed
  qed
  with Level1 show ?thesis by simp
next
  case Level2
  then show ?thesis using expand_agree [OF assms] by (simp add: add.assoc del: expand.simps)
qed

lemma match_toks_valid:
  assumes "1 \<le> len" "1 \<le> d" "lv = Level1 \<longrightarrow> d < 8192" "d < MAX_FARDISTANCE" "len + 2 < 2 ^ 31"
  shows "\<forall>t \<in> set (match_toks lv len d). tok_valid lv t"
proof (cases lv)
  case Level1
  have "\<forall>t \<in> set (match_toks Level1 len d). tok_valid Level1 t" using assms(1)
  proof (induction len rule: less_induct)
    case (less len)
    show ?case
    proof (cases "262 < len")
      case True
      with less.IH [of "len - 262"] assms Level1 show ?thesis
        by (simp add: match_toks.simps(2) [of len] MAX_LEN_def)
    next
      case False
      with less assms Level1 show ?thesis by (simp add: match_toks.simps(2) [of len] MAX_LEN_def)
    qed
  qed
  with Level1 show ?thesis by simp
next
  case Level2
  then show ?thesis using assms by simp
qed

lemma length_emit_length: "length (emit_length k) \<le> k div 255 + 1"
proof (induction k rule: emit_length.induct)
  case (1 k)
  then show ?case by (subst emit_length.simps) (auto simp: le_div_geq)
qed

lemma length_emit1: "1 \<le> len \<Longrightarrow> length (emit_match1 len d) \<le> (if len < 7 then 2 else 3 + 3 * (len div 262))"
proof (induction len rule: less_induct)
  case (less len)
  show ?case
  proof (cases "262 < len")
    case True
    then have "1 \<le> len - 262" by simp
    with less.IH [of "len - 262"] True
    have "length (emit_match1 (len - 262) d) \<le> 3 + 3 * ((len - 262) div 262)"
      by (auto split: if_splits)
    with True show ?thesis by (subst emit_match1.simps) (simp add: MAX_LEN_def le_div_geq)
  next
    case False
    then show ?thesis by (subst emit_match1.simps) (auto simp: MAX_LEN_def)
  qed
qed

lemma length_emit_match:
  assumes "1 \<le> len" "lv = Level2 \<and> 8191 \<le> d \<longrightarrow> 3 \<le> len"
  shows "32 * (length (emit_match lv len d) + 1) \<le> 33 * (len + 2)"
proof (cases lv)
  case Level1
  have "3 * (len div 262) \<le> len" by simp
  with length_emit1 [OF assms(1), of d] Level1 assms(1) show ?thesis
    by (simp add: emit_match_def split: if_splits)
next
  case Level2
  have "(len - 7) div 255 * 255 \<le> len" by (metis div_times_less_eq_dividend diff_le_self order_trans)
  with length_emit_length [of "len - 7"] Level2 assms show ?thesis
    by (auto simp: emit_match_def emit2_eq dist_bytes_def)
qed


lemma literal_step_inv:
  assumes "\<exists>ts lits. lits_at lv inp ts lits (e_ip e) (e_op e) (e_copy e)" "2 \<le> e_ip e"
    "\<forall>h. e_htab e h \<le> e_ip e" "e_ip e < length inp"
  shows "\<exists>e'. literal_step inp e = Some e' \<and> enc_inv lv inp e' \<and> e_ip e < e_ip e'"
proof -
  obtain ts lits where "lits_at lv inp ts lits (e_ip e) (e_op e) (e_copy e)" using assms(1) by blast
  from push_literal_at [OF this assms(4)] assms show ?thesis
    by (auto simp: literal_step_def enc_inv_def Let_def le_imp_less_Suc split: prod.splits) blast
qed

lemma op_size_step:
  "32 * (x + 1) \<le> 33 * (k + 2) \<Longrightarrow> 32 * y + c \<le> 33 * a + 32 \<Longrightarrow> z \<le> y \<Longrightarrow>
     32 * (z + x + 1) \<le> 33 * (a + k + 2) + (32 :: nat)"
  by simp

lemma match_step_inv:
  assumes at: "lits_at lv inp ts lits (e_ip e) (e_op e) (e_copy e)" and ip: "2 \<le> e_ip e" "e_ip e + 12 < length inp"
    and ht: "\<forall>h. e_htab e h \<le> e_ip e" and ok: "match_ok lv inp (e_ip e) len d"
    and past: "lv = Level1 \<or> past \<noteq> None" and sz: "length inp < 2 ^ 31"
  shows "\<exists>e'. match_step lv inp past len d e = Some e' \<and> enc_inv lv inp e' \<and> e_ip e < e_ip e'"
proof -
  let ?a = "e_ip e"
  have ag: "agree inp ?a d len" and len: "len = 3 \<or> len = 5" and l3: "lv = Level1 \<Longrightarrow> len = 3"
    and dd: "lv = Level1 \<longrightarrow> d < 8192" "d < MAX_FARDISTANCE" "lv = Level2 \<and> 8191 \<le> d - 1 \<longrightarrow> len = 5"
    using ok by (auto simp: match_ok_def)
  obtain ip where ip': "extend_match inp ?a len d = Some ip" "?a + len < ip" "ip \<le> length inp"
      "len = 3 \<longrightarrow> ip + 2 \<le> length inp" "agree inp ?a d (ip - 1 - ?a)"
    using extend_match_agree [OF ag ip(2) len] by blast
  define k where "k = ip - 3 - ?a"
  have k: "ip - 3 = ?a + k" "1 \<le> k" "len \<le> k + 2" "ip - 1 - ?a = k + 2" "?a + k + 3 = ip"
    using ip' len by (auto simp: k_def)
  have agk: "agree inp ?a d (k + 2)" using ip'(5) k by simp
  have d1: "1 \<le> d" using agk by (simp add: agree_def)
  obtain h1 where h1: "HASH_FUNCTION inp past (?a + k) = Some h1"
    using HASH_in [of "?a + k" inp past] ip' k by auto
  have "\<exists>h. HASH_FUNCTION inp past (?a + k + 1) = Some h"
  proof (cases "?a + k + 3 < length inp")
    case True
    then show ?thesis using HASH_in [of "?a + k + 1" inp past] by simp
  next
    case False
    with ip' k have "?a + k + 1 + 2 = length inp" "len \<noteq> 3" by auto
    with l3 past show ?thesis using HASH_edge by blast
  qed
  then obtain h2 where h2: "HASH_FUNCTION inp past (?a + k + 1) = Some h2" by blast
  define toks where "toks = close_toks ts lits @ match_toks lv k d"
  define op where "op = close_copy (e_op e) (e_copy e) @ emit_match lv k (d - 1)"
  note cl = close_copy_at [OF at]
  have opt: "op = concat (map (tok_bytes lv) toks)"
    unfolding op_def toks_def emit_match_toks [OF d1] cl(1) by simp
  have ex: "foldo expand toks [] = Some (take (?a + k + 2) inp)"
    unfolding toks_def using cl(3) match_toks_expand [OF agk] by (simp add: foldo_append)
  have va: "\<forall>t \<in> set toks. tok_valid lv t"
    unfolding toks_def using cl(2) match_toks_valid [OF k(2) d1 dd(1,2)] ip' k sz by auto
  have "32 * (length (emit_match lv k (d - 1)) + 1) \<le> 33 * (k + 2)"
    using k dd by (intro length_emit_match) auto
  moreover have "32 * length (e_op e) + e_copy e \<le> 33 * ?a + 32"
    using at unfolding lits_at_def by blast
  ultimately have "32 * (length op + 1) \<le> 33 * (?a + k + 2) + 32"
    using cl(4) unfolding op_def length_append by (rule op_size_step)
  then have "lits_at lv inp toks [] (?a + k + 2) (op @ [of_nat (MAX_COPY - 1)]) 0"
    using opt ex va ip' k by (simp add: lits_at_def MAX_COPY_def)
  moreover have "match_step lv inp past len d e = Some \<lparr>e_ip = ?a + k + 2, e_op = op @ [of_nat (MAX_COPY - 1)],
      e_htab = (e_htab e)(h1 := ?a + k, h2 := ?a + k + 1), e_copy = 0\<rparr>"
    unfolding match_step_def Let_def ip'(1) bind.bind_lunit k(1) h1 h2 by (simp add: op_def)
  moreover have "\<forall>h. ((e_htab e)(h1 := ?a + k, h2 := ?a + k + 1)) h < ?a + k + 2"
    using ht by (auto simp: le_imp_less_Suc intro: le_less_trans)
  ultimately show ?thesis using ip by (auto simp: enc_inv_def)
qed

lemma main_step_flz_inv:
  assumes "enc_inv lv inp e" "e_ip e + 12 < length inp" "lv = Level1 \<or> past \<noteq> None" "length inp < 2 ^ 31"
  shows "\<exists>e'. main_step_flz lv inp past e = Some e' \<and> enc_inv lv inp e' \<and> e_ip e < e_ip e'"
proof -
  obtain ts lits where at: "lits_at lv inp ts lits (e_ip e) (e_op e) (e_copy e)"
    using assms(1) by (auto simp: enc_inv_def)
  have i: "2 \<le> e_ip e" "\<forall>h. e_htab e h < e_ip e" using assms(1) by (auto simp: enc_inv_def)
  obtain mo htab where f: "find_match lv inp past (e_htab e) (e_ip e) = Some (mo, htab)"
    "\<forall>h. htab h \<le> e_ip e" "\<forall>len d. mo = Some (len, d) \<longrightarrow> match_ok lv inp (e_ip e) len d"
    using find_match_in [OF i(1) assms(2) i(2)] by blast
  let ?e = "e\<lparr>e_htab := htab\<rparr>"
  show ?thesis
  proof (cases mo)
    case None
    have "\<exists>e'. literal_step inp ?e = Some e' \<and> enc_inv lv inp e' \<and> e_ip ?e < e_ip e'"
      using at i f assms(2) by (intro literal_step_inv) auto
    with None f show ?thesis by (simp add: main_step_flz_def)
  next
    case (Some p)
    obtain len d where p: "p = (len, d)" by fastforce
    have "\<exists>e'. match_step lv inp past len d ?e = Some e' \<and> enc_inv lv inp e' \<and> e_ip ?e < e_ip e'"
      using at i f assms Some p by (intro match_step_inv) auto
    with Some p f show ?thesis by (simp add: main_step_flz_def)
  qed
qed

lemma main_loop_inv:
  assumes "enc_inv lv inp e" "lv = Level1 \<or> past \<noteq> None" "length inp < 2 ^ 31"
  shows "\<exists>e'. main_loop lv inp past e = Some e' \<and> enc_inv lv inp e'"
  using assms
proof (induction "length inp - e_ip e" arbitrary: e rule: less_induct)
  case less
  show ?case
  proof (cases "e_ip e + 12 < length inp")
    case True
    obtain e' where e': "main_step_flz lv inp past e = Some e'" "enc_inv lv inp e'" "e_ip e < e_ip e'"
      using main_step_flz_inv [OF less.prems(1) True less.prems(2,3)] by blast
    with less.hyps [of e'] less.prems True show ?thesis by (subst main_loop.simps) auto
  next
    case False
    with less.prems show ?thesis by (subst main_loop.simps) auto
  qed
qed


lemma enc_start:
  assumes "4 \<le> length inp"
  shows "enc_inv lv inp \<lparr>e_ip = 2, e_op = [of_nat (MAX_COPY - 1), inp ! 0, inp ! 1],
       e_htab = (\<lambda>_. 0), e_copy = 2\<rparr>"
proof -
  have "take 2 inp = [inp ! 0, inp ! 1]"
    using assms by (cases inp; cases "tl inp") (auto simp: numeral_2_eq_2)
  then have "lits_at lv inp [] [inp ! 0, inp ! 1] 2 [of_nat (MAX_COPY - 1), inp ! 0, inp ! 1] 2"
    using assms by (simp add: lits_at_def MAX_COPY_def)
  then show ?thesis by (auto simp: enc_inv_def)
qed

lemma compress_tokens:
  assumes "4 \<le> length inp" "length inp < 2 ^ 31" "lv = Level1 \<or> past \<noteq> None"
  shows "\<exists>ts op. compress_level lv past inp =
       Some (if lv = Level2 then op[0 := op ! 0 OR push_bit 5 1] else op) \<and>
     op = concat (map (tok_bytes lv) ts) \<and> (\<forall>t \<in> set ts. tok_valid lv t) \<and>
     foldo expand ts [] = Some inp \<and> 32 * length op \<le> 33 * length inp + 32"
proof -
  obtain e where e: "main_loop lv inp past \<lparr>e_ip = 2, e_op = [of_nat (MAX_COPY - 1), inp ! 0, inp ! 1],
       e_htab = (\<lambda>_. 0), e_copy = 2\<rparr> = Some e" "enc_inv lv inp e"
    using main_loop_inv [OF enc_start [OF assms(1)] assms(3,2)] by blast
  obtain op copy where l: "leftover (drop (e_ip e) inp) (e_op e) (e_copy e) = (op, copy)" by fastforce
  obtain ts lits where "lits_at lv inp ts lits (e_ip e) (e_op e) (e_copy e)"
    using e(2) by (auto simp: enc_inv_def)
  from leftover_at [OF this l] obtain ts lits where at: "lits_at lv inp ts lits (length inp) op copy" by blast
  note cl = close_copy_at [OF at]
  have "compress_level lv past inp = Some (if lv = Level2 then (close_copy op copy)[0 := close_copy op copy ! 0 OR push_bit 5 1]
      else close_copy op copy)"
    using assms(1) by (simp add: compress_level_def Let_def e(1) l del: One_nat_def)
  moreover have "32 * length op + copy \<le> 33 * length inp + 32" using at unfolding lits_at_def by blast
  then have "32 * length (close_copy op copy) \<le> 33 * length inp + 32" using cl(4) by linarith
  ultimately show ?thesis using cl(1-3) by auto
qed

lemma first_literal:
  assumes "foldo expand ts [] = Some out" "out \<noteq> []" "\<forall>t \<in> set ts. tok_valid lv t"
  obtains bs ts' where "ts = Lit bs # ts'" "1 \<le> length bs" "length bs \<le> 32"
proof (cases ts)
  case Nil
  with assms show thesis by simp
next
  case (Cons t ts')
  with assms that show thesis by (cases t) (auto simp: MAX_COPY_def bind_eq_Some_conv split: if_splits)
qed

lemma marker_byte:
  assumes "k < 32"
  shows "unat ((of_nat k :: u8) AND 31) = k" "unat ((of_nat k OR 32 :: u8) AND 31) = k"
    "unat (drop_bit 5 (of_nat k :: u8)) = 0" "unat (drop_bit 5 (of_nat k OR 32 :: u8)) = 1"
proof -
  have "k \<in> set [0..<32]" using assms by simp
  then have "unat ((of_nat k :: u8) AND 31) = k \<and> unat ((of_nat k OR 32 :: u8) AND 31) = k \<and>
    unat (drop_bit 5 (of_nat k :: u8)) = 0 \<and> unat (drop_bit 5 (of_nat k OR 32 :: u8)) = 1"
    by (simp add: upt_rec) (elim disjE; simp)
  then show "unat ((of_nat k :: u8) AND 31) = k" "unat ((of_nat k OR 32 :: u8) AND 31) = k"
    "unat (drop_bit 5 (of_nat k :: u8)) = 0" "unat (drop_bit 5 (of_nat k OR 32 :: u8)) = 1"
    by auto
qed


lemma dec_start:
  assumes v: "\<forall>t \<in> set (Lit bs # ts). tok_valid lv t"
    and e: "foldo expand (Lit bs # ts) [] = Some out" and mx: "length out \<le> maxout"
    and c: "unat (c AND 31) = length bs - 1"
  shows "decompress_level lv (c # bs @ concat (map (tok_bytes lv) ts)) maxout = Done out"
proof -
  let ?inp = "c # bs @ concat (map (tok_bytes lv) ts)"
  have o: "foldo expand ts bs = Some out" using e by simp
  have b: "1 \<le> length bs" "length bs \<le> 32" using v by (auto simp: MAX_COPY_def)
  have "dec_loop lv ?inp maxout 1 (unat (of_nat (length bs - 1) :: u8)) [] = next_dec lv ?inp maxout (1 + length bs) bs"
    using v expands_length [OF o] mx by (intro dec_token [where t = "Lit bs" and rest = "concat (map (tok_bytes lv) ts)"]) auto
  moreover have "unat (of_nat (length bs - 1) :: u8) = length bs - 1" using b by (intro unat_of_nat_u8) auto
  moreover have "next_dec lv ?inp maxout (1 + length bs) bs = Done out"
    using v o mx by (intro dec_tokens) auto
  ultimately show ?thesis by (simp add: decompress_level_def c)
qed

lemma compress_roundtrip_long:
  assumes "4 \<le> length inp" "length inp < 2 ^ 31" "lv = Level1 \<or> past \<noteq> None"
  shows "\<exists>out. compress_level lv past inp = Some out \<and>
     32 * length out \<le> 33 * length inp + 32 \<and> out \<noteq> [] \<and>
     (\<forall>maxout. length inp \<le> maxout \<longrightarrow> fastlz_decompress out maxout = Done inp)"
proof -
  obtain ts op where c: "compress_level lv past inp =
       Some (if lv = Level2 then op[0 := op ! 0 OR push_bit 5 1] else op)"
     and op: "op = concat (map (tok_bytes lv) ts)" and v: "\<forall>t \<in> set ts. tok_valid lv t"
     and e: "foldo expand ts [] = Some inp" and sz: "32 * length op \<le> 33 * length inp + 32"
    using compress_tokens [OF assms] by blast
  have "inp \<noteq> []" using assms(1) by auto
  then obtain bs ts' where ts: "ts = Lit bs # ts'" "1 \<le> length bs" "length bs \<le> 32"
    using first_literal [OF e _ v] by blast
  have k: "length bs - 1 < 32" using ts by simp
  note mb = marker_byte [OF k]
  define h :: u8 where "h = (if lv = Level2 then of_nat (length bs - 1) OR 32 else of_nat (length bs - 1))"
  define out where "out = h # bs @ concat (map (tok_bytes lv) ts')"
  have o: "(if lv = Level2 then op[0 := op ! 0 OR push_bit 5 1] else op) = out"
    unfolding op ts out_def h_def by (simp del: of_nat_diff)
  have h: "unat (h AND 31) = length bs - 1" "unat (drop_bit 5 h) = (if lv = Level2 then 1 else 0)"
    unfolding h_def using mb by (simp_all del: of_nat_diff)
  have "fastlz_decompress out maxout = decompress_level lv out maxout" for maxout
    unfolding fastlz_decompress_def out_def using h by (cases lv) simp_all
  moreover have "decompress_level lv out maxout = Done inp" if "length inp \<le> maxout" for maxout
    unfolding out_def using v e h that by (intro dec_start) (auto simp: ts)
  moreover have "length out = length op" by (simp add: op ts out_def)
  ultimately show ?thesis using c sz o by (auto simp: out_def)
qed

lemma compress_roundtrip:
  assumes "inp \<noteq> []" "length inp < 2 ^ 31" "lv = Level1 \<or> past \<noteq> None"
  shows "\<exists>out. compress_level lv past inp = Some out \<and>
     32 * length out \<le> 33 * length inp + 32 \<and> out \<noteq> [] \<and>
     (\<forall>maxout. length inp \<le> maxout \<longrightarrow> fastlz_decompress out maxout = Done inp)"
proof (cases "4 \<le> length inp")
  case True
  with assms show ?thesis by (intro compress_roundtrip_long) auto
next
  case False
  have k: "length inp - 1 < 32" using False by simp
  note mb = marker_byte [OF k]
  define out where "out = of_nat (length inp - 1) # inp"
  have c: "compress_level lv past inp = Some out"
    using False assms(1) by (simp add: compress_level_def out_def Let_def del: of_nat_diff)
  have l: "1 \<le> length inp" using assms(1) by (cases inp) auto
  have "fastlz_decompress out maxout = decompress_level Level1 out maxout" for maxout
    unfolding fastlz_decompress_def out_def using mb by (simp del: of_nat_diff)
  moreover have "decompress_level Level1 out maxout = Done inp" if "length inp \<le> maxout" for maxout
    using dec_start [of inp "[]" Level1 inp maxout "of_nat (length inp - 1)"] mb that l False
    unfolding out_def by (simp add: MAX_COPY_def del: of_nat_diff)
  ultimately show ?thesis using c l by (auto simp: out_def)
qed




lemma match_unrolled_all:
  "agree inp a d (m + k) \<Longrightarrow>
   match_unrolled inp bound k (a - d + m) (a + m) = match_scan inp bound (a - d + (m + k)) (a + (m + k))"
proof (induction k arbitrary: m)
  case (Suc k)
  have "inp ! (a - d + m) = inp ! (a + m)" "a + m < length inp" "a - d + m < length inp"
    using Suc.prems by (auto simp: agree_def)
  with Suc.IH [of "Suc m"] Suc.prems show ?case by simp
qed simp

lemma extend_match_to_end:
  assumes "agree inp a d 13" "a + 13 = length inp" "d \<noteq> 1"
  shows "extend_match inp a 5 d = Some (length inp)"
proof -
  have "d - 1 \<noteq> 0" using assms by (auto simp: agree_def)
  then have "extend_match inp a 5 d = match_scan inp (length inp - 2) (a - d + 13) (a + 13)"
    using match_unrolled_all [of inp a d 5 8] assms(1) by (simp add: extend_match_def Let_def)
  moreover have "match_scan inp (length inp - 2) ref (length inp) = Some (length inp)" for ref
    by (subst match_scan.simps) (metis diff_le_self leD)
  ultimately show ?thesis using assms(2) by simp
qed

section \<open>Properties\<close>



text \<open>
  C3. Both levels are lossless, and the block fits the documented output buffer: five percent more
  than the input, and at least 66 bytes.
\<close>

theorem fastlz_level_roundtrip_bound:
  assumes "inp \<noteq> []" and "length inp < 2 ^ 31" and "level = 1 \<or> level = 2 \<and> past \<noteq> None"
  shows "\<exists>out. fastlz_compress_level level past inp = Some out \<and>
    length out \<le> max 66 (length inp + length inp div 20) \<and>
    fastlz_decompress out (length inp) = Done inp"
proof -
  define lv where "lv = (if level = 1 then Level1 else Level2)"
  have c: "fastlz_compress_level level past inp = compress_level lv past inp"
    using assms(3) by (auto simp: fastlz_compress_level_def lv_def)
  obtain out where out: "compress_level lv past inp = Some out"
      "32 * length out \<le> 33 * length inp + 32" "fastlz_decompress out (length inp) = Done inp"
    using compress_roundtrip [of inp lv past] assms by (auto simp: lv_def split: if_splits)
  have "length out \<le> max 66 (length inp + length inp div 20)" using out(2) by linarith
  with out c show ?thesis by auto
qed

theorem fastlz_level_roundtrip_bound_witness:
  "\<exists>out. fastlz_compress_level 2 (Some 0) [7, 7, 7, 7, 7] = Some out \<and> length out \<le> 66"
  using fastlz_level_roundtrip_bound [of "[7, 7, 7, 7, 7]" 2 "Some 0"] by auto



text \<open>
  The bound checks of the decompressor do not cover the operand bytes of a match: a block that
  ends in a match instruction makes it read behind its input.
\<close>

theorem decompress_truncated_match_overreads:
  "fastlz_decompress [0, 65, 224] 100 = Overread"
  by (simp add: fastlz_decompress_def decompress_level_def dec_loop.simps read_match_def Let_def)

text \<open>
  Level 2 reads one byte behind its input when a far match of thirteen bytes ends with it:
  the second hash update after the match then starts two bytes before the end.
\<close>

theorem level2_hash_reads_past_input:
  assumes "e_ip e + 13 = length inp" and "agree inp (e_ip e) d 13" and "MAX_DISTANCE Level2 \<le> d"
  shows "match_step Level2 inp None 5 d e = None"
proof -
  have "extend_match inp (e_ip e) 5 d = Some (length inp)"
    using assms by (intro extend_match_to_end) auto
  moreover have "HASH_FUNCTION inp None (length inp - 3 + 1) = None"
    using assms(1) by (simp add: HASH_FUNCTION_def READU16_def peek_def)
  ultimately show ?thesis by (auto simp: match_step_def Let_def bind_eq_None_conv)
qed

lemma agree_replicate: "1 \<le> d \<Longrightarrow> d \<le> a \<Longrightarrow> a + m \<le> n \<Longrightarrow> agree (replicate n x) a d m"
  by (simp add: agree_def)

theorem level2_hash_reads_past_input_witness:
  "match_step Level2 (replicate 9013 0) None 5 8500
     \<lparr>e_ip = 9000, e_op = [], e_htab = (\<lambda>_. 0), e_copy = 0\<rparr> = None"
  by (rule level2_hash_reads_past_input) (simp_all add: agree_replicate)

end
