(* ===== verification/Adler32.thy ===== *)
theory Adler32
  imports Prelude
begin

text \<open>
  The Adler-32 checksum of \<open>archivers/fastlz/6pack.c\<close> and \<open>6unpack.c\<close> (the same function in both):
  sums kept in 32-bit words, eight bytes per turn of the inner loop, and one reduction modulo
  65521 per 5552 bytes. The specification is RFC 1950's: a reduction after every byte.
\<close>

section \<open>Definitions\<close>

definition ADLER32_BASE :: u32 where
  "ADLER32_BASE = 65521"

type_synonym sums = "u32 \<times> u32"

definition adler_byte :: "u8 \<Rightarrow> sums \<Rightarrow> sums" where
  "adler_byte b s = (case s of (s1, s2) \<Rightarrow> let s1 = s1 + ucast b; s2 = s2 + s1 in (s1, s2))"

text \<open>\<open>while(k >= 8)\<close> and then \<open>while(k-- > 0)\<close>.\<close>

fun adler_tail :: "u8 list \<Rightarrow> sums \<Rightarrow> sums" where
  "adler_tail [] s = s"
| "adler_tail (b # bs) s = adler_tail bs (adler_byte b s)"

function adler_inner :: "u8 list \<Rightarrow> sums \<Rightarrow> sums" where
  "adler_inner bs s =
     (if 8 \<le> length bs then
        adler_inner (drop 8 bs)
          (adler_byte (bs ! 7) (adler_byte (bs ! 6) (adler_byte (bs ! 5) (adler_byte (bs ! 4)
          (adler_byte (bs ! 3) (adler_byte (bs ! 2) (adler_byte (bs ! 1) (adler_byte (bs ! 0) s))))))))
      else adler_tail bs s)"
  by pat_completeness auto
termination
  by (relation "measure (length \<circ> fst)") auto

function adler_loop :: "u8 list \<Rightarrow> sums \<Rightarrow> sums" where
  "adler_loop buf s =
     (if buf \<noteq> [] then
        (let k = (if length buf < 5552 then length buf else 5552);
             (s1, s2) = adler_inner (take k buf) s
         in adler_loop (drop k buf) (s1 mod ADLER32_BASE, s2 mod ADLER32_BASE))
      else s)"
  by pat_completeness auto
termination
  by (relation "measure (length \<circ> fst)") auto

definition update_adler32 :: "u32 \<Rightarrow> u8 list \<Rightarrow> u32" where
  "update_adler32 checksum buf =
     (let s1 = checksum AND 0xffff;
          s2 = drop_bit 16 checksum AND 0xffff;
          (s1, s2) = adler_loop buf (s1, s2)
      in push_bit 16 s2 + s1)"

text \<open>The specification, on unbounded numbers.\<close>

fun adler_spec :: "u8 list \<Rightarrow> nat \<times> nat \<Rightarrow> nat \<times> nat" where
  "adler_spec [] s = s"
| "adler_spec (b # bs) (a, c) =
     (let a = (a + unat b) mod 65521 in adler_spec bs (a, (c + a) mod 65521))"

definition adler_value :: "nat \<times> nat \<Rightarrow> nat" where
  "adler_value s = snd s * 65536 + fst s"

definition adler_of :: "u8 list \<Rightarrow> nat" where
  "adler_of bs = adler_value (adler_spec bs (1, 0))"

declare adler_inner.simps [simp del] adler_loop.simps [simp del]

section \<open>Lemmas\<close>

lemma adler_tail_append: "adler_tail (xs @ ys) s = adler_tail ys (adler_tail xs s)"
  by (induction xs arbitrary: s) auto

lemma take_8: "8 \<le> length bs \<Longrightarrow>
  take 8 bs = [bs ! 0, bs ! 1, bs ! 2, bs ! 3, bs ! 4, bs ! 5, bs ! 6, bs ! 7]"
  by (rule nth_equalityI) (auto simp: less_Suc_eq numeral_eq_Suc)

lemma adler_inner_tail: "adler_inner bs s = adler_tail bs s"
proof (induction bs s rule: adler_inner.induct)
  case (1 bs s)
  show ?case
  proof (cases "8 \<le> length bs")
    case True
    have "adler_tail bs s = adler_tail (drop 8 bs) (adler_tail (take 8 bs) s)"
      by (simp flip: adler_tail_append)
    with 1 True show ?thesis by (subst adler_inner.simps) (simp add: take_8)
  next
    case False
    then show ?thesis by (subst adler_inner.simps) simp
  qed
qed

text \<open>The sums without any reduction.\<close>

fun raw_sums :: "u8 list \<Rightarrow> nat \<times> nat \<Rightarrow> nat \<times> nat" where
  "raw_sums [] s = s"
| "raw_sums (b # bs) (a, c) = raw_sums bs (a + unat b, c + (a + unat b))"

lemma raw_sums_bound:
  assumes "raw_sums bs (a, c) = (a', c')"
  shows "a' \<le> a + 255 * length bs \<and>
    c' \<le> c + length bs * a + 255 * (length bs * (length bs + 1) div 2)"
  using assms
proof (induction bs arbitrary: a c)
  case (Cons b bs)
  let ?n = "length bs"
  have b: "unat b \<le> 255" using unat_u8_less [of b] by simp
  have "a' \<le> (a + unat b) + 255 * ?n \<and>
    c' \<le> (c + (a + unat b)) + ?n * (a + unat b) + 255 * (?n * (?n + 1) div 2)"
    using Cons.IH [of "a + unat b" "c + (a + unat b)"] Cons.prems by simp
  moreover have "(?n + 1) * unat b \<le> (?n + 1) * 255" using b by (rule mult_le_mono2)
  moreover have "Suc ?n * (Suc ?n + 1) div 2 = ?n * (?n + 1) div 2 + (?n + 1)"
  proof -
    have "Suc ?n * (Suc ?n + 1) = ?n * (?n + 1) + 2 * (?n + 1)" by (simp add: algebra_simps)
    then show ?thesis by simp
  qed
  ultimately show ?case using b by (simp add: algebra_simps)
qed simp

lemma raw_sums_fit:
  assumes "raw_sums bs (a, c) = (a', c')" "a < 65536" "c < 65536" "length bs \<le> 5552"
  shows "a' < 2 ^ 32" "c' < 2 ^ 32"
proof -
  let ?n = "length bs"
  note b = raw_sums_bound [OF assms(1)]
  have "?n * a \<le> 5552 * 65535" using assms by (intro mult_le_mono) auto
  moreover have "?n * (?n + 1) \<le> 5552 * 5553" using assms by (intro mult_le_mono) auto
  then have "255 * (?n * (?n + 1) div 2) \<le> 255 * 15415128" by simp
  ultimately show "c' < 2 ^ 32" using b assms by simp
  show "a' < 2 ^ 32" using b assms by simp
qed

lemma adler_tail_raw:
  "adler_tail bs (of_nat a, of_nat c) =
     (of_nat (fst (raw_sums bs (a, c))), of_nat (snd (raw_sums bs (a, c))))"
proof (induction bs arbitrary: a c)
  case (Cons b bs)
  have "ucast b = (of_nat (unat b) :: u32)" by simp
  then have "adler_byte b (of_nat a, of_nat c) = (of_nat (a + unat b), of_nat (c + (a + unat b)))"
    by (simp add: adler_byte_def Let_def)
  then show ?case by (simp only: adler_tail.simps raw_sums.simps Cons.IH)
qed simp

lemma adler_spec_mod:
  "adler_spec bs (a mod 65521, c mod 65521) =
     (fst (raw_sums bs (a, c)) mod 65521, snd (raw_sums bs (a, c)) mod 65521)"
proof (induction bs arbitrary: a c)
  case (Cons b bs)
  have "(a mod 65521 + unat b) mod 65521 = (a + unat b) mod 65521" by (simp add: mod_add_left_eq)
  moreover have "(c mod 65521 + (a + unat b) mod 65521) mod 65521 = (c + (a + unat b)) mod 65521"
    by (simp add: mod_add_eq)
  ultimately show ?case using Cons.IH [of "a + unat b" "c + (a + unat b)"] by (simp add: Let_def)
qed simp

lemma adler_spec_append: "adler_spec (xs @ ys) s = adler_spec ys (adler_spec xs s)"
  by (induction xs s rule: adler_spec.induct) (auto simp: Let_def)

lemma adler_spec_reduced:
  "a < 65521 \<Longrightarrow> c < 65521 \<Longrightarrow> fst (adler_spec bs (a, c)) < 65521 \<and> snd (adler_spec bs (a, c)) < 65521"
  using adler_spec_mod [of bs a c] by simp

lemma mod_base: "x < 2 ^ 32 \<Longrightarrow> (of_nat x :: u32) mod ADLER32_BASE = of_nat (x mod 65521)"
  by (rule word_unat_eq_iff [THEN iffD2]) (simp add: ADLER32_BASE_def unat_mod unat_of_nat)

lemma adler_loop_spec:
  assumes "a < 65521" "c < 65521"
  shows "adler_loop buf (of_nat a, of_nat c) =
    (of_nat (fst (adler_spec buf (a, c))), of_nat (snd (adler_spec buf (a, c))))"
  using assms
proof (induction "length buf" arbitrary: buf a c rule: less_induct)
  case less
  show ?case
  proof (cases "buf = []")
    case True
    then show ?thesis by (subst adler_loop.simps) simp
  next
    case False
    define k where "k = (if length buf < 5552 then length buf else 5552)"
    obtain a' c' where r: "raw_sums (take k buf) (a, c) = (a', c')" by fastforce
    have k: "length (take k buf) \<le> 5552" "0 < k" using False by (auto simp: k_def)
    have f: "a' < 2 ^ 32" "c' < 2 ^ 32"
      using raw_sums_fit [OF r _ _ k(1)] less.prems by auto
    have s: "adler_spec (take k buf) (a, c) = (a' mod 65521, c' mod 65521)"
      using adler_spec_mod [of "take k buf" a c] less.prems r by simp
    have "adler_loop buf (of_nat a, of_nat c) = adler_loop (drop k buf) (of_nat (a' mod 65521), of_nat (c' mod 65521))"
      using False f by (subst adler_loop.simps)
        (simp add: adler_inner_tail adler_tail_raw r mod_base flip: k_def)
    also have "\<dots> = (of_nat (fst (adler_spec (drop k buf) (a' mod 65521, c' mod 65521))),
        of_nat (snd (adler_spec (drop k buf) (a' mod 65521, c' mod 65521))))"
      using k False by (intro less.hyps) auto
    also have "adler_spec (drop k buf) (a' mod 65521, c' mod 65521) = adler_spec buf (a, c)"
      using adler_spec_append [of "take k buf" "drop k buf" "(a, c)"] s by simp
    finally show ?thesis .
  qed
qed

lemma pack_sums:
  assumes "a < 65536" "c < 65536"
  shows "push_bit 16 (of_nat c :: u32) + of_nat a = of_nat (adler_value (a, c))"
  by (simp add: adler_value_def push_bit_eq_mult)

lemma unpack_sums:
  assumes "a < 65536" "c < 65536"
  shows "of_nat (adler_value (a, c)) AND 0xffff = (of_nat a :: u32)"
    "drop_bit 16 (of_nat (adler_value (a, c)) :: u32) AND 0xffff = of_nat c"
proof -
  have m: "(x :: u32) AND 0xffff = x mod 65536" for x
    using take_bit_eq_mask [of 16 x] take_bit_eq_mod [of 16 x] by (simp add: mask_eq_exp_minus_1)
  have v: "adler_value (a, c) < 2 ^ 32" using assms by (simp add: adler_value_def)
  have "adler_value (a, c) mod 65536 = a" "adler_value (a, c) div 65536 = c"
    using assms by (simp_all add: adler_value_def)
  then show "of_nat (adler_value (a, c)) AND 0xffff = (of_nat a :: u32)"
    "drop_bit 16 (of_nat (adler_value (a, c)) :: u32) AND 0xffff = of_nat c"
    using assms v
    by (simp_all add: m word_unat_eq_iff unat_mod unat_of_nat drop_bit_eq_div unat_div)
qed

lemma update_adler32_spec:
  assumes "a < 65521" "c < 65521"
  shows "update_adler32 (of_nat (adler_value (a, c))) buf = of_nat (adler_value (adler_spec buf (a, c)))"
proof -
  obtain a' c' where s: "adler_spec buf (a, c) = (a', c')" by fastforce
  have "a' < 65521" "c' < 65521" using adler_spec_reduced [OF assms, of buf] s by auto
  then have "push_bit 16 (of_nat c' :: u32) + of_nat a' = of_nat (adler_value (a', c'))"
    by (intro pack_sums) auto
  then show ?thesis using assms adler_loop_spec [OF assms, of buf] s
    by (simp add: update_adler32_def unpack_sums)
qed

lemma update_adler32_1: "update_adler32 1 buf = of_nat (adler_of buf)"
  using update_adler32_spec [of 1 0 buf] by (simp add: adler_value_def adler_of_def)

lemma update_adler32_append:
  "update_adler32 (update_adler32 1 xs) ys = update_adler32 1 (xs @ ys)"
proof -
  obtain a c where s: "adler_spec xs (1, 0) = (a, c)" by fastforce
  have b: "a < 65521" "c < 65521" using adler_spec_reduced [of 1 0 xs] s by auto
  show ?thesis
    unfolding update_adler32_1 adler_of_def adler_spec_append s
    by (rule update_adler32_spec [OF b])
qed

section \<open>Properties\<close>

text \<open>
  C39. The checksum is the Adler-32 of RFC 1950: the deferred reductions (one per 5552 bytes) never
  let a 32-bit sum overflow, so the result is the one with a reduction after every byte; and a
  buffer may be fed in pieces.
\<close>

theorem update_adler32_is_adler32:
  "update_adler32 1 buf = of_nat (adler_of buf) \<and>
   update_adler32 (update_adler32 1 xs) ys = update_adler32 1 (xs @ ys)"
  using update_adler32_1 update_adler32_append by blast

end
