(* ===== verification/SixPack.thy ===== *)
theory SixPack
  imports FastLZ_Proofs Adler32
begin

text \<open>
  The archive format of \<open>archivers/fastlz/6pack.c\<close> and \<open>6unpack.c\<close>: a magic number, then chunks of a
  sixteen byte header and data, the first with the file's name and size, the others with its
  contents in blocks, compressed by FastLZ or stored. Files are byte lists, C strings are the
  bytes before the terminating zero, the file system is a map from names to contents. Progress
  output is left out. A header or a buffer that the file is too short to fill has indeterminate
  contents in C: \<open>Truncated\<close>.
\<close>

section \<open>Definitions\<close>

definition sixpack_magic :: "u8 list" where
  "sixpack_magic = [137, 54, 80, 75, 13, 10, 26, 10]"

definition BLOCK_SIZE :: nat where
  "BLOCK_SIZE = 2 * 64 * 1024"

definition detect_magic :: "u8 list \<Rightarrow> bool" where
  "detect_magic f =
     (let buffer = take 8 f in
      \<not> length buffer < 8 \<and> list_all (\<lambda>c. buffer ! c = sixpack_magic ! c) [0..<8])"

definition byte_at :: "u32 \<Rightarrow> nat \<Rightarrow> u8" where
  "byte_at w k = ucast (drop_bit (8 * k) w)"

definition le32 :: "u32 \<Rightarrow> u8 list" where
  "le32 w = [byte_at w 0, byte_at w 1, byte_at w 2, byte_at w 3]"

record chunk =
  ch_id :: u32
  ch_options :: u32
  ch_size :: u32
  ch_checksum :: u32
  ch_extra :: u32

definition write_chunk_header :: "chunk \<Rightarrow> u8 list" where
  "write_chunk_header ch =
     [byte_at (ch_id ch) 0, byte_at (ch_id ch) 1,
      byte_at (ch_options ch) 0, byte_at (ch_options ch) 1]
       @ le32 (ch_size ch) @ le32 (ch_checksum ch) @ le32 (ch_extra ch)"

subsection \<open>6pack\<close>

type_synonym fsys = "u8 list \<Rightarrow> u8 list option"

datatype pack_error = OutputExists | CantOpen | AlreadyArchive | CompressorUndefined

text \<open>The name behind the last directory separator that is not the last character.\<close>

fun shown_from :: "u8 list \<Rightarrow> nat \<Rightarrow> u8 list" where
  "shown_from path 0 = path"
| "shown_from path (Suc i) =
     (if path ! i = 47 then drop (Suc i) path else shown_from path i)"

definition shown_name :: "u8 list \<Rightarrow> u8 list" where
  "shown_name path = shown_from path (length path - 1)"

definition file_entry :: "u8 list \<Rightarrow> u32 \<Rightarrow> u8 list" where
  "file_entry name fsize =
     (let buffer = le32 fsize @ [0, 0, 0, 0]
            @ [byte_at (of_nat (length name + 1)) 0, byte_at (of_nat (length name + 1)) 1];
          checksum = update_adler32 1 buffer;
          checksum = update_adler32 checksum (name @ [0])
      in write_chunk_header \<lparr>ch_id = 1, ch_options = 0, ch_size = of_nat (10 + length name + 1),
           ch_checksum = checksum, ch_extra = 0\<rparr> @ buffer @ name @ [0])"

text \<open>
  One turn of the loop of \<open>pack_file_compressed\<close>. The compressor reads one byte behind the
  block it is given (see theory \<open>FastLZ\<close>): \<open>past\<close> is that byte, \<open>None\<close> when there is none.
\<close>

definition pack_block :: "int \<Rightarrow> int \<Rightarrow> u8 option \<Rightarrow> u8 list \<Rightarrow> u8 list option" where
  "pack_block method level past buffer =
     (let compress_method = (if length buffer < 32 then 0 else method) in
      if compress_method = 1 then
        do {
          result \<leftarrow> fastlz_compress_level level past buffer;
          let checksum = update_adler32 1 result in
          Some (write_chunk_header \<lparr>ch_id = 17, ch_options = 1, ch_size = of_nat (length result),
                  ch_checksum = checksum, ch_extra = of_nat (length buffer)\<rparr> @ result)
        }
      else
        (let checksum = update_adler32 1 buffer in
         Some (write_chunk_header \<lparr>ch_id = 17, ch_options = 0, ch_size = of_nat (length buffer),
                 ch_checksum = checksum, ch_extra = of_nat (length buffer)\<rparr> @ buffer)))"

text \<open>The loop: \<open>block n b\<close> is the chunk for the \<open>n\<close>-th block \<open>b\<close>.\<close>

function pack_blocks :: "(nat \<Rightarrow> u8 list \<Rightarrow> u8 list option) \<Rightarrow> nat \<Rightarrow> u8 list \<Rightarrow> u8 list option" where
  "pack_blocks block n f =
     (let buffer = take BLOCK_SIZE f in
      if buffer = [] then Some []
      else
        do {
          b \<leftarrow> block n buffer;
          rest \<leftarrow> pack_blocks block (Suc n) (drop BLOCK_SIZE f);
          Some (b @ rest)
        })"
  by pat_completeness auto
termination
  by (relation "measure (\<lambda>(block, n, f). length f)") (auto simp: BLOCK_SIZE_def)

definition pack_file_compressed ::
    "fsys \<Rightarrow> u8 list \<Rightarrow> int \<Rightarrow> int \<Rightarrow> (nat \<Rightarrow> u8 option) \<Rightarrow> pack_error + u8 list" where
  "pack_file_compressed fs input_file method level past =
     (case fs input_file of
        None \<Rightarrow> Inl CantOpen
      | Some contents \<Rightarrow>
          if detect_magic contents then Inl AlreadyArchive
          else
            (case pack_blocks (\<lambda>n. pack_block method level (past n)) 0 contents of
               None \<Rightarrow> Inl CompressorUndefined
             | Some blocks \<Rightarrow>
                 Inr (file_entry (shown_name input_file) (of_nat (length contents)) @ blocks)))"

text \<open>
  The output file is created, with the magic number, before the input is looked at, and stays
  when that fails.
\<close>

definition pack_file ::
    "int \<Rightarrow> (nat \<Rightarrow> u8 option) \<Rightarrow> fsys \<Rightarrow> u8 list \<Rightarrow> u8 list \<Rightarrow> pack_error option \<times> fsys" where
  "pack_file lev past fs input_file output_file =
     (case fs output_file of
        Some _ \<Rightarrow> (Some OutputExists, fs)
      | None \<Rightarrow>
          (case pack_file_compressed (fs(output_file \<mapsto> [])) input_file 1 lev past of
             Inl e \<Rightarrow> (Some e, fs(output_file \<mapsto> sixpack_magic))
           | Inr bytes \<Rightarrow> (None, fs(output_file \<mapsto> sixpack_magic @ bytes))))"

subsection \<open>6unpack\<close>

datatype unpack_error = NotArchive | ChecksumMismatch | Truncated | DecompressorUndefined

definition readU16 :: "u8 list \<Rightarrow> nat \<Rightarrow> u32" where
  "readU16 p i = ucast (p ! i) + push_bit 8 (ucast (p ! (i + 1)))"

definition readU32 :: "u8 list \<Rightarrow> nat \<Rightarrow> u32" where
  "readU32 p i = ucast (p ! i) + push_bit 8 (ucast (p ! (i + 1)))
     + push_bit 16 (ucast (p ! (i + 2))) + push_bit 24 (ucast (p ! (i + 3)))"

definition read_chunk_header :: "u8 list \<Rightarrow> chunk" where
  "read_chunk_header buffer =
     \<lparr>ch_id = readU16 buffer 0 AND 0xffff, ch_options = readU16 buffer 2 AND 0xffff,
      ch_size = readU32 buffer 4 AND 0xffffffff, ch_checksum = readU32 buffer 8 AND 0xffffffff,
      ch_extra = readU32 buffer 12 AND 0xffffffff\<rparr>"

record unp =
  u_fs :: fsys
  u_file :: "u8 list option"
  u_size :: u32

definition fwrite_out :: "u8 list \<Rightarrow> unp \<Rightarrow> unp" where
  "fwrite_out bs u =
     (case u_file u of
        None \<Rightarrow> u
      | Some name \<Rightarrow>
          u\<lparr>u_fs := (u_fs u)(name \<mapsto> (case u_fs u name of None \<Rightarrow> bs | Some old \<Rightarrow> old @ bs))\<rparr>)"

definition close_out :: "unp \<Rightarrow> unp" where
  "close_out u = u\<lparr>u_file := None\<rparr>"

text \<open>A file entry: \<open>rest\<close> is what follows the header. An existing file is not overwritten.\<close>

definition unpack_entry :: "chunk \<Rightarrow> u8 list \<Rightarrow> unp \<Rightarrow> unpack_error + unp" where
  "unpack_entry ch rest u =
     (if length rest < unat (ch_size ch) then Inl Truncated
      else
        (let buffer = take (unat (ch_size ch)) rest;
             checksum = update_adler32 1 buffer in
         if checksum \<noteq> ch_checksum ch then Inl ChecksumMismatch
         else
           (let u = u\<lparr>u_size := readU32 buffer 0\<rparr>;
                name_length = unat (readU16 buffer 8);
                name_length = (if unat (ch_size ch) - 10 < name_length then unat (ch_size ch) - 10
                               else name_length);
                name = takeWhile (\<lambda>c. c \<noteq> 0) (take name_length (drop 10 buffer)) in
            case u_fs u name of
              Some _ \<Rightarrow> Inr (u\<lparr>u_file := None\<rparr>)
            | None \<Rightarrow> Inr (u\<lparr>u_file := Some name, u_fs := (u_fs u)(name \<mapsto> [])\<rparr>))))"

text \<open>A stored block is copied piece by piece, with the checksum over the pieces.\<close>

function copy_stored :: "u8 list \<Rightarrow> nat \<Rightarrow> u32 \<Rightarrow> unp \<Rightarrow> u32 \<times> unp" where
  "copy_stored rest remaining checksum u =
     (let r = (if BLOCK_SIZE < remaining then BLOCK_SIZE else remaining);
          buffer = take r rest in
      if buffer = [] then (checksum, u)
      else copy_stored (drop r rest) (remaining - length buffer)
             (update_adler32 checksum buffer) (fwrite_out buffer u))"
  by pat_completeness auto
termination
  by (relation "measure (\<lambda>(rest, remaining, checksum, u). length rest)") (auto split: if_splits)

definition unpack_stored :: "chunk \<Rightarrow> u8 list \<Rightarrow> unp \<Rightarrow> unp" where
  "unpack_stored ch rest u =
     (let (checksum, u) = copy_stored rest (unat (ch_size ch)) 1 u in
      if checksum \<noteq> ch_checksum ch then close_out u else u)"

definition unpack_fastlz :: "chunk \<Rightarrow> u8 list \<Rightarrow> unp \<Rightarrow> unpack_error + unp" where
  "unpack_fastlz ch rest u =
     (if length rest < unat (ch_size ch) then Inl Truncated
      else
        (let compressed = take (unat (ch_size ch)) rest;
             checksum = update_adler32 1 compressed in
         if checksum \<noteq> ch_checksum ch then Inr (close_out u)
         else
           (if 2 ^ 31 \<le> unat (ch_extra ch) then Inl DecompressorUndefined else
            case fastlz_decompress compressed (unat (ch_extra ch)) of
              Done out \<Rightarrow>
                if length out \<noteq> unat (ch_extra ch) then Inr (close_out u)
                else Inr (fwrite_out out u)
            | Reject \<Rightarrow> if unat (ch_extra ch) \<noteq> 0 then Inr (close_out u) else Inr u
            | Overread \<Rightarrow> Inl DecompressorUndefined
            | Wild \<Rightarrow> Inl DecompressorUndefined)))"

definition unpack_data :: "chunk \<Rightarrow> u8 list \<Rightarrow> unp \<Rightarrow> unpack_error + unp" where
  "unpack_data ch rest u =
     (if ch_options ch = 0 then Inr (unpack_stored ch rest u)
      else if ch_options ch = 1 then unpack_fastlz ch rest u
      else Inr (close_out u))"

definition is_entry :: "chunk \<Rightarrow> bool" where
  "is_entry ch = (ch_id ch = 1 \<and> 10 < unat (ch_size ch) \<and> unat (ch_size ch) < BLOCK_SIZE)"

definition is_data :: "chunk \<Rightarrow> unp \<Rightarrow> bool" where
  "is_data ch u = (ch_id ch = 17 \<and> u_file u \<noteq> None \<and> u_size u \<noteq> 0)"

text \<open>One turn of the loop of \<open>unpack_file\<close>, behind the header that was read.\<close>

definition unpack_chunk :: "chunk \<Rightarrow> u8 list \<Rightarrow> unp \<Rightarrow> unpack_error + unp" where
  "unpack_chunk ch rest u =
     (case (if is_entry ch then unpack_entry ch rest u else Inr u) of
        Inl e \<Rightarrow> Inl e
      | Inr u \<Rightarrow> if is_data ch u then unpack_data ch rest u else Inr u)"

text \<open>
  Where the next turn starts: \<open>fseek (in, pos + 16 + chunk_size, SEEK_SET)\<close>, a sum of 32 bits
  that \<open>fseek\<close> takes as a \<open>long\<close>. A negative offset is refused and the position stays where
  the turn's reads left it.
\<close>

definition consumed :: "chunk \<Rightarrow> u8 list \<Rightarrow> unp \<Rightarrow> nat" where
  "consumed ch rest u =
     (if is_entry ch \<or> is_data ch u \<and> (ch_options ch = 0 \<or> ch_options ch = 1)
      then min (unat (ch_size ch)) (length rest) else 0)"

definition next_pos :: "nat \<Rightarrow> chunk \<Rightarrow> u8 list \<Rightarrow> unp \<Rightarrow> nat" where
  "next_pos pos ch rest u =
     (let p = of_nat pos + 16 + ch_size ch in
      if unat p < 2 ^ 31 then unat p else pos + 16 + consumed ch rest u)"

partial_function (option) unpack_loop :: "u8 list \<Rightarrow> nat \<Rightarrow> unp \<Rightarrow> (unpack_error + unp) option" where
  "unpack_loop f pos u =
     (if length f \<le> pos then Some (Inr u)
      else if length f < pos + 16 then Some (Inl Truncated)
      else
        (let ch = read_chunk_header (take 16 (drop pos f));
             rest = drop (pos + 16) f in
         case unpack_chunk ch rest u of
           Inl e \<Rightarrow> Some (Inl e)
         | Inr u' \<Rightarrow> unpack_loop f (next_pos pos ch rest u) u'))"

declare unpack_loop.simps [code]

definition unpack_file :: "u8 list \<Rightarrow> fsys \<Rightarrow> (unpack_error + fsys) option" where
  "unpack_file archive fs =
     (if \<not> detect_magic archive then Some (Inl NotArchive)
      else
        do {
          r \<leftarrow> unpack_loop archive 8 \<lparr>u_fs = fs, u_file = None, u_size = 0\<rparr>;
          Some (case r of Inl e \<Rightarrow> Inl e | Inr u \<Rightarrow> Inr (u_fs u))
        })"

declare pack_blocks.simps [simp del] copy_stored.simps [simp del]

section \<open>Lemmas\<close>

lemma ucast_byte_at: "ucast (byte_at w k) = (of_nat (unat w div 2 ^ (8 * k) mod 256) :: u32)"
proof -
  have n: "unat w < 2 ^ 32" using unsigned_less [of w] by simp
  have "unat (byte_at w k) = unat w div 2 ^ (8 * k) mod 256"
    unfolding byte_at_def unsigned_ucast_eq unsigned_drop_bit_eq
    using n by (simp add: take_bit_eq_mod drop_bit_eq_div unsigned_drop_bit_eq)
  then show ?thesis
    by (metis of_nat_unat)
qed

lemma byte_sum: "n < 2 ^ 32 \<Longrightarrow>
  n mod 256 + 256 * (n div 256 mod 256) + 65536 * (n div 65536 mod 256)
    + 16777216 * (n div 16777216 mod 256) = (n :: nat)"
proof -
  assume n: "n < 2 ^ 32"
  define a where "a = n div 256"
  define b where "b = a div 256"
  define c where "c = b div 256"
  have d: "n div 65536 = b" "n div 16777216 = c"
    by (simp_all add: a_def b_def c_def flip: div_mult2_eq)
  have "n = n mod 256 + 256 * a" "a = a mod 256 + 256 * b" "b = b mod 256 + 256 * c"
    by (simp_all add: a_def b_def c_def)
  moreover have "c < 256" using n by (simp add: d [symmetric] div_less_iff_less_mult)
  ultimately show ?thesis by (simp add: d flip: a_def)
qed

lemma readU32_at:
  assumes "length xs = i"
  shows "readU32 (xs @ le32 w @ ys) i = w"
proof -
  have n: "unat w < 2 ^ 32" using unsigned_less [of w] by simp
  have "readU32 (xs @ le32 w @ ys) i =
    of_nat (unat w mod 256 + 256 * (unat w div 256 mod 256) + 65536 * (unat w div 65536 mod 256)
    + 16777216 * (unat w div 16777216 mod 256))"
    using assms by (simp add: readU32_def le32_def nth_append ucast_byte_at push_bit_eq_mult)
  then show ?thesis by (simp add: byte_sum [OF n])
qed

lemma readU16_at:
  assumes "length xs = i" "unat w < 2 ^ 16"
  shows "readU16 (xs @ byte_at w 0 # byte_at w 1 # ys) i = w"
proof -
  have m: "n mod 256 + 256 * (n div 256 mod 256) = (n :: nat)" if "n < 65536" for n
    using that by (simp add: div_less_iff_less_mult)
  have "readU16 (xs @ byte_at w 0 # byte_at w 1 # ys) i =
    of_nat (unat w mod 256 + 256 * (unat w div 256 mod 256))"
    using assms(1) by (simp add: readU16_def nth_append ucast_byte_at push_bit_eq_mult)
  then show ?thesis using m [OF assms(2) [simplified]] by (simp only: of_nat_unat ucast_id)
qed

definition chunk_ok :: "chunk \<Rightarrow> bool" where
  "chunk_ok ch = (unat (ch_id ch) < 2 ^ 16 \<and> unat (ch_options ch) < 2 ^ 16)"

lemma and_mask16: "unat (w :: u32) < 2 ^ 16 \<Longrightarrow> w AND 0xffff = w"
proof -
  assume "unat w < 2 ^ 16"
  then have "unat (take_bit 16 w) = unat w"
    by (simp add: unsigned_take_bit_eq take_bit_nat_eq_self_iff)
  then have "take_bit 16 w = w" by (simp only: word_unat_eq_iff)
  then show ?thesis by (simp add: take_bit_eq_mask mask_eq_exp_minus_1)
qed

lemma and_mask32: "(w :: u32) AND 0xffffffff = w"
proof -
  have "(0xffffffff :: u32) = - 1" by simp
  then show ?thesis by (simp only: and.right_neutral)
qed

lemma length_write_chunk_header [simp]: "length (write_chunk_header ch) = 16"
  by (simp add: write_chunk_header_def le32_def)

lemma read_write_chunk_header:
  assumes "chunk_ok ch"
  shows "read_chunk_header (write_chunk_header ch) = ch"
proof -
  let ?h = "[byte_at (ch_id ch) 0, byte_at (ch_id ch) 1,
      byte_at (ch_options ch) 0, byte_at (ch_options ch) 1]"
  have ids: "unat (ch_id ch) < 2 ^ 16" "unat (ch_options ch) < 2 ^ 16"
    using assms by (auto simp: chunk_ok_def)
  have "readU16 (write_chunk_header ch) 0 = ch_id ch"
    using readU16_at [of "[]", OF _ ids(1)] by (simp add: write_chunk_header_def)
  moreover have "readU16 (write_chunk_header ch) 2 = ch_options ch"
    using readU16_at [of "[byte_at (ch_id ch) 0, byte_at (ch_id ch) 1]", OF _ ids(2)]
    by (simp add: write_chunk_header_def)
  moreover have "readU32 (write_chunk_header ch) 4 = ch_size ch"
    unfolding write_chunk_header_def by (rule readU32_at) simp
  moreover have "readU32 (write_chunk_header ch) 8 = ch_checksum ch"
    using readU32_at [of "?h @ le32 (ch_size ch)" 8]
    by (simp add: write_chunk_header_def le32_def)
  moreover have "readU32 (write_chunk_header ch) 12 = ch_extra ch"
    using readU32_at [of "?h @ le32 (ch_size ch) @ le32 (ch_checksum ch)" 12 _ "[]"]
    by (simp add: write_chunk_header_def le32_def)
  ultimately show ?thesis
    using ids by (simp add: read_chunk_header_def and_mask16 and_mask32)
qed

lemma unpack_loop_step:
  assumes "f = pre @ write_chunk_header ch @ body @ post" "pos = length pre"
    and "chunk_ok ch" "unat (ch_size ch) = length body" "length f < 2 ^ 31"
    and "unpack_chunk ch (body @ post) u = Inr u'"
  shows "unpack_loop f pos u = unpack_loop f (pos + 16 + length body) u'"
proof -
  have "unat (of_nat pos + 16 + ch_size ch) = pos + 16 + length body"
  proof -
    have "of_nat pos + 16 + ch_size ch = (of_nat (pos + 16 + length body) :: u32)"
      using assms(4) by (simp flip: assms(4))
    moreover have "pos + 16 + length body < 2 ^ LENGTH(32)" using assms(1,2,5) by simp
    ultimately show ?thesis by (simp only: unat_of_nat mod_less)
  qed
  then have "next_pos pos ch (body @ post) u = pos + 16 + length body"
    using assms(1,2,5) by (simp add: next_pos_def)
  moreover have "drop (pos + 16) f = body @ post" "take 16 (drop pos f) = write_chunk_header ch"
    using assms(1,2) by simp_all
  moreover have "\<not> length f \<le> pos" "\<not> length f < pos + 16" using assms(1,2) by simp_all
  ultimately show ?thesis
    using assms(3,6) by (subst unpack_loop.simps) (simp add: read_write_chunk_header Let_def)
qed

definition opened :: "unp \<Rightarrow> u8 list \<Rightarrow> u8 list \<Rightarrow> bool" where
  "opened u name old = (u_file u = Some name \<and> u_fs u name = Some old \<and> u_size u \<noteq> 0)"

lemma fwrite_opened:
  "opened u name old \<Longrightarrow> fwrite_out bs u = u\<lparr>u_fs := (u_fs u)(name \<mapsto> old @ bs)\<rparr>"
  by (simp add: opened_def fwrite_out_def)

lemma copy_stored_all:
  assumes "opened u name old" "length b \<le> BLOCK_SIZE" "b \<noteq> []"
  shows "copy_stored (b @ post) (length b) 1 u =
    (update_adler32 1 b, u\<lparr>u_fs := (u_fs u)(name \<mapsto> old @ b)\<rparr>)"
proof -
  have e: "copy_stored post 0 c v = (c, v)" for c v
    by (subst copy_stored.simps) simp
  show ?thesis
    using assms by (subst copy_stored.simps) (simp add: e fwrite_opened)
qed

lemma stored_chunk:
  assumes "opened u name old" "length b \<le> BLOCK_SIZE" "b \<noteq> []"
    and "ch = \<lparr>ch_id = 17, ch_options = 0, ch_size = of_nat (length b),
              ch_checksum = update_adler32 1 b, ch_extra = e\<rparr>"
  shows "unpack_chunk ch (b @ post) u = Inr (u\<lparr>u_fs := (u_fs u)(name \<mapsto> old @ b)\<rparr>)"
proof -
  have "unat (of_nat (length b) :: u32) = length b"
    using assms(2) by (simp add: unat_of_nat take_bit_nat_eq_self BLOCK_SIZE_def)
  then show ?thesis
    using assms copy_stored_all [OF assms(1-3), of post]
    by (simp add: unpack_chunk_def is_entry_def is_data_def unpack_data_def unpack_stored_def opened_def)
qed

lemma fastlz_chunk:
  assumes "opened u name old" "length b \<le> BLOCK_SIZE"
    and "fastlz_decompress out (length b) = Done b" "length out < 2 ^ 31"
    and "ch = \<lparr>ch_id = 17, ch_options = 1, ch_size = of_nat (length out),
              ch_checksum = update_adler32 1 out, ch_extra = of_nat (length b)\<rparr>"
  shows "unpack_chunk ch (out @ post) u = Inr (u\<lparr>u_fs := (u_fs u)(name \<mapsto> old @ b)\<rparr>)"
proof -
  have "unat (of_nat (length b) :: u32) = length b" "unat (of_nat (length out) :: u32) = length out"
    using assms(2,4) by (simp_all add: unat_of_nat take_bit_nat_eq_self BLOCK_SIZE_def)
  moreover have "length b < 2 ^ 31" using assms(2) by (simp add: BLOCK_SIZE_def)
  ultimately show ?thesis
    using assms fwrite_opened [OF assms(1), of b]
    by (simp add: unpack_chunk_def is_entry_def is_data_def unpack_data_def unpack_fastlz_def opened_def)
qed

text \<open>
  What the archive relies on of the code that turns a block into a chunk: there is a chunk, it
  is at most slightly longer than the block, and unpacking it appends the block to the open file.
\<close>

locale block_packer =
  fixes block :: "nat \<Rightarrow> u8 list \<Rightarrow> u8 list option"
  assumes packed: "b \<noteq> [] \<Longrightarrow> length b \<le> BLOCK_SIZE \<Longrightarrow>
    \<exists>ch body. block n b = Some (write_chunk_header ch @ body) \<and> chunk_ok ch \<and>
      unat (ch_size ch) = length body \<and> 32 * length body \<le> 33 * length b + 32 \<and>
      (\<forall>post u name old. opened u name old \<longrightarrow>
         unpack_chunk ch (body @ post) u = Inr (u\<lparr>u_fs := (u_fs u)(name \<mapsto> old @ b)\<rparr>))"
begin

lemma pack_blocks_unpack:
  "\<exists>bl. pack_blocks block n f = Some bl \<and> 32 * length bl \<le> 34 * length f + 544 \<and>
     (\<forall>pre u name old. length (pre @ bl) < 2 ^ 31 \<longrightarrow> opened u name old \<longrightarrow>
        unpack_loop (pre @ bl) (length pre) u
          = Some (Inr (u\<lparr>u_fs := (u_fs u)(name \<mapsto> old @ f)\<rparr>)))"
proof (induction "length f" arbitrary: n f rule: less_induct)
  case less
  show ?case
  proof (cases "f = []")
    case True
    have "unpack_loop (pre @ []) (length pre) u = Some (Inr u)" for pre u
      by (subst unpack_loop.simps) simp
    moreover have "u\<lparr>u_fs := (u_fs u)(name \<mapsto> old)\<rparr> = u" if "opened u name old" for u name old
      using that by (simp add: opened_def fun_upd_idem)
    ultimately show ?thesis
      using True by (subst pack_blocks.simps) simp
  next
    case False
    let ?b = "take BLOCK_SIZE f" and ?r = "drop BLOCK_SIZE f"
    have b: "?b \<noteq> []" "length ?b \<le> BLOCK_SIZE" using False by (auto simp: BLOCK_SIZE_def)
    obtain ch body where ch: "block n ?b = Some (write_chunk_header ch @ body)" "chunk_ok ch"
      "unat (ch_size ch) = length body" "32 * length body \<le> 33 * length ?b + 32"
      and step: "\<And>post u name old. opened u name old \<Longrightarrow>
         unpack_chunk ch (body @ post) u = Inr (u\<lparr>u_fs := (u_fs u)(name \<mapsto> old @ ?b)\<rparr>)"
      using packed [OF b, of n] by blast
    have "length ?r < length f" using False by (auto simp: BLOCK_SIZE_def)
    from less [OF this, of "Suc n"] obtain bl where
      bl: "pack_blocks block (Suc n) ?r = Some bl" "32 * length bl \<le> 34 * length ?r + 544"
      and IH: "\<And>pre u name old. length (pre @ bl) < 2 ^ 31 \<Longrightarrow> opened u name old \<Longrightarrow>
        unpack_loop (pre @ bl) (length pre) u
          = Some (Inr (u\<lparr>u_fs := (u_fs u)(name \<mapsto> old @ ?r)\<rparr>))"
      by blast
    have "pack_blocks block n f = Some ((write_chunk_header ch @ body) @ bl)"
      using b ch(1) bl(1) by (subst pack_blocks.simps) simp
    moreover have "32 * length ((write_chunk_header ch @ body) @ bl) \<le> 34 * length f + 544"
    proof (cases "length f \<le> BLOCK_SIZE")
      case True
      then have "bl = []" using bl(1) by (simp add: pack_blocks.simps)
      then show ?thesis using ch(4) True by simp
    next
      case False
      then show ?thesis using ch(4) bl(2) by (simp add: BLOCK_SIZE_def)
    qed
    moreover have "unpack_loop (pre @ (write_chunk_header ch @ body) @ bl) (length pre) u
        = Some (Inr (u\<lparr>u_fs := (u_fs u)(name \<mapsto> old @ f)\<rparr>))"
      if l: "length (pre @ (write_chunk_header ch @ body) @ bl) < 2 ^ 31" and o: "opened u name old"
      for pre u name old
    proof -
      let ?u = "u\<lparr>u_fs := (u_fs u)(name \<mapsto> old @ ?b)\<rparr>"
      have o': "opened ?u name (old @ ?b)" using o by (simp add: opened_def)
      have "unpack_loop (pre @ (write_chunk_header ch @ body) @ bl) (length pre) u
        = unpack_loop (pre @ (write_chunk_header ch @ body) @ bl) (length pre + 16 + length body) ?u"
        by (rule unpack_loop_step [OF _ _ ch(2,3) l step [OF o]]) simp_all
      then show ?thesis
        using IH [OF _ o', of "pre @ write_chunk_header ch @ body"] l by (simp add: add.assoc)
    qed
    ultimately show ?thesis by blast
  qed
qed

end

lemma fastlz_block:
  assumes "level = 1 \<or> level = 2 \<and> past \<noteq> None" "b \<noteq> []" "length b \<le> BLOCK_SIZE"
  shows "\<exists>ch body. pack_block 1 level past b = Some (write_chunk_header ch @ body) \<and> chunk_ok ch \<and>
      unat (ch_size ch) = length body \<and> 32 * length body \<le> 33 * length b + 32 \<and>
      (\<forall>post u name old. opened u name old \<longrightarrow>
         unpack_chunk ch (body @ post) u = Inr (u\<lparr>u_fs := (u_fs u)(name \<mapsto> old @ b)\<rparr>))"
proof (cases "length b < 32")
  case True
  let ?ch = "\<lparr>ch_id = 17, ch_options = 0, ch_size = of_nat (length b),
              ch_checksum = update_adler32 1 b, ch_extra = of_nat (length b)\<rparr> :: chunk"
  have "pack_block 1 level past b = Some (write_chunk_header ?ch @ b)"
    using True by (simp add: pack_block_def)
  moreover have "unat (ch_size ?ch) = length b" "chunk_ok ?ch"
    using True by (simp_all add: unat_of_nat take_bit_nat_eq_self chunk_ok_def)
  moreover have "\<forall>post u name old. opened u name old \<longrightarrow>
      unpack_chunk ?ch (b @ post) u = Inr (u\<lparr>u_fs := (u_fs u)(name \<mapsto> old @ b)\<rparr>)"
    using stored_chunk [OF _ assms(3,2) refl] by blast
  ultimately show ?thesis by force
next
  case False
  have lb: "length b < 2 ^ 31" using assms(3) by (simp add: BLOCK_SIZE_def)
  obtain out where out: "fastlz_compress_level level past b = Some out"
    "32 * length out \<le> 33 * length b + 32" "fastlz_decompress out (length b) = Done b"
  proof -
    from assms(1) consider "level = 1" | "level = 2" "past \<noteq> None" by blast
    then show ?thesis
    proof cases
      case 1
      then show ?thesis
        using compress_roundtrip [OF assms(2) lb, of Level1 past] that
        by (auto simp: fastlz_compress_level_def)
    next
      case 2
      then show ?thesis
        using compress_roundtrip [OF assms(2) lb, of Level2 past] that
        by (auto simp: fastlz_compress_level_def)
    qed
  qed
  let ?ch = "\<lparr>ch_id = 17, ch_options = 1, ch_size = of_nat (length out),
              ch_checksum = update_adler32 1 out, ch_extra = of_nat (length b)\<rparr> :: chunk"
  have lo: "length out < 2 ^ 31" using out(2) assms(3) by (simp add: BLOCK_SIZE_def)
  have "pack_block 1 level past b = Some (write_chunk_header ?ch @ out)"
    using False out(1) by (simp add: pack_block_def)
  moreover have "unat (ch_size ?ch) = length out" "chunk_ok ?ch"
    using lo by (simp_all add: unat_of_nat take_bit_nat_eq_self chunk_ok_def)
  moreover have "\<forall>post u name old. opened u name old \<longrightarrow>
      unpack_chunk ?ch (out @ post) u = Inr (u\<lparr>u_fs := (u_fs u)(name \<mapsto> old @ b)\<rparr>)"
    using fastlz_chunk [OF _ assms(3) out(3) lo refl] by blast
  ultimately show ?thesis using out(2) by blast
qed

interpretation fast: block_packer "\<lambda>n. pack_block 1 1 (past n)" for past
  by unfold_locales (rule fastlz_block, simp_all)

interpretation better: block_packer "\<lambda>n. pack_block 1 2 (Some (past n))" for past
  by unfold_locales (rule fastlz_block, simp_all)

lemma length_le32 [simp]: "length (le32 w) = 4"
  by (simp add: le32_def)

definition entry_chunk :: "u8 list \<Rightarrow> u32 \<Rightarrow> u8 list \<times> chunk" where
  "entry_chunk name fsize =
     (let body = le32 fsize @ [0, 0, 0, 0]
            @ [byte_at (of_nat (length name + 1)) 0, byte_at (of_nat (length name + 1)) 1] @ name @ [0]
      in (body, \<lparr>ch_id = 1, ch_options = 0, ch_size = of_nat (length body),
                 ch_checksum = update_adler32 1 body, ch_extra = 0\<rparr>))"

lemma file_entry_chunk:
  "entry_chunk name fsize = (body, ch) \<Longrightarrow> file_entry name fsize = write_chunk_header ch @ body"
  by (auto simp: entry_chunk_def file_entry_def Let_def update_adler32_append)

lemma takeWhile_name: "0 \<notin> set name \<Longrightarrow> takeWhile (\<lambda>c. c \<noteq> 0) (name @ [0]) = (name :: u8 list)"
  by (subst takeWhile_append2) auto

lemma entry_unpack:
  assumes "entry_chunk name fsize = (body, ch)" "0 \<notin> set name" "length name + 1 < 2 ^ 16"
    and "u_fs u name = None"
  shows "unat (ch_size ch) = length body" "chunk_ok ch"
    "unpack_chunk ch (body @ post) u
       = Inr (u\<lparr>u_size := fsize, u_file := Some name, u_fs := (u_fs u)(name \<mapsto> [])\<rparr>)"
proof -
  let ?l = "of_nat (length name + 1) :: u32"
  have body: "body = le32 fsize @ [0, 0, 0, 0] @ [byte_at ?l 0, byte_at ?l 1] @ name @ [0]"
    and ch: "ch = \<lparr>ch_id = 1, ch_options = 0, ch_size = of_nat (length body),
                 ch_checksum = update_adler32 1 body, ch_extra = 0\<rparr>"
    using assms(1) by (auto simp: entry_chunk_def Let_def)
  have lb: "length body = 11 + length name" by (simp add: body)
  have sz: "unat (of_nat (length body) :: u32) = length body"
    using assms(3) lb by (simp add: unat_of_nat take_bit_nat_eq_self del: of_nat_add of_nat_Suc)
  then show "unat (ch_size ch) = length body" "chunk_ok ch"
    by (simp_all add: ch chunk_ok_def)
  have ul: "unat ?l = length name + 1"
    using assms(3) by (simp only: unat_of_nat) (simp add: take_bit_nat_eq_self)
  have "readU32 body 0 = fsize"
    using readU32_at [of "[]" 0] by (simp add: body)
  moreover have "readU16 body 8 = ?l"
  proof -
    have "readU16 ((le32 fsize @ [0, 0, 0, 0]) @ byte_at ?l 0 # byte_at ?l 1 # name @ [0]) 8 = ?l"
      by (rule readU16_at) (use ul assms(3) in simp_all)
    then show ?thesis by (simp add: body)
  qed
  moreover have "drop 10 body = name @ [0]" by (simp add: body le32_def)
  ultimately have "unpack_entry ch (body @ post) u
      = Inr (u\<lparr>u_size := fsize, u_file := Some name, u_fs := (u_fs u)(name \<mapsto> [])\<rparr>)"
    using sz ul lb assms(2,4) by (simp add: unpack_entry_def ch takeWhile_name Let_def)
  moreover have "is_entry ch"
    using sz lb assms(3) by (simp add: is_entry_def ch BLOCK_SIZE_def)
  ultimately show "unpack_chunk ch (body @ post) u
       = Inr (u\<lparr>u_size := fsize, u_file := Some name, u_fs := (u_fs u)(name \<mapsto> [])\<rparr>)"
    by (simp add: unpack_chunk_def is_data_def ch)
qed

lemma unpack_packed:
  assumes bp: "block_packer block"
    and name: "0 \<notin> set name" "length name + 1 < 2 ^ 16" "fs name = None"
    and len: "length contents < 2 ^ 30"
  shows "\<exists>bl. pack_blocks block 0 contents = Some bl \<and>
    unpack_file (sixpack_magic @ file_entry name (of_nat (length contents)) @ bl) fs
      = Some (Inr (fs(name \<mapsto> contents)))"
proof -
  let ?fsize = "of_nat (length contents) :: u32"
  obtain body ch where e: "entry_chunk name ?fsize = (body, ch)" by fastforce
  obtain bl where bl: "pack_blocks block 0 contents = Some bl"
      "32 * length bl \<le> 34 * length contents + 544"
    and loop: "\<And>pre u name old. length (pre @ bl) < 2 ^ 31 \<Longrightarrow> opened u name old \<Longrightarrow>
        unpack_loop (pre @ bl) (length pre) u
          = Some (Inr (u\<lparr>u_fs := (u_fs u)(name \<mapsto> old @ contents)\<rparr>))"
    using block_packer.pack_blocks_unpack [OF bp, of 0 contents] by blast
  let ?u = "\<lparr>u_fs = fs, u_file = None, u_size = 0\<rparr>"
  let ?v = "\<lparr>u_fs = fs(name \<mapsto> []), u_file = Some name, u_size = ?fsize\<rparr>"
  let ?pre = "sixpack_magic @ write_chunk_header ch @ body"
  have fn: "u_fs ?u name = None" using name(3) by simp
  note ent = entry_unpack [OF e name(1,2) fn]
  have step: "unpack_chunk ch (body @ bl) ?u = Inr ?v"
    using ent(3) [of bl] by simp
  have lbody: "length body = 11 + length name" using e by (auto simp: entry_chunk_def Let_def)
  have l: "length (?pre @ bl) < 2 ^ 31"
    using bl(2) len name(2) lbody by (simp add: sixpack_magic_def)
  have l8: "length sixpack_magic = 8" by (simp add: sixpack_magic_def)
  have "unpack_loop (?pre @ bl) 8 ?u = unpack_loop (?pre @ bl) (8 + 16 + length body) ?v"
    by (rule unpack_loop_step [where pre = sixpack_magic, OF _ _ ent(2,1) l step])
      (simp_all add: l8)
  also have "\<dots> = Some (Inr (?v\<lparr>u_fs := fs(name \<mapsto> contents)\<rparr>))"
  proof (cases "contents = []")
    case True
    then have "bl = []" using bl(1) by (simp add: pack_blocks.simps)
    then show ?thesis using True by (subst unpack_loop.simps) (simp add: l8)
  next
    case False
    have "unat ?fsize = length contents"
      using len by (simp add: unat_of_nat take_bit_nat_eq_self)
    then have "opened ?v name []" using False by (auto simp: opened_def)
    from loop [OF l this] show ?thesis by (simp add: l8 add.assoc)
  qed
  moreover have "detect_magic (?pre @ bl)"
    by (simp add: detect_magic_def l8 nth_append list_all_iff)
  ultimately show ?thesis
    using bl(1) by (simp add: unpack_file_def file_entry_chunk [OF e])
qed

lemma pack_unpack:
  assumes "lev = 1 \<or> lev = 2 \<and> (\<forall>n. past n \<noteq> None)"
    and "fs input = Some contents" "fs output = None" "\<not> detect_magic contents"
    and "length contents < 2 ^ 30"
    and "0 \<notin> set (shown_name input)" "length (shown_name input) + 1 < 2 ^ 16"
    and "fs' (shown_name input) = None"
  shows "\<exists>archive. pack_file lev past fs input output = (None, fs(output \<mapsto> archive)) \<and>
    unpack_file archive fs' = Some (Inr (fs'(shown_name input \<mapsto> contents)))"
proof -
  have bp: "block_packer (\<lambda>n. pack_block 1 lev (past n))"
    using assms(1) by unfold_locales (rule fastlz_block, auto)
  from unpack_packed [of _ _ fs', OF bp assms(6,7,8,5)] obtain bl where bl:
    "pack_blocks (\<lambda>n. pack_block 1 lev (past n)) 0 contents = Some bl"
    "unpack_file (sixpack_magic @ file_entry (shown_name input) (of_nat (length contents)) @ bl) fs'
      = Some (Inr (fs'(shown_name input \<mapsto> contents)))"
    by blast
  have "input \<noteq> output" using assms(2,3) by auto
  then have "pack_file lev past fs input output = (None, fs(output \<mapsto>
      sixpack_magic @ file_entry (shown_name input) (of_nat (length contents)) @ bl))"
    using bl(1) assms(2-4) by (simp add: pack_file_def pack_file_compressed_def)
  with bl(2) show ?thesis by blast
qed

text \<open>
  A chunk that is neither a file entry nor data, with a size that makes the 32 bit sum of the
  next position wrap around to the chunk itself.
\<close>

definition looping_archive :: "u8 list" where
  "looping_archive = sixpack_magic @ write_chunk_header
     \<lparr>ch_id = 5, ch_options = 0, ch_size = 0xfffffff0, ch_checksum = 0, ch_extra = 0\<rparr>"

lemma looping_no_result:
  assumes "unpack_loop f pos u = Some r"
  shows "\<not> (f = looping_archive \<and> pos = 8)"
proof (rule unpack_loop.raw_induct [where P = "\<lambda>f pos u r. \<not> (f = looping_archive \<and> pos = 8)", OF _ assms])
  fix loop f pos u r
  assume 1: "\<And>f pos u r. loop f pos u = Some r \<Longrightarrow> \<not> (f = looping_archive \<and> pos = 8)"
    "(if length f \<le> pos then Some (Inr u)
      else if length f < pos + 16 then Some (Inl Truncated)
      else
        (let ch = read_chunk_header (take 16 (drop pos f));
             rest = drop (pos + 16) f in
         case unpack_chunk ch rest u of
           Inl e \<Rightarrow> Some (Inl e)
         | Inr u' \<Rightarrow> loop f (next_pos pos ch rest u) u')) = Some r"
  show "\<not> (f = looping_archive \<and> pos = 8)"
  proof
    assume a: "f = looping_archive \<and> pos = 8"
    let ?ch = "\<lparr>ch_id = 5, ch_options = 0, ch_size = 0xfffffff0, ch_checksum = 0, ch_extra = 0\<rparr>"
    have l: "length f = 24" "take 16 (drop 8 f) = write_chunk_header ?ch"
      using a by (simp_all add: looping_archive_def sixpack_magic_def)
    have "read_chunk_header (write_chunk_header ?ch) = ?ch"
      by (rule read_write_chunk_header) (simp add: chunk_ok_def)
    moreover have "unpack_chunk ?ch rest u = Inr u" "next_pos 8 ?ch rest u = 8" for rest
      by (simp_all add: unpack_chunk_def is_entry_def is_data_def next_pos_def)
    ultimately have "loop f 8 u = Some r" using 1(2) a l by simp
    then show False using 1(1) a by blast
  qed
qed








section \<open>Properties\<close>

text \<open>
  C1. A file packed by 6pack, at either level, is restored by 6unpack in any file system that
  does not have a file of that name.
\<close>

theorem sixpack_roundtrip:
  assumes "lev = 1 \<or> lev = 2 \<and> (\<forall>n. past n \<noteq> None)"
    and "fs input = Some contents" "fs output = None" "\<not> detect_magic contents"
    and "length contents < 2 ^ 30"
    and "0 \<notin> set (shown_name input)" "length (shown_name input) + 1 < 2 ^ 16"
    and "fs' (shown_name input) = None"
  shows "\<exists>archive. pack_file lev past fs input output = (None, fs(output \<mapsto> archive)) \<and>
    unpack_file archive fs' = Some (Inr (fs'(shown_name input \<mapsto> contents)))"
  using assms by (rule pack_unpack)

theorem sixpack_roundtrip_witness:
  "\<exists>archive. pack_file 2 (\<lambda>_. Some 0) [[97, 47, 98] \<mapsto> [1, 2, 3]] [97, 47, 98] [99]
      = (None, [[97, 47, 98] \<mapsto> [1, 2, 3], [99] \<mapsto> archive]) \<and>
    unpack_file archive Map.empty = Some (Inr [[98] \<mapsto> [1, 2, 3]])"
proof -
  have n: "shown_name [97, 47, 98] = [98]" by (simp add: shown_name_def numeral_2_eq_2)
  show ?thesis
    using sixpack_roundtrip [of 2 "\<lambda>_. Some 0" "[[97, 47, 98] \<mapsto> [1, 2, 3]]" "[97, 47, 98]"
        "[1, 2, 3]" "[99]" Map.empty]
    by (simp add: n detect_magic_def)
qed

text \<open>
  The header that 6unpack reads is the header that 6pack wrote.
\<close>

theorem chunk_header_roundtrip:
  assumes "unat (ch_id ch) < 2 ^ 16" "unat (ch_options ch) < 2 ^ 16"
  shows "read_chunk_header (write_chunk_header ch) = ch"
  using assms by (intro read_write_chunk_header) (simp add: chunk_ok_def)

theorem chunk_header_roundtrip_witness:
  "read_chunk_header (write_chunk_header \<lparr>ch_id = 17, ch_options = 1, ch_size = 0xfedcba98,
     ch_checksum = 0x12345678, ch_extra = 131072\<rparr>) =
   \<lparr>ch_id = 17, ch_options = 1, ch_size = 0xfedcba98, ch_checksum = 0x12345678, ch_extra = 131072\<rparr>"
  by (rule chunk_header_roundtrip) simp_all



text \<open>
  C40. 6unpack does not return on an archive whose chunk has the size \<open>0xfffffff0\<close>: the
  position of the next chunk, a sum of 32 bits, is that of the chunk itself.
\<close>

theorem unpack_hangs_on_wrapping_size: "unpack_file looping_archive fs = None"
proof -
  have "detect_magic looping_archive"
    by (simp add: detect_magic_def looping_archive_def sixpack_magic_def nth_append list_all_iff)
  then show ?thesis
    using looping_no_result [of looping_archive 8 "\<lparr>u_fs = fs, u_file = None, u_size = 0\<rparr>"]
    by (cases "unpack_loop looping_archive 8 \<lparr>u_fs = fs, u_file = None, u_size = 0\<rparr>")
      (simp_all add: unpack_file_def)
qed

end
