(* ===== verification/Movelist.thy ===== *)
theory Movelist
  imports Prelude
begin

text \<open>
  The growable arrays of \<open>games/cgames/csokoban/movelist.c\<close>, a file that \<open>games/cgames/cblocks\<close> has word
  for word for its own type of moves. An element that was allocated and not yet written is
  \<open>None\<close>; the null pointer is the empty array. \<open>moves\<close> is the list that the array stands for;
  the locale \<open>move_stack\<close> is the contract under which the game uses it. Memory never runs out,
  as the program exits when it does.
\<close>

section \<open>Definitions\<close>

record 'm movelist =
  allocated :: nat
  count :: nat
  arr :: "'m option list"

definition realloc :: "'x option list \<Rightarrow> nat \<Rightarrow> 'x option list" where
  "realloc xs n = take n xs @ replicate (n - length xs) None"

definition initmovelist :: "'m movelist \<Rightarrow> 'm movelist" where
  "initmovelist l =
     (if allocated l = 0 \<or> arr l = [] then l\<lparr>allocated := 16, arr := replicate 16 None\<rparr> else l)\<lparr>count := 0\<rparr>"

function grow_to :: "nat \<Rightarrow> nat \<Rightarrow> nat" where
  "grow_to a sz = (if a < sz \<and> 0 < a then grow_to (a * 2) sz else a)"
  by pat_completeness auto
termination
  by (relation "measure (\<lambda>(a, sz). sz - a)") auto

definition setmovelist :: "'m movelist \<Rightarrow> nat \<Rightarrow> 'm movelist" where
  "setmovelist l sz =
     (let a = grow_to (if allocated l = 0 \<or> arr l = [] then 16 else allocated l) sz in
      l\<lparr>allocated := a, arr := realloc (arr l) a, count := sz\<rparr>)"

definition addtomovelist :: "'m movelist \<Rightarrow> 'm \<Rightarrow> 'm movelist option" where
  "addtomovelist l move =
     (let l = (if allocated l \<le> count l
               then l\<lparr>allocated := allocated l * 2, arr := realloc (arr l) (allocated l * 2)\<rparr> else l)
      in do {
        a \<leftarrow> wr (arr l) (count l) (Some move);
        Some (l\<lparr>arr := a, count := count l + 1\<rparr>)
      })"

definition copymovelist :: "'m movelist \<Rightarrow> 'm movelist \<Rightarrow> 'm movelist" where
  "copymovelist to from =
     (let to = setmovelist (initmovelist (to\<lparr>arr := []\<rparr>)) (count from) in
      to\<lparr>arr := take (count from) (arr from) @ drop (count from) (arr to)\<rparr>)"

definition destroymovelist :: "'m movelist \<Rightarrow> 'm movelist" where
  "destroymovelist l = l\<lparr>allocated := 0, arr := []\<rparr>"

text \<open>\<open>list[--count]\<close>, the last move taken off, and \<open>list[i]\<close>.\<close>

definition get_move :: "'m movelist \<Rightarrow> nat \<Rightarrow> 'm option" where
  "get_move l i = (if i < length (arr l) then arr l ! i else None)"

definition drop_move :: "'m movelist \<Rightarrow> 'm movelist" where
  "drop_move l = l\<lparr>count := count l - 1\<rparr>"

declare grow_to.simps [simp del]

definition wf_list :: "'m movelist \<Rightarrow> bool" where
  "wf_list l = (0 < allocated l \<and> length (arr l) = allocated l \<and> count l \<le> allocated l \<and>
     (\<forall>i < count l. arr l ! i \<noteq> None))"

definition moves :: "'m movelist \<Rightarrow> 'm list" where
  "moves l = map the (take (count l) (arr l))"

section \<open>Lemmas\<close>

lemma grow_to_bounds: "0 < a \<Longrightarrow> a \<le> grow_to a sz \<and> sz \<le> grow_to a sz"
proof (induction a sz rule: grow_to.induct)
  case (1 a sz)
  then show ?case by (subst grow_to.simps) (subst (2) grow_to.simps, auto)
qed

lemma length_realloc [simp]: "length (realloc xs n) = n"
  by (simp add: realloc_def)

lemma realloc_nth: "i < length xs \<Longrightarrow> i < n \<Longrightarrow> realloc xs n ! i = xs ! i"
  by (simp add: realloc_def nth_append)

lemma moves_length: "wf_list l \<Longrightarrow> length (moves l) = count l"
  by (simp add: moves_def wf_list_def)

lemma moves_nth: "wf_list l \<Longrightarrow> i < count l \<Longrightarrow> get_move l i = Some (moves l ! i)"
  by (auto simp: moves_def wf_list_def get_move_def)

lemma initmovelist_wf:
  "length (arr l) = allocated l \<or> arr l = [] \<Longrightarrow> wf_list (initmovelist l) \<and> moves (initmovelist l) = []"
  by (auto simp: initmovelist_def wf_list_def moves_def)

lemma addtomovelist_wf:
  assumes "wf_list l"
  shows "\<exists>l'. addtomovelist l m = Some l' \<and> wf_list l' \<and> moves l' = moves l @ [m]"
proof -
  define k where "k = (if allocated l \<le> count l
               then l\<lparr>allocated := allocated l * 2, arr := realloc (arr l) (allocated l * 2)\<rparr> else l)"
  have k: "wf_list k" "count k = count l" "count k < length (arr k)" "moves k = moves l"
    using assms
    by (auto simp: k_def wf_list_def nth_append moves_def realloc_def)
  then have "addtomovelist l m = Some (k\<lparr>arr := (arr k)[count k := Some m], count := count k + 1\<rparr>)"
    by (simp add: addtomovelist_def flip: k_def)
  moreover have "wf_list (k\<lparr>arr := (arr k)[count k := Some m], count := count k + 1\<rparr>)"
    using k by (auto simp: wf_list_def nth_list_update)
  moreover have "moves (k\<lparr>arr := (arr k)[count k := Some m], count := count k + 1\<rparr>) = moves l @ [m]"
    using k by (simp add: moves_def take_Suc_conv_app_nth flip: k(4))
  ultimately show ?thesis by blast
qed

lemma drop_move_wf:
  "wf_list l \<Longrightarrow> wf_list (drop_move l) \<and> moves (drop_move l) = butlast (moves l)"
  by (auto simp: wf_list_def drop_move_def moves_def butlast_take simp flip: map_butlast)

lemma copymovelist_wf:
  assumes "wf_list from"
  shows "wf_list (copymovelist to from) \<and> moves (copymovelist to from) = moves from"
proof -
  let ?n = "count from"
  let ?s = "setmovelist (initmovelist (to\<lparr>arr := []\<rparr>)) ?n"
  have s: "allocated ?s = grow_to 16 ?n" "length (arr ?s) = grow_to 16 ?n" "count ?s = ?n"
    by (simp_all add: setmovelist_def initmovelist_def Let_def)
  have g: "16 \<le> grow_to 16 ?n" "?n \<le> grow_to 16 ?n" using grow_to_bounds [of 16 ?n] by simp_all
  have f: "?n \<le> length (arr from)" "\<forall>i < ?n. arr from ! i \<noteq> None"
    using assms by (auto simp: wf_list_def)
  show ?thesis
    using s g f by (auto simp: copymovelist_def Let_def wf_list_def moves_def nth_append)
qed

lemma last_move:
  assumes "wf_list l" "count l \<noteq> 0"
  shows "get_move l (count l - 1) = Some (last (moves l))" "moves l \<noteq> []"
proof -
  have len: "length (moves l) = count l" using assms(1) by (rule moves_length)
  then show ne: "moves l \<noteq> []" using assms(2) by auto
  show "get_move l (count l - 1) = Some (last (moves l))"
    using moves_nth [OF assms(1), of "count l - 1"] assms(2) len ne by (simp add: last_conv_nth)
qed

text \<open>What the game relies on of its undo, redo and macro lists: a stack of moves.\<close>

locale move_stack =
  fixes ok :: "'l \<Rightarrow> bool" and contents :: "'l \<Rightarrow> 'm list" and sz :: "'l \<Rightarrow> nat"
    and clear :: "'l \<Rightarrow> 'l" and push :: "'l \<Rightarrow> 'm \<Rightarrow> 'l option" and peek :: "'l \<Rightarrow> 'm option"
    and pop :: "'l \<Rightarrow> 'l" and dup :: "'l \<Rightarrow> 'l \<Rightarrow> 'l"
  assumes sz: "ok l \<Longrightarrow> sz l = length (contents l)"
    and clear: "ok l \<Longrightarrow> ok (clear l) \<and> contents (clear l) = []"
    and push: "ok l \<Longrightarrow> \<exists>l'. push l m = Some l' \<and> ok l' \<and> contents l' = contents l @ [m]"
    and peek: "ok l \<Longrightarrow> contents l \<noteq> [] \<Longrightarrow> peek l = Some (last (contents l))"
    and pop: "ok l \<Longrightarrow> ok (pop l) \<and> contents (pop l) = butlast (contents l)"
    and dup: "ok l \<Longrightarrow> ok (dup k l) \<and> contents (dup k l) = contents l"
begin

lemma push_list:
  "ok l \<Longrightarrow> \<exists>l'. foldo (\<lambda>m l. push l m) ms l = Some l' \<and> ok l' \<and> contents l' = contents l @ ms"
proof (induction ms arbitrary: l)
  case Nil
  then show ?case by simp
next
  case (Cons m ms)
  obtain k where k: "push l m = Some k" "ok k" "contents k = contents l @ [m]"
    using push [OF Cons.prems] by blast
  from Cons.IH [OF k(2)] show ?case using k by simp
qed

lemma pop_push:
  assumes "ok l" "push l m = Some l'"
  shows "contents (pop l') = contents l" "peek l' = Some m" "sz l' = Suc (sz l)"
proof -
  have k: "ok l'" "contents l' = contents l @ [m]" using push [OF assms(1), of m] assms(2) by auto
  then show "contents (pop l') = contents l" "peek l' = Some m" "sz l' = Suc (sz l)"
    using pop peek sz assms(1) by (auto simp: sz)
qed

end

interpretation ml: move_stack wf_list moves count initmovelist addtomovelist
  "\<lambda>l. get_move l (count l - 1)" drop_move copymovelist
proof unfold_locales
  fix l k :: "'m movelist" and m :: 'm
  assume ok: "wf_list l"
  then show "count l = length (moves l)" by (simp add: moves_length)
  show "wf_list (initmovelist l) \<and> moves (initmovelist l) = []"
    using ok by (intro initmovelist_wf) (simp add: wf_list_def)
  show "\<exists>l'. addtomovelist l m = Some l' \<and> wf_list l' \<and> moves l' = moves l @ [m]"
    using ok by (rule addtomovelist_wf)
  show "wf_list (drop_move l) \<and> moves (drop_move l) = butlast (moves l)"
    using ok by (rule drop_move_wf)
  show "wf_list (copymovelist k l) \<and> moves (copymovelist k l) = moves l"
    using ok by (rule copymovelist_wf)
  assume "moves l \<noteq> []"
  then have "count l \<noteq> 0" using moves_length [OF ok] by (metis length_0_conv)
  then show "get_move l (count l - 1) = Some (last (moves l))" by (rule last_move(1) [OF ok])
qed

section \<open>Properties\<close>

text \<open>
  Appending to a well-formed move list never writes outside its array, keeps it well-formed
  and adds the move at the end; taking the last move off undoes it, and a copy has the same moves.
\<close>

theorem movelist_is_stack:
  assumes "wf_list l"
  shows "\<exists>l'. addtomovelist l m = Some l' \<and> wf_list l' \<and> moves l' = moves l @ [m] \<and>
    moves (drop_move l') = moves l \<and> wf_list (copymovelist k l') \<and> moves (copymovelist k l') = moves l'"
proof -
  obtain l' where l': "addtomovelist l m = Some l'" "wf_list l'" "moves l' = moves l @ [m]"
    using ml.push [OF assms] by blast
  then show ?thesis using ml.pop_push(1) [OF assms l'(1)] ml.dup [OF l'(2)] by blast
qed

theorem movelist_is_stack_witness:
  "\<exists>l'. addtomovelist \<lparr>allocated = 1, count = 1, arr = [Some (7 :: nat)]\<rparr> 8 = Some l' \<and> wf_list l' \<and>
     moves l' = [7, 8] \<and> moves (drop_move l') = [7] \<and>
     wf_list (copymovelist \<lparr>allocated = 0, count = 0, arr = []\<rparr> l') \<and>
     moves (copymovelist \<lparr>allocated = 0, count = 0, arr = []\<rparr> l') = moves l'"
proof -
  let ?l = "\<lparr>allocated = 1, count = 1, arr = [Some (7 :: nat)]\<rparr>"
  have "wf_list ?l" "moves ?l = [7]" by (simp_all add: wf_list_def moves_def)
  then show ?thesis
    using movelist_is_stack [of ?l 8 "\<lparr>allocated = 0, count = 0, arr = []\<rparr>"] by simp
qed

end
