(* ===== verification/Sokoban.thy ===== *)
theory Sokoban
  imports Movelist
begin

text \<open>
  The game logic of \<open>games/cgames/csokoban\<close>: \<open>play.c\<close> (moves, undo, redo, macros, saved states,
  best answers) and the keyboard loop of \<open>csokoban.c\<close>. A map is an array of bytes, one flag per
  object; an access outside an array is \<open>None\<close>. The static variables of \<open>play.c\<close> are the record
  \<open>world\<close>. The puzzle that \<open>state.game\<close> points to is a field of the world and not of the
  saved states, which all point to it (\<open>playgame\<close> frees them before the puzzle changes). Screen
  output is left out.
\<close>

section \<open>Definitions\<close>

definition XSIZE :: int where "XSIZE = 32"
definition GOAL :: u8 where "GOAL = 1"
definition PLAYER :: u8 where "PLAYER = 2"
definition BOX :: u8 where "BOX = 4"
definition WALL :: u8 where "WALL = 8"

record dyx =
  yx :: int
  box :: bool

record gamesetup =
  boxcount :: int
  goalcount :: int
  g_storecount :: int
  start :: int
  movebestcount :: int
  pushbestcount :: int
  movebestpushcount :: int
  pushbestmovecount :: int
  moveanswer :: "dyx movelist"
  pushanswer :: "dyx movelist"
  g_map :: "u8 list"

record gamestate =
  player :: int
  storecount :: int
  movecount :: int
  pushcount :: int
  undo :: "dyx movelist"
  redo :: "dyx movelist"
  gmap :: "u8 list"

record world =
  game :: gamesetup
  gs :: gamestate
  stack :: "gamestate list"
  macros :: "dyx movelist list"
  macro :: "nat option"
  recording :: bool
  macroplay :: int

definition rdi :: "'x list \<Rightarrow> int \<Rightarrow> 'x option" where
  "rdi m i = (if 0 \<le> i then rd m (nat i) else None)"

definition set_flag :: "u8 list \<Rightarrow> int \<Rightarrow> u8 \<Rightarrow> u8 list option" where
  "set_flag m i f = do { c \<leftarrow> rdi m i; wr m (nat i) (c OR f) }"

definition clear_flag :: "u8 list \<Rightarrow> int \<Rightarrow> u8 \<Rightarrow> u8 list option" where
  "clear_flag m i f = do { c \<leftarrow> rdi m i; wr m (nat i) (c AND NOT f) }"

definition on_flag :: "u8 list \<Rightarrow> int \<Rightarrow> u8 \<Rightarrow> bool option" where
  "on_flag m i f = do { c \<leftarrow> rdi m i; Some (c AND f \<noteq> 0) }"

subsection \<open>Game states\<close>

definition copygamestate :: "gamestate \<Rightarrow> gamestate" where
  "copygamestate s = s\<lparr>undo := copymovelist (undo s) (undo s), redo := copymovelist (redo s) (redo s)\<rparr>"

definition initgamestate :: "bool \<Rightarrow> world \<Rightarrow> world" where
  "initgamestate usemoves w =
     (let g = game w; s = gs w in
      w\<lparr>gs := s\<lparr>gmap := g_map g, player := start g, undo := initmovelist (undo s),
          redo := (if count (moveanswer g) = 0 then copymovelist (redo s) (pushanswer g)
                   else if count (pushanswer g) = 0 \<or> usemoves then copymovelist (redo s) (moveanswer g)
                   else copymovelist (redo s) (pushanswer g)),
          movecount := 0, pushcount := 0, storecount := g_storecount g\<rparr>,
        recording := False,
        macros := map (\<lambda>l. if count l \<noteq> 0 then l\<lparr>count := 0\<rparr> else l) (macros w)\<rparr>)"

definition selectgame :: "gamesetup \<Rightarrow> world \<Rightarrow> world" where
  "selectgame g w = w\<lparr>game := g\<rparr>"

subsection \<open>Moves\<close>

definition push_box :: "u8 list \<Rightarrow> int \<Rightarrow> int \<Rightarrow> int \<Rightarrow> (u8 list \<times> int) option" where
  "push_box m from to store =
     do {
       m \<leftarrow> clear_flag m from BOX;
       m \<leftarrow> set_flag m to BOX;
       c \<leftarrow> on_flag m from GOAL;
       d \<leftarrow> on_flag m to GOAL;
       Some (m, (let store = (if c then store - 1 else store) in if d then store + 1 else store))
     }"

text \<open>\<open>if (recording) addtomovelist(macro, move);\<close>\<close>

definition record_move :: "dyx \<Rightarrow> world \<Rightarrow> world option" where
  "record_move move w =
     (if recording w then
        do {
          k \<leftarrow> macro w;
          l \<leftarrow> rd (macros w) k;
          l \<leftarrow> addtomovelist l move;
          Some (w\<lparr>macros := (macros w)[k := l]\<rparr>)
        }
      else Some w)"

definition domove :: "dyx \<Rightarrow> world \<Rightarrow> world option" where
  "domove move w =
     (let s = gs w; p = player s + yx move in
      do {
        m \<leftarrow> clear_flag (gmap s) (player s) PLAYER;
        m \<leftarrow> set_flag m p PLAYER;
        (m, store) \<leftarrow> (if box move then push_box m p (p + yx move) (storecount s)
                      else Some (m, storecount s));
        u \<leftarrow> addtomovelist (undo s) move;
        record_move move (w\<lparr>gs := s\<lparr>gmap := m, player := p, movecount := movecount s + 1,
          storecount := store, pushcount := (if box move then pushcount s + 1 else pushcount s),
          undo := u\<rparr>\<rparr>)
      })"

text \<open>\<open>if (recording && macro->count) { if (--macro->count == 0) recording = FALSE; }\<close>\<close>

definition unrecord_move :: "world \<Rightarrow> world option" where
  "unrecord_move w =
     (if recording w then
        do {
          k \<leftarrow> macro w;
          l \<leftarrow> rd (macros w) k;
          Some (if count l \<noteq> 0
                then w\<lparr>macros := (macros w)[k := drop_move l], recording := (count l - 1 \<noteq> 0)\<rparr>
                else w)
        }
      else Some w)"

definition undomove :: "world \<Rightarrow> (bool \<times> world) option" where
  "undomove w =
     (let s = gs w in
      if count (undo s) = 0 then Some (False, w)
      else
        do {
          move \<leftarrow> get_move (undo s) (count (undo s) - 1);
          r \<leftarrow> addtomovelist (redo s) move;
          (m, store) \<leftarrow> (if box move then push_box (gmap s) (player s + yx move) (player s) (storecount s)
                        else Some (gmap s, storecount s));
          m \<leftarrow> clear_flag m (player s) PLAYER;
          m \<leftarrow> set_flag m (player s - yx move) PLAYER;
          w \<leftarrow> unrecord_move (w\<lparr>gs := s\<lparr>gmap := m, player := player s - yx move,
                 movecount := movecount s - 1, storecount := store,
                 pushcount := (if box move then pushcount s - 1 else pushcount s),
                 undo := drop_move (undo s), redo := r\<rparr>\<rparr>);
          Some (True, w)
        })"

fun undo_n :: "nat \<Rightarrow> world \<Rightarrow> world option" where
  "undo_n 0 w = Some w"
| "undo_n (Suc n) w = do { (b, w) \<leftarrow> undomove w; if b then undo_n n w else Some w }"

definition undomoves :: "nat \<Rightarrow> world \<Rightarrow> (bool \<times> world) option" where
  "undomoves n w =
     (if count (undo (gs w)) = 0 then Some (False, w) else do { w \<leftarrow> undo_n n w; Some (True, w) })"

definition redomove :: "world \<Rightarrow> (bool \<times> world) option" where
  "redomove w =
     (let s = gs w in
      if count (redo s) = 0 then Some (False, w)
      else
        do {
          move \<leftarrow> get_move (redo s) (count (redo s) - 1);
          w \<leftarrow> domove move (w\<lparr>gs := s\<lparr>redo := drop_move (redo s)\<rparr>\<rparr>);
          Some (True, w)
        })"

fun redo_n :: "nat \<Rightarrow> world \<Rightarrow> world option" where
  "redo_n 0 w = Some w"
| "redo_n (Suc n) w = do { (b, w) \<leftarrow> redomove w; if b then redo_n n w else Some w }"

definition redomoves :: "nat \<Rightarrow> world \<Rightarrow> (bool \<times> world) option" where
  "redomoves n w =
     (if count (redo (gs w)) = 0 then Some (False, w) else do { w \<leftarrow> redo_n n w; Some (True, w) })"

definition newmove :: "int \<Rightarrow> world \<Rightarrow> (bool \<times> world) option" where
  "newmove delta w =
     (let s = gs w; j = player s + delta in
      do {
        wall \<leftarrow> on_flag (gmap s) j WALL;
        if wall then Some (False, w)
        else
          do {
            back_up \<leftarrow> (if count (undo s) \<noteq> 0 then
                          do { move \<leftarrow> get_move (undo s) (count (undo s) - 1);
                               Some (\<not> box move \<and> yx move = - delta) }
                        else Some False);
            if back_up then undomove w
            else
              do {
                b \<leftarrow> on_flag (gmap s) j BOX;
                stuck \<leftarrow> (if b then on_flag (gmap s) (j + delta) (BOX OR WALL) else Some False);
                if stuck then Some (False, w)
                else
                  do {
                    again \<leftarrow> (if count (redo s) \<noteq> 0 then
                                do { move \<leftarrow> get_move (redo s) (count (redo s) - 1);
                                     Some (box move = b \<and> yx move = delta) }
                              else Some False);
                    if again then redomove w
                    else
                      do {
                        w \<leftarrow> domove \<lparr>yx = delta, box = b\<rparr> w;
                        Some (True, w\<lparr>gs := (gs w)\<lparr>redo := (redo (gs w))\<lparr>count := 0\<rparr>\<rparr>\<rparr>)
                      }
                  }
              }
          }
      })"

definition checkfinished :: "world \<Rightarrow> bool" where
  "checkfinished w =
     (storecount (gs w) = boxcount (game w) \<or> storecount (gs w) = goalcount (game w))"

subsection \<open>Macros\<close>

definition setmacro :: "world \<Rightarrow> world option" where
  "setmacro w =
     (if recording w then Some (w\<lparr>recording := False\<rparr>)
      else
        do {
          l \<leftarrow> rdi (macros w) (player (gs w));
          Some (w\<lparr>macro := Some (nat (player (gs w))),
                  macros := (macros w)[nat (player (gs w)) := initmovelist l], recording := True\<rparr>)
        })"

definition startmacro :: "world \<Rightarrow> (bool \<times> world) option" where
  "startmacro w =
     do {
       l \<leftarrow> rdi (macros w) (player (gs w));
       if count l = 0 then Some (False, w)
       else Some (True, w\<lparr>recording := False, macro := Some (nat (player (gs w))), macroplay := 0\<rparr>)
     }"

definition macromove :: "world \<Rightarrow> (bool \<times> world) option" where
  "macromove w =
     (if 0 \<le> macroplay w then
        do {
          k \<leftarrow> macro w;
          l \<leftarrow> rd (macros w) k;
          move \<leftarrow> get_move l (nat (macroplay w));
          (b, w) \<leftarrow> newmove (yx move) w;
          l \<leftarrow> rd (macros w) k;
          let w = (if \<not> b \<or> int (count l) \<le> macroplay w + 1 then w\<lparr>macroplay := - 1\<rparr>
                   else w\<lparr>macroplay := macroplay w + 1\<rparr>)
          in Some (0 \<le> macroplay w, w)
        }
      else Some (False, w))"

definition isplaying :: "world \<Rightarrow> bool" where
  "isplaying w = (0 \<le> macroplay w)"

subsection \<open>Saved states and answers\<close>

definition savestate :: "world \<Rightarrow> world" where
  "savestate w = w\<lparr>stack := copygamestate (gs w) # stack w\<rparr>"

definition restorestate :: "world \<Rightarrow> bool \<times> world" where
  "restorestate w =
     (case stack w of [] \<Rightarrow> (False, w) | s # next \<Rightarrow> (True, w\<lparr>gs := s, stack := next\<rparr>))"

definition freesavedstates :: "world \<Rightarrow> world" where
  "freesavedstates w = w\<lparr>stack := []\<rparr>"

definition answer_of :: "dyx movelist \<Rightarrow> dyx movelist \<Rightarrow> dyx movelist option" where
  "answer_of u answer =
     foldo (\<lambda>i a. do { m \<leftarrow> get_move u i; addtomovelist a m }) (rev [0..<count u]) (initmovelist answer)"

definition replace_moveanswer :: "bool \<Rightarrow> gamestate \<Rightarrow> gamesetup \<Rightarrow> (bool \<times> gamesetup) option" where
  "replace_moveanswer saveinc s g =
     (if movebestcount g = 0 \<or> movecount s < movebestcount g \<or>
         movecount s = movebestcount g \<and> pushcount s < movebestpushcount g
      then do {
        a \<leftarrow> answer_of (undo s) (moveanswer g);
        Some (True, g\<lparr>moveanswer := a,
                      movebestcount := (if \<not> saveinc then movecount s else movebestcount g),
                      movebestpushcount := pushcount s\<rparr>)
      }
      else Some (False, g))"

definition replace_pushanswer :: "bool \<Rightarrow> gamestate \<Rightarrow> gamesetup \<Rightarrow> (bool \<times> gamesetup) option" where
  "replace_pushanswer saveinc s g =
     (if pushbestcount g = 0 \<or> pushcount s < pushbestcount g \<or>
         pushcount s = pushbestcount g \<and> movecount s < pushbestmovecount g
      then do {
        a \<leftarrow> answer_of (undo s) (pushanswer g);
        Some (True, g\<lparr>pushanswer := a, pushbestcount := pushcount s,
                      pushbestmovecount := (if \<not> saveinc then movecount s else pushbestmovecount g)\<rparr>)
      }
      else Some (False, g))"

definition replaceanswers :: "bool \<Rightarrow> world \<Rightarrow> (bool \<times> world) option" where
  "replaceanswers saveinc w =
     (if saveinc \<and> (movebestcount (game w) \<noteq> 0 \<or> pushbestcount (game w) \<noteq> 0) then Some (False, w)
      else
        do {
          (n, g) \<leftarrow> replace_moveanswer saveinc (gs w) (game w);
          (n', g) \<leftarrow> replace_pushanswer saveinc (gs w) g;
          Some (n \<or> n', w\<lparr>game := g\<rparr>)
        })"

subsection \<open>The keyboard\<close>

text \<open>\<open>while (newmove(delta)) ;\<close>\<close>

partial_function (option) newmoves :: "int \<Rightarrow> world \<Rightarrow> world option" where
  "newmoves delta w =
     do { (b, w') \<leftarrow> newmove delta w; if b then newmoves delta w' else Some w' }"

declare newmoves.simps [code]

datatype turn = Stay world | Change int | Exit

definition stay :: "('b \<times> world) option \<Rightarrow> turn option" where
  "stay r = do { (b, w) \<leftarrow> r; Some (Stay w) }"

definition doturn :: "char \<Rightarrow> world \<Rightarrow> turn option" where
  "doturn key w =
     (if isplaying w then stay (macromove w)
      else if key = CHR ''k'' then stay (newmove (- XSIZE) w)
      else if key = CHR ''l'' then stay (newmove 1 w)
      else if key = CHR ''j'' then stay (newmove XSIZE w)
      else if key = CHR ''h'' then stay (newmove (- 1) w)
      else if key = CHR ''K'' then do { w \<leftarrow> newmoves (- XSIZE) w; Some (Stay w) }
      else if key = CHR ''L'' then do { w \<leftarrow> newmoves 1 w; Some (Stay w) }
      else if key = CHR ''J'' then do { w \<leftarrow> newmoves XSIZE w; Some (Stay w) }
      else if key = CHR ''H'' then do { w \<leftarrow> newmoves (- 1) w; Some (Stay w) }
      else if key = CHR ''x'' then stay (undomove w)
      else if key = CHR ''z'' then stay (redomove w)
      else if key = CHR ''X'' then stay (undomoves 8 w)
      else if key = CHR ''Z'' then stay (redomoves 8 w)
      else if key = CHR ''R'' then Some (Stay (initgamestate True w))
      else if key = CHR 0x12 then Some (Stay (initgamestate False w))
      else if key = CHR ''s'' then Some (Stay (savestate w))
      else if key = CHR ''r'' then Some (Stay (snd (restorestate w)))
      else if key = CHR ''S'' then stay (replaceanswers True w)
      else if key = CHR ''m'' then do { w \<leftarrow> setmacro w; Some (Stay w) }
      else if key = CHR ''p'' then stay (startmacro w)
      else if key = CHR ''P'' then Some (Change (- 1))
      else if key = CHR ''N'' then Some (Change 1)
      else if key = CHR ''q'' \<or> key = CHR ''Q'' then Some Exit
      else Some (Stay w))"

end
