(* ===== verification/Sokoban_Proofs.thy ===== *)
theory Sokoban_Proofs
  imports Sokoban
begin

text \<open>
  The rules of Sokoban on sets of positions, and that \<open>play.c\<close> implements them: each operation keeps
  the map, the counters and the lists of moves consistent, never leaves the map, and returns.
\<close>

section \<open>Definitions\<close>

text \<open>The positions with flag number \<open>k\<close>: 0 goals, 1 the player, 2 boxes, 3 walls.\<close>

definition cells :: "nat \<Rightarrow> u8 list \<Rightarrow> int set" where
  "cells k m = {i. 0 \<le> i \<and> i < int (length m) \<and> bit (m ! nat i) k}"

definition dirs :: "int set" where
  "dirs = {- 1, 1, - 32, 32}"

text \<open>The abstract game: the player's position and the set of boxes.\<close>

definition legal :: "int set \<Rightarrow> dyx \<Rightarrow> int \<times> int set \<Rightarrow> bool" where
  "legal W m s = (case s of (p, B) \<Rightarrow>
     yx m \<in> dirs \<and> p + yx m \<notin> W \<and> (box m \<longleftrightarrow> p + yx m \<in> B) \<and>
     (box m \<longrightarrow> p + yx m + yx m \<notin> B \<union> W))"

definition apply_move :: "dyx \<Rightarrow> int \<times> int set \<Rightarrow> int \<times> int set" where
  "apply_move m s = (case s of (p, B) \<Rightarrow>
     (p + yx m, if box m then insert (p + yx m + yx m) (B - {p + yx m}) else B))"

fun legals :: "int set \<Rightarrow> dyx list \<Rightarrow> int \<times> int set \<Rightarrow> bool" where
  "legals W [] s = True"
| "legals W (m # ms) s = (legal W m s \<and> legals W ms (apply_move m s))"

text \<open>Positions that are closed off by walls inside the map.\<close>

definition enclosed :: "int set \<Rightarrow> int set \<Rightarrow> bool" where
  "enclosed W I = (\<forall>q \<in> I. 0 \<le> q \<and> q < 1024 \<and>
     (\<forall>d \<in> dirs. 0 \<le> q + d \<and> q + d < 1024 \<and> (q + d \<notin> W \<longrightarrow> q + d \<in> I)))"

definition inside :: "int set \<Rightarrow> int \<Rightarrow> bool" where
  "inside W p = (\<exists>I. p \<in> I \<and> enclosed W I)"

definition good :: "int set \<Rightarrow> int \<times> int set \<Rightarrow> bool" where
  "good W s = (case s of (p, B) \<Rightarrow> inside W p \<and> p \<notin> B \<and> p \<notin> W \<and> B \<inter> W = {} \<and> B \<subseteq> {0..<1024})"

abbreviation walls :: "gamesetup \<Rightarrow> int set" where "walls g \<equiv> cells 3 (g_map g)"
abbreviation goals :: "gamesetup \<Rightarrow> int set" where "goals g \<equiv> cells 0 (g_map g)"

definition start_pos :: "gamesetup \<Rightarrow> int \<times> int set" where
  "start_pos g = (start g, cells 2 (g_map g))"

definition abs_pos :: "gamestate \<Rightarrow> int \<times> int set" where
  "abs_pos s = (player s, cells 2 (gmap s))"

text \<open>A puzzle whose player is walled in, with legal saved answers.\<close>

definition level_ok :: "gamesetup \<Rightarrow> bool" where
  "level_ok g =
     (length (g_map g) = 1024 \<and> cells 1 (g_map g) = {start g} \<and> good (walls g) (start_pos g) \<and>
      boxcount g = int (card (cells 2 (g_map g))) \<and> goalcount g = int (card (goals g)) \<and>
      g_storecount g = int (card (cells 2 (g_map g) \<inter> goals g)) \<and>
      wf_list (moveanswer g) \<and> legals (walls g) (rev (moves (moveanswer g))) (start_pos g) \<and>
      wf_list (pushanswer g) \<and> legals (walls g) (rev (moves (pushanswer g))) (start_pos g))"

definition state_ok :: "gamesetup \<Rightarrow> gamestate \<Rightarrow> bool" where
  "state_ok g s =
     (length (gmap s) = 1024 \<and> cells 0 (gmap s) = goals g \<and> cells 1 (gmap s) = {player s} \<and>
      cells 3 (gmap s) = walls g \<and> wf_list (undo s) \<and> wf_list (redo s) \<and>
      legals (walls g) (moves (undo s)) (start_pos g) \<and>
      fold apply_move (moves (undo s)) (start_pos g) = abs_pos s \<and>
      legals (walls g) (rev (moves (redo s))) (abs_pos s) \<and>
      movecount s = int (length (moves (undo s))) \<and>
      pushcount s = int (length (filter box (moves (undo s)))) \<and>
      storecount s = int (card (cells 2 (gmap s) \<inter> goals g)))"

definition macro_ok :: "dyx movelist \<Rightarrow> bool" where
  "macro_ok l = ((wf_list l \<or> count l = 0 \<and> arr l = []) \<and> (\<forall>m. Some m \<in> set (arr l) \<longrightarrow> yx m \<in> dirs))"

definition macros_ok :: "world \<Rightarrow> bool" where
  "macros_ok w =
     (length (macros w) = 1024 \<and> (\<forall>l \<in> set (macros w). macro_ok l) \<and>
      (recording w \<longrightarrow> (\<exists>k < 1024. macro w = Some k \<and> wf_list (macros w ! k))) \<and>
      (0 \<le> macroplay w \<longrightarrow> \<not> recording w \<and>
         (\<exists>k < 1024. macro w = Some k \<and> get_move (macros w ! k) (nat (macroplay w)) \<noteq> None)))"

definition world_ok :: "world \<Rightarrow> bool" where
  "world_ok w =
     (level_ok (game w) \<and> state_ok (game w) (gs w) \<and> (\<forall>s \<in> set (stack w). state_ok (game w) s) \<and>
      macros_ok w)"

section \<open>Lemmas\<close>

subsection \<open>Flags\<close>

lemma rdi_in: "0 \<le> i \<Longrightarrow> i < int (length m) \<Longrightarrow> rdi m i = Some (m ! nat i)"
  by (simp add: rdi_def)

lemma flag_bits: "c AND GOAL \<noteq> 0 \<longleftrightarrow> bit c 0" "c AND PLAYER \<noteq> 0 \<longleftrightarrow> bit c 1"
    "c AND BOX \<noteq> 0 \<longleftrightarrow> bit c 2" "c AND WALL \<noteq> 0 \<longleftrightarrow> bit c 3"
proof -
  have p: "GOAL = push_bit 0 1" "PLAYER = push_bit 1 1" "BOX = push_bit 2 1" "WALL = push_bit 3 1"
    by (simp_all add: GOAL_def PLAYER_def BOX_def WALL_def)
  show "c AND GOAL \<noteq> 0 \<longleftrightarrow> bit c 0" "c AND PLAYER \<noteq> 0 \<longleftrightarrow> bit c 1"
    "c AND BOX \<noteq> 0 \<longleftrightarrow> bit c 2" "c AND WALL \<noteq> 0 \<longleftrightarrow> bit c 3"
    unfolding p by (simp_all only: bit_iff_and_push_bit_not_eq_0)
qed

lemma flag_or: "c AND (BOX OR WALL) \<noteq> 0 \<longleftrightarrow> bit c 2 \<or> bit c 3"
proof -
  have "c AND (BOX OR WALL) \<noteq> 0 \<longleftrightarrow> c AND BOX \<noteq> 0 \<or> c AND WALL \<noteq> 0"
    by (simp add: bit.conj_disj_distrib or_eq_0_iff)
  then show ?thesis by (simp only: flag_bits)
qed

definition flag :: "nat \<Rightarrow> u8" where
  "flag k = push_bit k 1"

lemma flags: "GOAL = flag 0" "PLAYER = flag 1" "BOX = flag 2" "WALL = flag 3"
  by (simp_all add: flag_def GOAL_def PLAYER_def BOX_def WALL_def)

lemma bit_flag: "bit (flag k) j \<longleftrightarrow> j = k \<and> k < 8"
  by (simp only: flag_def bit_push_bit_iff bit_1_iff possible_bit_word) auto

lemma and_flag: "c AND flag k \<noteq> 0 \<longleftrightarrow> bit c k"
  by (simp only: flag_def bit_iff_and_push_bit_not_eq_0)

lemma on_flag_in:
  assumes "0 \<le> i" "i < int (length m)"
  shows "on_flag m i (flag k) = Some (i \<in> cells k m)"
  using assms by (simp add: on_flag_def rdi_in cells_def and_flag)

lemma on_flag_box_wall:
  assumes "0 \<le> i" "i < int (length m)"
  shows "on_flag m i (BOX OR WALL) = Some (i \<in> cells 2 m \<union> cells 3 m)"
  using assms by (simp add: on_flag_def rdi_in flag_or) (simp add: cells_def)

lemma set_flag_in:
  assumes "0 \<le> i" "i < int (length m)" "k < 8"
  obtains m' where "set_flag m i (flag k) = Some m'" "length m' = length m"
    "\<And>j. cells j m' = (if j = k then insert i (cells j m) else cells j m)"
proof
  let ?m = "m[nat i := (m ! nat i) OR flag k]"
  show "set_flag m i (flag k) = Some ?m" using assms by (simp add: set_flag_def rdi_in)
  show "length ?m = length m" by simp
  fix j
  have b: "bit (m ! nat i OR flag k) j \<longleftrightarrow> bit (m ! nat i) j \<or> j = k"
    using assms(3) by (auto simp: bit_or_iff bit_flag)
  have "i' \<in> cells j ?m \<longleftrightarrow> i' \<in> (if j = k then insert i (cells j m) else cells j m)" for i'
    using assms b by (cases "i' = i") (auto simp: cells_def nth_list_update)
  then show "cells j ?m = (if j = k then insert i (cells j m) else cells j m)" by blast
qed

lemma clear_flag_in:
  assumes "0 \<le> i" "i < int (length m)"
  obtains m' where "clear_flag m i (flag k) = Some m'" "length m' = length m"
    "\<And>j. cells j m' = (if j = k then cells j m - {i} else cells j m)"
proof
  let ?m = "m[nat i := (m ! nat i) AND NOT (flag k)]"
  show "clear_flag m i (flag k) = Some ?m" using assms by (simp add: clear_flag_def rdi_in)
  show "length ?m = length m" by simp
  fix j
  have b: "bit (m ! nat i AND NOT (flag k)) j \<longleftrightarrow> bit (m ! nat i) j \<and> j \<noteq> k"
    using bit_imp_le_length [of "m ! nat i" j] by (auto simp: bit_and_iff bit_not_iff bit_flag)
  have "i' \<in> cells j ?m \<longleftrightarrow> i' \<in> (if j = k then cells j m - {i} else cells j m)" for i'
    using assms b by (cases "i' = i") (auto simp: cells_def nth_list_update)
  then show "cells j ?m = (if j = k then cells j m - {i} else cells j m)" by blast
qed

lemma finite_cells: "finite (cells k m)"
  by (rule finite_subset [of _ "{0..<int (length m)}"]) (auto simp: cells_def)

lemma card_moved:
  assumes "finite B" "a \<in> B" "b \<notin> B"
  shows "int (card (insert b (B - {a}) \<inter> G))
    = int (card (B \<inter> G)) - (if a \<in> G then 1 else 0) + (if b \<in> G then 1 else 0)"
proof -
  have e: "insert b (B - {a}) \<inter> G = (if b \<in> G then insert b (B \<inter> G - {a}) else B \<inter> G - {a})"
    by auto
  have f: "finite (B \<inter> G - {a})" "b \<notin> B \<inter> G - {a}" using assms by auto
  have "int (card (B \<inter> G - {a})) = int (card (B \<inter> G)) - (if a \<in> G then 1 else 0)"
  proof (cases "a \<in> G")
    case True
    then have "card (B \<inter> G) = Suc (card (B \<inter> G - {a}))"
      using assms by (intro card.remove) auto
    then show ?thesis using True by simp
  qed (simp add: Diff_triv)
  then show ?thesis unfolding e using f by simp
qed

lemma push_box_spec:
  assumes "length m = 1024" "0 \<le> a" "a < 1024" "0 \<le> b" "b < 1024" "a \<in> cells 2 m" "b \<notin> cells 2 m"
  obtains m' where "push_box m a b n = Some (m', n - (if a \<in> cells 0 m then 1 else 0) + (if b \<in> cells 0 m then 1 else 0))"
    "length m' = 1024" "cells 2 m' = insert b (cells 2 m - {a})" "\<And>k. k \<noteq> 2 \<Longrightarrow> cells k m' = cells k m"
proof -
  obtain m1 where m1: "clear_flag m a (flag 2) = Some m1" "length m1 = length m"
    "\<And>j. cells j m1 = (if j = 2 then cells j m - {a} else cells j m)"
    using clear_flag_in [of a m 2] assms by auto
  obtain m2 where m2: "set_flag m1 b (flag 2) = Some m2" "length m2 = length m1"
    "\<And>j. cells j m2 = (if j = 2 then insert b (cells j m1) else cells j m1)"
    using set_flag_in [of b m1 2] assms m1(2) by auto
  have "push_box m a b n = Some (m2, n - (if a \<in> cells 0 m then 1 else 0) + (if b \<in> cells 0 m then 1 else 0))"
    using assms m1 m2 by (simp add: push_box_def flags on_flag_in)
  then show thesis using that m1 m2 assms(1) by simp
qed

subsection \<open>The abstract game\<close>

lemma inside_step:
  assumes "inside W p" "d \<in> dirs"
  shows "0 \<le> p" "p < 1024" "0 \<le> p + d" "p + d < 1024" "p + d \<notin> W \<Longrightarrow> inside W (p + d)"
  using assms by (auto simp: inside_def enclosed_def)

lemma dirs_nonzero: "d \<in> dirs \<Longrightarrow> d \<noteq> 0"
  by (auto simp: dirs_def)

lemma dirs_minus: "- d \<in> dirs \<longleftrightarrow> d \<in> dirs"
  by (auto simp: dirs_def)

lemma legal_good:
  assumes "good W s" "legal W m s"
  shows "good W (apply_move m s)"
proof -
  obtain p B where s: "s = (p, B)" by (cases s)
  have d: "yx m \<in> dirs" "p + yx m \<notin> W" "inside W p" using assms by (auto simp: s good_def legal_def)
  have i: "inside W (p + yx m)" using inside_step(5) [OF d(3,1,2)] .
  note r = inside_step [OF i d(1)]
  show ?thesis
    using assms i r d dirs_nonzero [OF d(1)]
    by (auto simp: s good_def legal_def apply_move_def)
qed

lemma legals_append: "legals W (xs @ ys) s \<longleftrightarrow> legals W xs s \<and> legals W ys (fold apply_move xs s)"
  by (induction xs arbitrary: s) auto

lemma legals_good: "good W s \<Longrightarrow> legals W ms s \<Longrightarrow> good W (fold apply_move ms s)"
  by (induction ms arbitrary: s) (auto simp: legal_good)

text \<open>The inverse of a legal move.\<close>

definition unapply :: "dyx \<Rightarrow> int \<times> int set \<Rightarrow> int \<times> int set" where
  "unapply m s = (case s of (p, B) \<Rightarrow> (p - yx m, if box m then insert p (B - {p + yx m}) else B))"

lemma unapply_apply: "legal W m s \<Longrightarrow> unapply m (apply_move m s) = s"
  by (cases s) (auto simp: legal_def apply_move_def unapply_def)

subsection \<open>Macros\<close>

lemma macro_ok_add:
  assumes "macro_ok l" "wf_list l" "yx m \<in> dirs" "addtomovelist l m = Some l'"
  shows "macro_ok l'" "wf_list l'"
proof -
  show wf: "wf_list l'" using ml.push [OF assms(2), of m] assms(4) by auto
  have "set (arr l') \<subseteq> insert (Some m) (insert None (set (arr l)))"
    using assms(4) set_update_subset_insert
    by (auto simp: addtomovelist_def realloc_def Let_def wr_def split: if_splits
        dest!: set_update_subset_insert [THEN subsetD] in_set_takeD)
  then show "macro_ok l'" using wf assms(1,3) by (auto simp: macro_ok_def)
qed

lemma macro_ok_drop: "macro_ok l \<Longrightarrow> wf_list l \<Longrightarrow> macro_ok (drop_move l)"
  using drop_move_wf [of l] by (auto simp: macro_ok_def drop_move_def)

lemma macros_ok_gs [simp]: "macros_ok (w\<lparr>gs := s\<rparr>) = macros_ok w"
  by (simp add: macros_ok_def)

lemma set_macro_ok:
  assumes "\<forall>l \<in> set ms. macro_ok l" "macro_ok l"
  shows "\<forall>l \<in> set (ms[k := l]). macro_ok l"
  using assms by (rule ball_list_update)

lemma record_move_ok:
  assumes "macros_ok w" "yx m \<in> dirs"
  obtains ms where "record_move m w = Some (w\<lparr>macros := ms\<rparr>)" "macros_ok (w\<lparr>macros := ms\<rparr>)"
proof (cases "recording w")
  case False
  then have "record_move m w = Some (w\<lparr>macros := macros w\<rparr>)" by (simp add: record_move_def)
  then show thesis using that [of "macros w"] assms(1) by simp
next
  case True
  then obtain k where k: "k < 1024" "macro w = Some k" "wf_list (macros w ! k)" "length (macros w) = 1024"
    "\<not> 0 \<le> macroplay w"
    using assms(1) by (auto simp: macros_ok_def)
  obtain l where l: "addtomovelist (macros w ! k) m = Some l" using ml.push [OF k(3)] by blast
  have mk: "macro_ok (macros w ! k)" using assms(1) k by (simp add: macros_ok_def)
  note ok = macro_ok_add [OF mk k(3) assms(2) l]
  have "record_move m w = Some (w\<lparr>macros := (macros w)[k := l]\<rparr>)"
    using True k l by (simp add: record_move_def)
  moreover have "macros_ok (w\<lparr>macros := (macros w)[k := l]\<rparr>)"
    using assms(1) k True ok set_macro_ok [of "macros w" l k] by (auto simp: macros_ok_def)
  ultimately show thesis by (rule that)
qed

lemma unrecord_move_ok:
  assumes "macros_ok w"
  obtains ms r where "unrecord_move w = Some (w\<lparr>macros := ms, recording := r\<rparr>)"
    "macros_ok (w\<lparr>macros := ms, recording := r\<rparr>)"
proof (cases "recording w")
  case False
  then have "unrecord_move w = Some (w\<lparr>macros := macros w, recording := recording w\<rparr>)"
    by (simp add: unrecord_move_def)
  then show thesis using that [of "recording w" "macros w"] assms(1) by simp
next
  case True
  then obtain k where k: "k < 1024" "macro w = Some k" "wf_list (macros w ! k)" "length (macros w) = 1024"
    "\<not> 0 \<le> macroplay w"
    using assms(1) by (auto simp: macros_ok_def)
  let ?l = "macros w ! k"
  have mk: "macro_ok ?l" using assms(1) k by (simp add: macros_ok_def)
  have dk: "macro_ok (drop_move ?l)" "wf_list (drop_move ?l)"
    using macro_ok_drop [OF mk k(3)] drop_move_wf [OF k(3)] by auto
  show thesis
  proof (cases "count ?l = 0")
    case True
    then have "unrecord_move w = Some (w\<lparr>macros := macros w, recording := recording w\<rparr>)"
      using k \<open>recording w\<close> by (simp add: unrecord_move_def)
    then show thesis using that [of "recording w" "macros w"] assms(1) by simp
  next
    case False
    then have "unrecord_move w = Some (w\<lparr>macros := (macros w)[k := drop_move ?l], recording := (count ?l - 1 \<noteq> 0)\<rparr>)"
      using k \<open>recording w\<close> by (simp add: unrecord_move_def)
    moreover have "macros_ok (w\<lparr>macros := (macros w)[k := drop_move ?l], recording := (count ?l - 1 \<noteq> 0)\<rparr>)"
      using assms k dk set_macro_ok [of "macros w" "drop_move ?l" k] by (auto simp: macros_ok_def)
    ultimately show thesis by (rule that)
  qed
qed

subsection \<open>Moves on the map\<close>

definition map_ok :: "gamesetup \<Rightarrow> gamestate \<Rightarrow> bool" where
  "map_ok g s = (length (gmap s) = 1024 \<and> cells 0 (gmap s) = goals g \<and> cells 1 (gmap s) = {player s} \<and>
     cells 3 (gmap s) = walls g \<and> storecount s = int (card (cells 2 (gmap s) \<inter> goals g)))"

lemma domove_spec:
  assumes mo: "map_ok g (gs w)" and good: "good (walls g) (abs_pos (gs w))"
    and legal: "legal (walls g) m (abs_pos (gs w))"
    and u: "wf_list (undo (gs w))" and mac: "macros_ok w"
  obtains s' ms where "domove m w = Some (w\<lparr>gs := s', macros := ms\<rparr>)"
    "macros_ok (w\<lparr>gs := s', macros := ms\<rparr>)" "map_ok g s'" "abs_pos s' = apply_move m (abs_pos (gs w))"
    "wf_list (undo s')" "moves (undo s') = moves (undo (gs w)) @ [m]" "redo s' = redo (gs w)"
    "movecount s' = movecount (gs w) + 1"
    "pushcount s' = pushcount (gs w) + (if box m then 1 else 0)"
proof -
  define s where "s = gs w"
  let ?p = "player s" and ?q = "player s + yx m" and ?B = "cells 2 (gmap s)"
  have mm: "length (gmap s) = 1024" "cells 0 (gmap s) = goals g" "cells 1 (gmap s) = {?p}"
    "cells 3 (gmap s) = walls g" "storecount s = int (card (?B \<inter> goals g))"
    using mo by (auto simp: map_ok_def s_def)
  have g: "inside (walls g) ?p" "?p \<notin> ?B" and lg: "yx m \<in> dirs" "?q \<notin> walls g" "box m \<longleftrightarrow> ?q \<in> ?B"
    "box m \<Longrightarrow> ?q + yx m \<notin> ?B"
    using good legal by (auto simp: good_def legal_def abs_pos_def s_def)
  note r = inside_step [OF g(1) lg(1)]
  note r' = inside_step [OF r(5) [OF lg(2)] lg(1)]
  obtain m1 where m1: "clear_flag (gmap s) ?p (flag 1) = Some m1" "length m1 = length (gmap s)"
    "\<And>j. cells j m1 = (if j = 1 then cells j (gmap s) - {?p} else cells j (gmap s))"
    using clear_flag_in [of ?p "gmap s" 1] r mm by auto
  obtain m2 where m2: "set_flag m1 ?q (flag 1) = Some m2" "length m2 = length m1"
    "\<And>j. cells j m2 = (if j = 1 then insert ?q (cells j m1) else cells j m1)"
    using set_flag_in [of ?q m1 1] r m1 mm by auto
  have c2: "cells 2 m2 = ?B" "cells 0 m2 = goals g" "cells 1 m2 = {?q}" "cells 3 m2 = walls g" "length m2 = 1024"
    using m1 m2 mm by auto
  obtain m3 n where m3: "(if box m then push_box m2 ?q (?q + yx m) (storecount s) else Some (m2, storecount s)) = Some (m3, n)"
    "length m3 = 1024" "cells 2 m3 = snd (apply_move m (?p, ?B))" "\<And>k. k \<noteq> 2 \<Longrightarrow> cells k m3 = cells k m2"
    "n = int (card (cells 2 m3 \<inter> goals g))"
  proof (cases "box m")
    case False
    then show thesis using that [of m2 "storecount s"] c2 mm by (simp add: apply_move_def)
  next
    case True
    obtain m' where m': "push_box m2 ?q (?q + yx m) (storecount s) = Some (m', storecount s
        - (if ?q \<in> cells 0 m2 then 1 else 0) + (if ?q + yx m \<in> cells 0 m2 then 1 else 0))"
      "length m' = 1024" "cells 2 m' = insert (?q + yx m) (cells 2 m2 - {?q})" "\<And>k. k \<noteq> 2 \<Longrightarrow> cells k m' = cells k m2"
      using push_box_spec [of m2 ?q "?q + yx m" "storecount s"] c2 r' True lg by auto
    have "int (card (insert (?q + yx m) (?B - {?q}) \<inter> goals g))
      = storecount s - (if ?q \<in> goals g then 1 else 0) + (if ?q + yx m \<in> goals g then 1 else 0)"
      using card_moved [OF finite_cells, of ?q 2 "gmap s" "?q + yx m" "goals g"] True lg mm by simp
    then show thesis using that [of m'] True m' c2 by (simp add: apply_move_def)
  qed
  obtain u' where u': "addtomovelist (undo s) m = Some u'" "wf_list u'" "moves u' = moves (undo s) @ [m]"
    using ml.push [OF u [folded s_def]] by blast
  let ?s = "s\<lparr>gmap := m3, player := ?q, movecount := movecount s + 1, storecount := n,
      pushcount := (if box m then pushcount s + 1 else pushcount s), undo := u'\<rparr>"
  have mac': "macros_ok (w\<lparr>gs := ?s\<rparr>)" using mac by simp
  obtain ms where ms: "record_move m (w\<lparr>gs := ?s\<rparr>) = Some (w\<lparr>gs := ?s, macros := ms\<rparr>)"
    "macros_ok (w\<lparr>gs := ?s, macros := ms\<rparr>)"
    using record_move_ok [OF mac' lg(1)] by auto
  have dm: "domove m w = Some (w\<lparr>gs := ?s, macros := ms\<rparr>)"
    using m1(1) m2(1) m3(1) u'(1) ms(1) by (simp add: domove_def flags Let_def flip: s_def)
  have mk: "map_ok g ?s" using m3 c2 by (simp add: map_ok_def)
  have ab: "abs_pos ?s = apply_move m (abs_pos (gs w))"
    using m3(3) by (simp add: abs_pos_def apply_move_def s_def)
  show thesis
    by (rule that [OF dm ms(2) mk ab]) (use u' in \<open>simp_all add: s_def\<close>)
qed

lemma undomove_spec:
  assumes mo: "map_ok g (gs w)" and good: "good (walls g) t"
    and legal: "legal (walls g) m t" and t: "abs_pos (gs w) = apply_move m t"
    and u: "wf_list (undo (gs w))" "moves (undo (gs w)) = us @ [m]"
    and rd: "wf_list (redo (gs w))" and mac: "macros_ok w"
  obtains s' ms rec where "undomove w = Some (True, w\<lparr>gs := s', macros := ms, recording := rec\<rparr>)"
    "macros_ok (w\<lparr>gs := s', macros := ms, recording := rec\<rparr>)" "map_ok g s'" "abs_pos s' = t"
    "wf_list (undo s')" "moves (undo s') = us" "wf_list (redo s')"
    "moves (redo s') = moves (redo (gs w)) @ [m]"
    "movecount s' = movecount (gs w) - 1"
    "pushcount s' = pushcount (gs w) - (if box m then 1 else 0)"
proof -
  define s where "s = gs w"
  obtain p C where tp: "t = (p, C)" by (cases t)
  let ?q = "player s" and ?B = "cells 2 (gmap s)"
  have mm: "length (gmap s) = 1024" "cells 0 (gmap s) = goals g" "cells 1 (gmap s) = {?q}"
    "cells 3 (gmap s) = walls g" "storecount s = int (card (?B \<inter> goals g))"
    using mo by (auto simp: map_ok_def s_def)
  have q: "?q = p + yx m" "?B = (if box m then insert (?q + yx m) (C - {?q}) else C)"
    using t by (auto simp: tp abs_pos_def apply_move_def s_def)
  have g: "inside (walls g) p" "p \<notin> C" and lg: "yx m \<in> dirs" "?q \<notin> walls g" "box m \<longleftrightarrow> ?q \<in> C"
    "box m \<Longrightarrow> ?q + yx m \<notin> C"
    using good legal by (auto simp: good_def legal_def tp q(1))
  note r = inside_step [OF g(1) lg(1)]
  note r' = inside_step [OF r(5) lg(1), folded q(1), OF lg(2)]
  have c: "count (undo s) \<noteq> 0" "get_move (undo s) (count (undo s) - 1) = Some m"
    using ml.peek [OF u(1)] ml.sz [OF u(1)] u(2) by (simp_all add: s_def)
  obtain r1 where r1: "addtomovelist (redo s) m = Some r1" "wf_list r1" "moves r1 = moves (redo s) @ [m]"
    using ml.push [OF rd [folded s_def]] by blast
  obtain m1 n where m1: "(if box m then push_box (gmap s) (?q + yx m) ?q (storecount s) else Some (gmap s, storecount s)) = Some (m1, n)"
    "length m1 = 1024" "cells 2 m1 = C" "\<And>k. k \<noteq> 2 \<Longrightarrow> cells k m1 = cells k (gmap s)"
    "n = int (card (C \<inter> goals g))"
  proof (cases "box m")
    case False
    then show thesis using that [of "gmap s" "storecount s"] mm q by simp
  next
    case True
    have nz: "yx m \<noteq> 0" using dirs_nonzero [OF lg(1)] .
    obtain m' where m': "push_box (gmap s) (?q + yx m) ?q (storecount s) = Some (m', storecount s
        - (if ?q + yx m \<in> cells 0 (gmap s) then 1 else 0) + (if ?q \<in> cells 0 (gmap s) then 1 else 0))"
      "length m' = 1024" "cells 2 m' = insert ?q (?B - {?q + yx m})" "\<And>k. k \<noteq> 2 \<Longrightarrow> cells k m' = cells k (gmap s)"
      using push_box_spec [of "gmap s" "?q + yx m" ?q "storecount s"] mm r' True lg q(2) nz by auto
    have C: "insert ?q (?B - {?q + yx m}) = C" using q(2) True lg by auto
    have "int (card (C \<inter> goals g))
      = storecount s - (if ?q + yx m \<in> goals g then 1 else 0) + (if ?q \<in> goals g then 1 else 0)"
      using card_moved [OF finite_cells, of "?q + yx m" 2 "gmap s" ?q "goals g"] C True lg mm q(2) nz by auto
    then show thesis using that [of m'] True m' C mm by simp
  qed
  obtain m2 where m2: "clear_flag m1 ?q (flag 1) = Some m2" "length m2 = length m1"
    "\<And>j. cells j m2 = (if j = 1 then cells j m1 - {?q} else cells j m1)"
    using clear_flag_in [of ?q m1 1] r' m1(2) by auto
  obtain m3 where m3: "set_flag m2 (?q - yx m) (flag 1) = Some m3" "length m3 = length m2"
    "\<And>j. cells j m3 = (if j = 1 then insert (?q - yx m) (cells j m2) else cells j m2)"
    using set_flag_in [of "?q - yx m" m2 1] r m1(2) m2(2) q(1) by auto
  let ?s = "s\<lparr>gmap := m3, player := ?q - yx m, movecount := movecount s - 1, storecount := n,
      pushcount := (if box m then pushcount s - 1 else pushcount s), undo := drop_move (undo s), redo := r1\<rparr>"
  have mac': "macros_ok (w\<lparr>gs := ?s\<rparr>)" using mac by simp
  obtain ms rec where ms: "unrecord_move (w\<lparr>gs := ?s\<rparr>) = Some (w\<lparr>gs := ?s, macros := ms, recording := rec\<rparr>)"
    "macros_ok (w\<lparr>gs := ?s, macros := ms, recording := rec\<rparr>)"
    by (rule unrecord_move_ok [OF mac'])
  have dm: "undomove w = Some (True, w\<lparr>gs := ?s, macros := ms, recording := rec\<rparr>)"
    using c r1(1) m1(1) m2(1) m3(1) ms(1) by (simp add: undomove_def flags Let_def flip: s_def)
  have mk: "map_ok g ?s" using m1 m2 m3 mm by (simp add: map_ok_def)
  have ab: "abs_pos ?s = t"
    using m1 m2 m3 q by (simp add: abs_pos_def tp)
  show thesis
    by (rule that [OF dm ms(2) mk ab])
      (use r1 ml.pop [OF u(1)] u(2) in \<open>simp_all add: s_def\<close>)
qed

definition hist_ok :: "gamesetup \<Rightarrow> gamestate \<Rightarrow> bool" where
  "hist_ok g s =
     (map_ok g s \<and> wf_list (undo s) \<and> legals (walls g) (moves (undo s)) (start_pos g) \<and>
      fold apply_move (moves (undo s)) (start_pos g) = abs_pos s \<and>
      movecount s = int (length (moves (undo s))) \<and>
      pushcount s = int (length (filter box (moves (undo s)))))"

lemma state_ok_iff:
  "state_ok g s \<longleftrightarrow> hist_ok g s \<and> wf_list (redo s) \<and> legals (walls g) (rev (moves (redo s))) (abs_pos s)"
  by (auto simp: state_ok_def hist_ok_def map_ok_def)

lemma hist_good: "level_ok g \<Longrightarrow> hist_ok g s \<Longrightarrow> good (walls g) (abs_pos s)"
  using legals_good [of "walls g" "start_pos g" "moves (undo s)"] by (simp add: level_ok_def hist_ok_def)

lemma hist_ok_redo [simp]: "hist_ok g (s\<lparr>redo := r\<rparr>) = hist_ok g s"
  by (simp add: hist_ok_def map_ok_def abs_pos_def)

lemma abs_pos_redo [simp]: "abs_pos (s\<lparr>redo := r\<rparr>) = abs_pos s"
  by (simp add: abs_pos_def)

lemma domove_ok:
  assumes lev: "level_ok g" and h: "hist_ok g (gs w)" and lg: "legal (walls g) m (abs_pos (gs w))"
    and mac: "macros_ok w"
  obtains s' ms where "domove m w = Some (w\<lparr>gs := s', macros := ms\<rparr>)"
    "macros_ok (w\<lparr>gs := s', macros := ms\<rparr>)" "hist_ok g s'"
    "abs_pos s' = apply_move m (abs_pos (gs w))" "redo s' = redo (gs w)"
    "moves (undo s') = moves (undo (gs w)) @ [m]"
proof -
  have mo: "map_ok g (gs w)" "wf_list (undo (gs w))" using h by (simp_all add: hist_ok_def)
  obtain s' ms where d: "domove m w = Some (w\<lparr>gs := s', macros := ms\<rparr>)"
    "macros_ok (w\<lparr>gs := s', macros := ms\<rparr>)" "map_ok g s'" "abs_pos s' = apply_move m (abs_pos (gs w))"
    "wf_list (undo s')" "moves (undo s') = moves (undo (gs w)) @ [m]" "redo s' = redo (gs w)"
    "movecount s' = movecount (gs w) + 1" "pushcount s' = pushcount (gs w) + (if box m then 1 else 0)"
    by (rule domove_spec [OF mo(1) hist_good [OF lev h] lg mo(2) mac])
  have "hist_ok g s'"
    using d(3-9) h lg by (simp add: hist_ok_def legals_append)
  then show thesis by (rule that [OF d(1,2) _ d(4,7,6)])
qed

lemma undomove_ok:
  assumes lev: "level_ok g" and st: "state_ok g (gs w)" and mac: "macros_ok w"
    and c: "count (undo (gs w)) \<noteq> 0"
  obtains s' ms rec m where "undomove w = Some (True, w\<lparr>gs := s', macros := ms, recording := rec\<rparr>)"
    "macros_ok (w\<lparr>gs := s', macros := ms, recording := rec\<rparr>)" "state_ok g s'"
    "moves (undo (gs w)) = moves (undo s') @ [m]" "moves (redo s') = moves (redo (gs w)) @ [m]"
    "legal (walls g) m (abs_pos s')" "apply_move m (abs_pos s') = abs_pos (gs w)"
proof -
  have h: "hist_ok g (gs w)" and r: "wf_list (redo (gs w))"
      "legals (walls g) (rev (moves (redo (gs w)))) (abs_pos (gs w))"
    using st by (auto simp: state_ok_iff)
  have u: "map_ok g (gs w)" "wf_list (undo (gs w))" using h by (simp_all add: hist_ok_def)
  define us m where "us = butlast (moves (undo (gs w)))" and "m = last (moves (undo (gs w)))"
  have ne: "moves (undo (gs w)) \<noteq> []" using c ml.sz [OF u(2)] by auto
  have um: "moves (undo (gs w)) = us @ [m]" using ne by (simp add: us_def m_def)
  define t where "t = fold apply_move us (start_pos g)"
  have l: "legals (walls g) us (start_pos g)" "legal (walls g) m t" "abs_pos (gs w) = apply_move m t"
    using h by (auto simp: hist_ok_def um legals_append t_def)
  have "good (walls g) t"
    unfolding t_def using lev l(1) by (intro legals_good) (simp_all add: level_ok_def)
  then obtain s' ms rec where d: "undomove w = Some (True, w\<lparr>gs := s', macros := ms, recording := rec\<rparr>)"
    "macros_ok (w\<lparr>gs := s', macros := ms, recording := rec\<rparr>)" "map_ok g s'" "abs_pos s' = t"
    "wf_list (undo s')" "moves (undo s') = us" "wf_list (redo s')"
    "moves (redo s') = moves (redo (gs w)) @ [m]"
    "movecount s' = movecount (gs w) - 1"
    "pushcount s' = pushcount (gs w) - (if box m then 1 else 0)"
    by (rule undomove_spec [OF u(1) _ l(2,3) u(2) um r(1) mac])
  have "state_ok g s'"
    using d(3-10) h r l by (simp add: state_ok_iff hist_ok_def um t_def)
  then show thesis
    using that [OF d(1,2)] d(4,6,8) um l by simp
qed

lemma redomove_ok:
  assumes lev: "level_ok g" and st: "state_ok g (gs w)" and mac: "macros_ok w"
    and c: "count (redo (gs w)) \<noteq> 0"
  obtains s' ms m where "redomove w = Some (True, w\<lparr>gs := s', macros := ms\<rparr>)"
    "macros_ok (w\<lparr>gs := s', macros := ms\<rparr>)" "state_ok g s'"
    "get_move (redo (gs w)) (count (redo (gs w)) - 1) = Some m"
    "moves (redo (gs w)) = moves (redo s') @ [m]" "legal (walls g) m (abs_pos (gs w))"
    "abs_pos s' = apply_move m (abs_pos (gs w))" "moves (undo s') = moves (undo (gs w)) @ [m]"
proof -
  have h: "hist_ok g (gs w)" and r: "wf_list (redo (gs w))"
      "legals (walls g) (rev (moves (redo (gs w)))) (abs_pos (gs w))"
    using st by (auto simp: state_ok_iff)
  define rs m where "rs = butlast (moves (redo (gs w)))" and "m = last (moves (redo (gs w)))"
  have ne: "moves (redo (gs w)) \<noteq> []" using c ml.sz [OF r(1)] by auto
  have rm: "moves (redo (gs w)) = rs @ [m]" using ne by (simp add: rs_def m_def)
  have pk: "get_move (redo (gs w)) (count (redo (gs w)) - 1) = Some m"
    using ml.peek [OF r(1) ne] by (simp add: m_def)
  have lg: "legal (walls g) m (abs_pos (gs w))" "legals (walls g) (rev rs) (apply_move m (abs_pos (gs w)))"
    using r(2) by (simp_all add: rm)
  have dr: "wf_list (drop_move (redo (gs w)))" "moves (drop_move (redo (gs w))) = rs"
    using ml.pop [OF r(1)] by (simp_all add: rm)
  let ?w = "w\<lparr>gs := (gs w)\<lparr>redo := drop_move (redo (gs w))\<rparr>\<rparr>"
  have pre: "hist_ok g (gs ?w)" "legal (walls g) m (abs_pos (gs ?w))" "macros_ok ?w"
    using h lg(1) mac by simp_all
  obtain s' ms where d: "domove m ?w = Some (?w\<lparr>gs := s', macros := ms\<rparr>)"
    "macros_ok (?w\<lparr>gs := s', macros := ms\<rparr>)" "hist_ok g s'"
    "abs_pos s' = apply_move m (abs_pos (gs ?w))" "redo s' = redo (gs ?w)"
    "moves (undo s') = moves (undo (gs ?w)) @ [m]"
    by (rule domove_ok [OF lev pre])
  have "redomove w = Some (True, w\<lparr>gs := s', macros := ms\<rparr>)"
    using c pk d(1) by (simp add: redomove_def Let_def)
  moreover have "state_ok g s'" using d dr lg by (simp add: state_ok_iff)
  ultimately show thesis using that pk rm d dr lg by simp
qed

text \<open>The rule of the game for a step in direction \<open>d\<close>.\<close>

definition sokoban_rule :: "int set \<Rightarrow> int \<Rightarrow> int \<times> int set \<Rightarrow> (int \<times> int set) option" where
  "sokoban_rule W d s = (case s of (p, B) \<Rightarrow>
     if p + d \<in> W then None
     else if p + d \<in> B then
       (if p + d + d \<in> B \<union> W then None else Some (p + d, insert (p + d + d) (B - {p + d})))
     else Some (p + d, B))"

definition step_result :: "int set \<Rightarrow> int \<Rightarrow> gamestate \<Rightarrow> bool \<Rightarrow> gamestate \<Rightarrow> bool" where
  "step_result W d s b s' = (case sokoban_rule W d (abs_pos s) of
     None \<Rightarrow> \<not> b \<and> s' = s | Some t \<Rightarrow> b \<and> abs_pos s' = t)"

lemma newmove_ok:
  assumes lev: "level_ok g" and st: "state_ok g (gs w)" and mac: "macros_ok w" and d: "d \<in> dirs"
  obtains b s' ms rec where "newmove d w = Some (b, w\<lparr>gs := s', macros := ms, recording := rec\<rparr>)"
    "macros_ok (w\<lparr>gs := s', macros := ms, recording := rec\<rparr>)" "state_ok g s'"
    "step_result (walls g) d (gs w) b s'"
proof -
  define s where "s = gs w"
  let ?p = "player s" and ?j = "player s + d" and ?B = "cells 2 (gmap s)" and ?W = "walls g"
  have h: "hist_ok g s" and r: "wf_list (redo s)" using st by (auto simp: state_ok_iff s_def)
  have mm: "length (gmap s) = 1024" "cells 3 (gmap s) = ?W" "wf_list (undo s)"
    using h by (auto simp: hist_ok_def map_ok_def)
  have gd: "inside ?W ?p" "?p \<notin> ?B" using hist_good [OF lev h] by (auto simp: good_def abs_pos_def)
  note rg = inside_step [OF gd(1) d]
  have same: "w = w\<lparr>gs := s, macros := macros w, recording := recording w\<rparr>" by (simp add: s_def)
  have wall: "on_flag (gmap s) ?j WALL = Some (?j \<in> ?W)"
    using on_flag_in [of ?j "gmap s" 3] rg mm by (simp add: flags)
  have bx: "on_flag (gmap s) ?j BOX = Some (?j \<in> ?B)"
    using on_flag_in [of ?j "gmap s" 2] rg mm by (simp add: flags)
  show thesis
  proof (cases "?j \<in> ?W")
    case True
    then have "newmove d w = Some (False, w)" using wall by (simp add: newmove_def Let_def flip: s_def)
    moreover have "step_result ?W d (gs w) False s"
      using True by (simp add: step_result_def sokoban_rule_def abs_pos_def s_def)
    ultimately show thesis using that [of False "recording w" "macros w" s] st mac same s_def by simp
  next
    case nw: False
    note rg' = inside_step [OF rg(5) [OF nw] d]
    let ?undoing = "count (undo s) \<noteq> 0 \<and> \<not> box (last (moves (undo s))) \<and> yx (last (moves (undo s))) = - d"
    have bk: "(if count (undo s) \<noteq> 0 then
                 do { move \<leftarrow> get_move (undo s) (count (undo s) - 1); Some (\<not> box move \<and> yx move = - d) }
               else Some False) = Some ?undoing"
      using last_move(1) [OF mm(3)] by simp
    let ?m = "\<lparr>yx = d, box = (?j \<in> ?B)\<rparr>"
    have stuck: "(if ?j \<in> ?B then on_flag (gmap s) (?j + d) (BOX OR WALL) else Some False)
        = Some (?j \<in> ?B \<and> ?j + d \<in> ?B \<union> ?W)"
      using on_flag_box_wall [of "?j + d" "gmap s"] rg' mm by simp
    let ?again = "count (redo s) \<noteq> 0 \<and> last (moves (redo s)) = ?m"
    have ag: "(if count (redo s) \<noteq> 0 then
            do { move \<leftarrow> get_move (redo s) (count (redo s) - 1); Some (box move = (?j \<in> ?B) \<and> yx move = d) }
          else Some False) = Some ?again"
      using last_move(1) [OF r] by (auto intro: dyx.equality)
    have nm: "newmove d w = (if ?undoing then undomove w
        else if ?j \<in> ?B \<and> ?j + d \<in> ?B \<union> ?W then Some (False, w)
        else if ?again then redomove w
        else do { w \<leftarrow> domove ?m w; Some (True, w\<lparr>gs := (gs w)\<lparr>redo := (redo (gs w))\<lparr>count := 0\<rparr>\<rparr>\<rparr>) })"
      using nw by (simp only: newmove_def Let_def s_def [symmetric] wall bk bx stuck ag Option.bind.bind_lunit if_False)
    show thesis
    proof (cases ?undoing)
      case True
      then have c: "count (undo (gs w)) \<noteq> 0" by (simp add: s_def)
      obtain s' ms rec m where u: "undomove w = Some (True, w\<lparr>gs := s', macros := ms, recording := rec\<rparr>)"
        "macros_ok (w\<lparr>gs := s', macros := ms, recording := rec\<rparr>)" "state_ok g s'"
        "moves (undo (gs w)) = moves (undo s') @ [m]" "moves (redo s') = moves (redo (gs w)) @ [m]"
        "legal (walls g) m (abs_pos s')" "apply_move m (abs_pos s') = abs_pos (gs w)"
        by (rule undomove_ok [OF lev st mac c])
      have m: "\<not> box m" "yx m = - d" using True u(4) by (simp_all add: s_def)
      have "newmove d w = undomove w"
        using nm True by simp
      moreover have "step_result ?W d (gs w) True s'"
      proof -
        have g': "good ?W (abs_pos s')" using hist_good [OF lev] u(3) by (simp add: state_ok_iff)
        have "abs_pos s' = (?j, ?B)"
          using u(7) m by (auto simp: apply_move_def abs_pos_def s_def)
        then show ?thesis using g' nw
          by (simp add: step_result_def sokoban_rule_def abs_pos_def s_def good_def)
      qed
      ultimately show thesis using that u(1-3) by simp
    next
      case nb: False
      show thesis
      proof (cases "?j \<in> ?B \<and> ?j + d \<in> ?B \<union> ?W")
        case True
        then have "newmove d w = Some (False, w)"
          using nm nb True by (simp only: if_False if_True simp_thms)
        moreover have "step_result ?W d (gs w) False s"
          using True nw by (simp add: step_result_def sokoban_rule_def abs_pos_def s_def)
        ultimately show thesis using that [of False "recording w" "macros w" s] st mac same s_def by simp
      next
        case ns: False
        have lg: "legal ?W ?m (abs_pos (gs w))"
          using nw ns d by (auto simp: legal_def abs_pos_def s_def)
        have res: "step_result ?W d (gs w) True s'" if "abs_pos s' = apply_move ?m (abs_pos (gs w))" for s'
          using that nw ns by (auto simp: step_result_def sokoban_rule_def abs_pos_def s_def apply_move_def)
        show thesis
        proof (cases ?again)
          case True
          then have c: "count (redo (gs w)) \<noteq> 0" by (simp add: s_def)
          obtain s' ms m where e: "redomove w = Some (True, w\<lparr>gs := s', macros := ms\<rparr>)"
            "macros_ok (w\<lparr>gs := s', macros := ms\<rparr>)" "state_ok g s'"
            "get_move (redo (gs w)) (count (redo (gs w)) - 1) = Some m"
            "moves (redo (gs w)) = moves (redo s') @ [m]" "legal (walls g) m (abs_pos (gs w))"
            "abs_pos s' = apply_move m (abs_pos (gs w))" "moves (undo s') = moves (undo (gs w)) @ [m]"
            by (rule redomove_ok [OF lev st mac c])
          have "m = ?m" using True e(5) by (simp add: s_def)
          moreover have "newmove d w = redomove w"
            using nm nb ns True by (simp only: if_False if_True simp_thms)
          ultimately show thesis
            using that [of True "recording w" ms s'] e(1-3,7) res by simp
        next
          case False
          obtain s' ms where e: "domove ?m w = Some (w\<lparr>gs := s', macros := ms\<rparr>)"
            "macros_ok (w\<lparr>gs := s', macros := ms\<rparr>)" "hist_ok g s'"
            "abs_pos s' = apply_move ?m (abs_pos (gs w))" "redo s' = redo (gs w)"
            "moves (undo s') = moves (undo (gs w)) @ [?m]"
            by (rule domove_ok [OF lev h [unfolded s_def] lg mac])
          let ?r = "(redo s')\<lparr>count := 0\<rparr>"
          have "newmove d w = Some (True, w\<lparr>gs := s'\<lparr>redo := ?r\<rparr>, macros := ms\<rparr>)"
            unfolding nm using nb ns False e(1) by (simp only: if_False Option.bind.bind_lunit) simp
          moreover have "state_ok g (s'\<lparr>redo := ?r\<rparr>)"
            using e r by (simp add: state_ok_iff s_def wf_list_def moves_def)
          moreover have "macros_ok (w\<lparr>gs := s'\<lparr>redo := ?r\<rparr>, macros := ms\<rparr>)"
            using e(2) by (simp add: macros_ok_def)
          ultimately show thesis
            using that [of True "recording w" ms "s'\<lparr>redo := ?r\<rparr>"] res [of "s'\<lparr>redo := ?r\<rparr>"] e(4) by simp
        qed
      qed
    qed
  qed
qed

subsection \<open>Every operation keeps the world consistent\<close>

text \<open>The part of the world that a move changes.\<close>

abbreviation moved :: "world \<Rightarrow> gamestate \<Rightarrow> dyx movelist list \<Rightarrow> bool \<Rightarrow> world" where
  "moved w s ms rec \<equiv> w\<lparr>gs := s, macros := ms, recording := rec\<rparr>"

lemma world_okD:
  assumes "world_ok w"
  shows "level_ok (game w)" "state_ok (game w) (gs w)" "macros_ok w"
    "\<And>s. s \<in> set (stack w) \<Longrightarrow> state_ok (game w) s"
  using assms by (auto simp: world_ok_def)

lemma world_ok_moved:
  "world_ok w \<Longrightarrow> state_ok (game w) s \<Longrightarrow> macros_ok (moved w s ms rec) \<Longrightarrow> world_ok (moved w s ms rec)"
  by (simp add: world_ok_def)

lemma undomove_world:
  assumes "world_ok w"
  shows "\<exists>b w'. undomove w = Some (b, w') \<and> world_ok w'"
proof (cases "count (undo (gs w)) = 0")
  case True
  then show ?thesis using assms by (auto simp: undomove_def)
next
  case False
  note ok = world_okD [OF assms]
  show ?thesis
    by (rule undomove_ok [OF ok(1-3) False]) (auto simp: world_ok_moved [OF assms])
qed

lemma redomove_world:
  assumes "world_ok w"
  shows "\<exists>b w'. redomove w = Some (b, w') \<and> world_ok w'"
proof (cases "count (redo (gs w)) = 0")
  case True
  then show ?thesis using assms by (auto simp: redomove_def)
next
  case False
  note ok = world_okD [OF assms]
  obtain s' ms m where "redomove w = Some (True, w\<lparr>gs := s', macros := ms\<rparr>)"
    "macros_ok (w\<lparr>gs := s', macros := ms\<rparr>)" "state_ok (game w) s'"
    by (rule redomove_ok [OF ok(1-3) False])
  then show ?thesis using world_ok_moved [OF assms, of s' "recording w" ms] by auto
qed

lemma undo_n_world: "world_ok w \<Longrightarrow> \<exists>w'. undo_n n w = Some w' \<and> world_ok w'"
proof (induction n arbitrary: w)
  case (Suc n)
  from undomove_world [OF Suc.prems] Suc.IH show ?case by fastforce
qed simp

lemma redo_n_world: "world_ok w \<Longrightarrow> \<exists>w'. redo_n n w = Some w' \<and> world_ok w'"
proof (induction n arbitrary: w)
  case (Suc n)
  from redomove_world [OF Suc.prems] Suc.IH show ?case by fastforce
qed simp

lemma newmove_world:
  assumes "world_ok w" "d \<in> dirs"
  obtains b s' ms rec where "newmove d w = Some (b, moved w s' ms rec)" "world_ok (moved w s' ms rec)"
    "step_result (walls (game w)) d (gs w) b s'"
proof -
  note ok = world_okD [OF assms(1)]
  show thesis
    by (rule newmove_ok [OF ok(1-3) assms(2)]) (auto intro: that world_ok_moved [OF assms(1)])
qed

lemma player_range: "world_ok w \<Longrightarrow> 0 \<le> player (gs w) \<and> player (gs w) < 1024"
  using hist_good [of "game w" "gs w"]
  by (auto simp: world_ok_def state_ok_iff good_def abs_pos_def inside_def enclosed_def)

lemma step_moves: "step_result W d s True s' \<Longrightarrow> player s' = player s + d"
  by (auto simp: step_result_def sokoban_rule_def abs_pos_def split: if_splits)

lemma newmoves_world:
  "world_ok w \<Longrightarrow> d \<in> dirs \<Longrightarrow> \<exists>s' ms rec. newmoves d w = Some (moved w s' ms rec) \<and>
     world_ok (moved w s' ms rec) \<and> sokoban_rule (walls (game w)) d (abs_pos s') = None"
proof (induction "nat (if 0 < d then 1024 - player (gs w) else player (gs w))" arbitrary: w rule: less_induct)
  case less
  obtain b s' ms rec where n: "newmove d w = Some (b, moved w s' ms rec)" "world_ok (moved w s' ms rec)"
    "step_result (walls (game w)) d (gs w) b s'"
    by (rule newmove_world [OF less.prems])
  show ?case
  proof (cases b)
    case False
    then have "sokoban_rule (walls (game w)) d (abs_pos s') = None" "s' = gs w"
      using n(3) by (auto simp: step_result_def split: option.splits)
    moreover have "newmoves d w = Some (moved w s' ms rec)"
      using n(1) False by (subst newmoves.simps) simp
    ultimately show ?thesis using n(2) by blast
  next
    case True
    let ?w = "moved w s' ms rec"
    have p: "player s' = player (gs w) + d" using step_moves n(3) True by simp
    have r: "0 \<le> player s'" "player s' < 1024" "0 \<le> player (gs w)" "player (gs w) < 1024"
      using player_range [OF n(2)] player_range [OF less.prems(1)] by simp_all
    have "nat (if 0 < d then 1024 - player (gs ?w) else player (gs ?w))
        < nat (if 0 < d then 1024 - player (gs w) else player (gs w))"
      using p r dirs_nonzero [OF less.prems(2)] by simp
    from less.hyps [OF this n(2) less.prems(2)]
    obtain s2 ms2 rec2 where "newmoves d ?w = Some (moved ?w s2 ms2 rec2)" "world_ok (moved ?w s2 ms2 rec2)"
      "sokoban_rule (walls (game w)) d (abs_pos s2) = None" by auto
    moreover have "newmoves d w = newmoves d ?w" using n(1) True by (subst newmoves.simps) simp
    ultimately show ?thesis by auto
  qed
qed

lemma macro_entry:
  assumes "macro_ok l" "get_move l i = Some m"
  shows "yx m \<in> dirs"
proof -
  have "i < length (arr l)" "arr l ! i = Some m"
    using assms(2) by (auto simp: get_move_def split: if_splits)
  then have "Some m \<in> set (arr l)" using nth_mem by metis
  then show ?thesis using assms(1) by (simp add: macro_ok_def)
qed

lemma macromove_world:
  assumes "world_ok w"
  shows "\<exists>b w'. macromove w = Some (b, w') \<and> world_ok w'"
proof (cases "0 \<le> macroplay w")
  case False
  then show ?thesis using assms by (auto simp: macromove_def)
next
  case True
  have ok: "macros_ok w" using assms by (simp add: world_ok_def)
  then obtain k m where k: "k < 1024" "macro w = Some k" "length (macros w) = 1024"
    "get_move (macros w ! k) (nat (macroplay w)) = Some m"
    using True by (auto simp: macros_ok_def)
  have "macro_ok (macros w ! k)" using ok k by (simp add: macros_ok_def)
  then have d: "yx m \<in> dirs" using macro_entry k(4) by blast
  obtain b s' ms rec where n: "newmove (yx m) w = Some (b, moved w s' ms rec)" "world_ok (moved w s' ms rec)"
    by (rule newmove_world [OF assms d])
  let ?w = "moved w s' ms rec"
  have ok': "macros_ok ?w" using n(2) by (simp add: world_ok_def)
  then have l: "length ms = 1024" "macro_ok (ms ! k)" "\<not> rec" using True k(1) by (auto simp: macros_ok_def)
  let ?v = "if \<not> b \<or> int (count (ms ! k)) \<le> macroplay w + 1 then ?w\<lparr>macroplay := - 1\<rparr>
            else ?w\<lparr>macroplay := macroplay w + 1\<rparr>"
  have "macromove w = Some (0 \<le> macroplay ?v, ?v)"
    using True k l n(1) by (simp add: macromove_def Let_def)
  moreover have "macros_ok ?v"
  proof (cases "\<not> b \<or> int (count (ms ! k)) \<le> macroplay w + 1")
    case True
    then show ?thesis using ok' by (simp add: macros_ok_def)
  next
    case False
    then have c: "nat (macroplay w + 1) < count (ms ! k)" using \<open>0 \<le> macroplay w\<close> by linarith
    then have "wf_list (ms ! k)" using l(2) by (auto simp: macro_ok_def)
    then have "get_move (ms ! k) (nat (macroplay w + 1)) \<noteq> None" using moves_nth c by fastforce
    then show ?thesis using False ok' k l(3) by (simp add: macros_ok_def)
  qed
  ultimately show ?thesis using n(2) by (auto simp: world_ok_def)
qed

lemma setmacro_world:
  assumes "world_ok w" "\<not> isplaying w"
  shows "\<exists>w'. setmacro w = Some w' \<and> world_ok w'"
proof (cases "recording w")
  case True
  then show ?thesis using assms by (simp add: setmacro_def world_ok_def macros_ok_def isplaying_def)
next
  case False
  let ?p = "nat (player (gs w))" and ?l = "macros w ! nat (player (gs w))"
  have r: "0 \<le> player (gs w)" "player (gs w) < 1024" using player_range [OF assms(1)] by auto
  have m: "length (macros w) = 1024" "macro_ok ?l" "\<forall>l \<in> set (macros w). macro_ok l"
    using assms(1) r by (auto simp: world_ok_def macros_ok_def)
  have i: "wf_list (initmovelist ?l)" using m(2) initmovelist_wf [of ?l] by (auto simp: macro_ok_def wf_list_def)
  then have "macro_ok (initmovelist ?l)"
    using m(2) by (auto simp: macro_ok_def initmovelist_def)
  then have "\<forall>l \<in> set ((macros w)[?p := initmovelist ?l]). macro_ok l" using m(3) by (intro ball_list_update)
  then show ?thesis
    using False assms r m i by (simp add: setmacro_def rdi_in world_ok_def macros_ok_def isplaying_def)
qed

lemma startmacro_world:
  assumes "world_ok w"
  shows "\<exists>b w'. startmacro w = Some (b, w') \<and> world_ok w'"
proof -
  let ?l = "macros w ! nat (player (gs w))"
  have r: "0 \<le> player (gs w)" "player (gs w) < 1024" using player_range [OF assms(1)] by auto
  have m: "length (macros w) = 1024" "macro_ok ?l" using assms(1) r by (auto simp: world_ok_def macros_ok_def)
  show ?thesis
  proof (cases "count ?l = 0")
    case True
    then show ?thesis using assms r m by (auto simp: startmacro_def rdi_in)
  next
    case False
    then have "wf_list ?l" using m(2) by (auto simp: macro_ok_def)
    then have "get_move ?l 0 \<noteq> None" using moves_nth [of ?l 0] False by simp
    then show ?thesis
      using False assms r m by (auto simp: startmacro_def rdi_in world_ok_def macros_ok_def)
  qed
qed

lemma copygamestate_ok: "state_ok g s \<Longrightarrow> state_ok g (copygamestate s)"
  using ml.dup [of "undo s" "undo s"] ml.dup [of "redo s" "redo s"]
  by (simp add: state_ok_def copygamestate_def abs_pos_def)

lemma savestate_world: "world_ok w \<Longrightarrow> world_ok (savestate w)"
  by (auto simp: world_ok_def savestate_def copygamestate_ok macros_ok_def)

lemma restorestate_world: "world_ok w \<Longrightarrow> world_ok (snd (restorestate w))"
  by (auto simp: world_ok_def restorestate_def macros_ok_def split: list.splits)

lemma initgamestate_ok:
  assumes lev: "level_ok (game w)" and mac: "macros_ok w"
    and st: "\<forall>s \<in> set (stack w). state_ok (game w) s"
    and u: "length (arr (undo (gs w))) = allocated (undo (gs w)) \<or> arr (undo (gs w)) = []"
  shows "world_ok (initgamestate usemoves w)"
proof -
  let ?g = "game w" and ?s = "gs (initgamestate usemoves w)"
  have lv: "wf_list (moveanswer ?g)" "wf_list (pushanswer ?g)"
    "legals (walls ?g) (rev (moves (moveanswer ?g))) (start_pos ?g)"
    "legals (walls ?g) (rev (moves (pushanswer ?g))) (start_pos ?g)"
    using lev by (auto simp: level_ok_def)
  note iu = initmovelist_wf [OF u]
  have "state_ok ?g ?s"
    using lev iu ml.dup [OF lv(1)] ml.dup [OF lv(2)] lv
    by (simp add: state_ok_def initgamestate_def Let_def level_ok_def start_pos_def abs_pos_def)
  moreover have "macros_ok (initgamestate usemoves w)"
  proof -
    have z: "macro_ok (l\<lparr>count := 0\<rparr>)" if "macro_ok l" for l
      using that by (auto simp: macro_ok_def wf_list_def)
    have gm: "get_move (l\<lparr>count := 0\<rparr>) i = get_move l i" for l :: "dyx movelist" and i
      by (simp add: get_move_def)
    show ?thesis
      using mac z by (auto simp: macros_ok_def initgamestate_def Let_def gm)
  qed
  ultimately show ?thesis using lev st by (simp add: world_ok_def initgamestate_def Let_def)
qed

lemma initgamestate_world: "world_ok w \<Longrightarrow> world_ok (initgamestate usemoves w)"
  by (rule initgamestate_ok) (auto simp: world_ok_def state_ok_def wf_list_def)

lemma foldo_moves:
  assumes "\<And>i. i \<in> set is \<Longrightarrow> get i = Some (f i)"
  shows "foldo (\<lambda>i a. do { m \<leftarrow> get i; push a m }) is a = foldo (\<lambda>m a. push a m) (map f is) a"
  using assms
proof (induction "is" arbitrary: a)
  case (Cons i js)
  then show ?case by (cases "push a (f i)") auto
qed simp

lemma answer_of_ok:
  assumes "wf_list u" "wf_list answer"
  obtains a where "answer_of u answer = Some a" "wf_list a" "moves a = rev (moves u)"
proof -
  have c: "wf_list (initmovelist answer)" "moves (initmovelist answer) = []"
    using ml.clear [OF assms(2)] by auto
  obtain a where a: "foldo (\<lambda>m l. addtomovelist l m) (rev (moves u)) (initmovelist answer) = Some a"
    "wf_list a" "moves a = rev (moves u)"
    using ml.push_list [OF c(1), of "rev (moves u)"] c(2) by auto
  have "map (\<lambda>i. moves u ! i) (rev [0..<count u]) = rev (moves u)"
    using moves_length [OF assms(1)] by (metis map_nth rev_map)
  moreover have "answer_of u answer
      = foldo (\<lambda>m l. addtomovelist l m) (map (\<lambda>i. moves u ! i) (rev [0..<count u])) (initmovelist answer)"
    unfolding answer_of_def by (rule foldo_moves) (simp add: moves_nth [OF assms(1)])
  ultimately show thesis using that a by simp
qed

lemma state_ok_cong:
  "g_map g' = g_map g \<Longrightarrow> start g' = start g \<Longrightarrow> state_ok g' s = state_ok g s"
  by (simp add: state_ok_def start_pos_def)

lemma level_ok_answers:
  assumes "level_ok g" "wf_list a" "legals (walls g) (rev (moves a)) (start_pos g)"
  shows "level_ok (g\<lparr>moveanswer := a, movebestcount := i, movebestpushcount := j\<rparr>)"
    "level_ok (g\<lparr>pushanswer := a, pushbestcount := i, pushbestmovecount := j\<rparr>)"
  using assms by (simp_all add: level_ok_def start_pos_def)

lemma replace_moveanswer_ok:
  assumes "level_ok g" "state_ok g s"
  obtains n g' where "replace_moveanswer saveinc s g = Some (n, g')" "level_ok g'" "g_map g' = g_map g"
    "start g' = start g"
    "movebestcount g = 0 \<or> movecount s < movebestcount g \<longrightarrow> moves (moveanswer g') = rev (moves (undo s))"
proof -
  have u: "wf_list (undo s)" "wf_list (moveanswer g)" "legals (walls g) (moves (undo s)) (start_pos g)"
    using assms by (auto simp: level_ok_def state_ok_def)
  obtain a where a: "answer_of (undo s) (moveanswer g) = Some a" "wf_list a" "moves a = rev (moves (undo s))"
    by (rule answer_of_ok [OF u(1,2)])
  have l: "legals (walls g) (rev (moves a)) (start_pos g)" using u(3) a(3) by simp
  show thesis
  proof (cases "movebestcount g = 0 \<or> movecount s < movebestcount g \<or>
         movecount s = movebestcount g \<and> pushcount s < movebestpushcount g")
    case True
    then show thesis
      using that [of True] a(1,3) level_ok_answers(1) [OF assms(1) a(2) l]
      by (simp add: replace_moveanswer_def)
  next
    case False
    then show thesis using that [of False g] assms(1) by (auto simp: replace_moveanswer_def)
  qed
qed

lemma replace_pushanswer_ok:
  assumes "level_ok g" "state_ok g s"
  obtains n g' where "replace_pushanswer saveinc s g = Some (n, g')" "level_ok g'" "g_map g' = g_map g"
    "start g' = start g" "moveanswer g' = moveanswer g"
proof -
  have u: "wf_list (undo s)" "wf_list (pushanswer g)" "legals (walls g) (moves (undo s)) (start_pos g)"
    using assms by (auto simp: level_ok_def state_ok_def)
  obtain a where a: "answer_of (undo s) (pushanswer g) = Some a" "wf_list a" "moves a = rev (moves (undo s))"
    by (rule answer_of_ok [OF u(1,2)])
  have l: "legals (walls g) (rev (moves a)) (start_pos g)" using u(3) a(3) by simp
  show thesis
  proof (cases "pushbestcount g = 0 \<or> pushcount s < pushbestcount g \<or>
         pushcount s = pushbestcount g \<and> movecount s < pushbestmovecount g")
    case True
    then show thesis
      using that [of True] a(1) level_ok_answers(2) [OF assms(1) a(2) l]
      by (simp add: replace_pushanswer_def)
  next
    case False
    then show thesis using that [of False g] assms(1) by (auto simp: replace_pushanswer_def)
  qed
qed

lemma replaceanswers_world:
  assumes "world_ok w"
  obtains b g' where "replaceanswers saveinc w = Some (b, w\<lparr>game := g'\<rparr>)" "world_ok (w\<lparr>game := g'\<rparr>)"
    "g_map g' = g_map (game w)" "start g' = start (game w)"
    "\<not> saveinc \<longrightarrow> movebestcount (game w) = 0 \<or> movecount (gs w) < movebestcount (game w) \<longrightarrow>
       moves (moveanswer g') = rev (moves (undo (gs w)))"
proof -
  note ok = world_okD [OF assms]
  obtain n1 g1 where g1: "replace_moveanswer saveinc (gs w) (game w) = Some (n1, g1)" "level_ok g1"
    "g_map g1 = g_map (game w)" "start g1 = start (game w)"
    "movebestcount (game w) = 0 \<or> movecount (gs w) < movebestcount (game w) \<longrightarrow>
       moves (moveanswer g1) = rev (moves (undo (gs w)))"
    by (rule replace_moveanswer_ok [where saveinc = saveinc, OF ok(1,2)])
  have s1: "state_ok g1 (gs w)" using ok(2) state_ok_cong [OF g1(3,4)] by simp
  obtain n2 g2 where g2: "replace_pushanswer saveinc (gs w) g1 = Some (n2, g2)" "level_ok g2"
    "g_map g2 = g_map g1" "start g2 = start g1" "moveanswer g2 = moveanswer g1"
    by (rule replace_pushanswer_ok [where saveinc = saveinc, OF g1(2) s1])
  have e: "g_map g2 = g_map (game w)" "start g2 = start (game w)" using g1 g2 by simp_all
  have wok: "world_ok (w\<lparr>game := g2\<rparr>)"
    using assms g2(2) state_ok_cong [OF e] by (simp add: world_ok_def macros_ok_def)
  show thesis
  proof (cases "saveinc \<and> (movebestcount (game w) \<noteq> 0 \<or> pushbestcount (game w) \<noteq> 0)")
    case True
    then have "replaceanswers saveinc w = Some (False, w\<lparr>game := game w\<rparr>)"
      by (simp add: replaceanswers_def)
    then show thesis using that [of False "game w"] assms True by simp
  next
    case False
    have "replaceanswers saveinc w = Some (n1 \<or> n2, w\<lparr>game := g2\<rparr>)"
      using False g1(1) g2(1) by (auto simp: replaceanswers_def)
    then show thesis using that [of "n1 \<or> n2" g2] wok e g1(5) g2(5) by simp
  qed
qed

lemma doturn_world:
  assumes "world_ok w"
  shows "\<exists>t. doturn key w = Some t \<and> (\<forall>w'. t = Stay w' \<longrightarrow> world_ok w')"
proof -
  have st: "\<exists>t. stay r = Some t \<and> (\<forall>w'. t = Stay w' \<longrightarrow> world_ok w')"
    if "\<exists>b w'. r = Some (b, w') \<and> world_ok w'" for r :: "(bool \<times> world) option"
    using that by (auto simp: stay_def)
  have ds: "- XSIZE \<in> dirs" "XSIZE \<in> dirs" "1 \<in> dirs" "- 1 \<in> dirs" by (simp_all add: dirs_def XSIZE_def)
  have nm: "\<exists>t. stay (newmove d w) = Some t \<and> (\<forall>w'. t = Stay w' \<longrightarrow> world_ok w')" if "d \<in> dirs" for d
    by (rule newmove_world [OF assms that]) (simp add: stay_def)
  have ns: "\<exists>t. (do { w \<leftarrow> newmoves d w; Some (Stay w) }) = Some t \<and> (\<forall>w'. t = Stay w' \<longrightarrow> world_ok w')"
    if "d \<in> dirs" for d
    using newmoves_world [OF assms that] by auto
  have un: "\<exists>b w'. undomoves n w = Some (b, w') \<and> world_ok w'"
    and re: "\<exists>b w'. redomoves n w = Some (b, w') \<and> world_ok w'" for n
    using undo_n_world [OF assms, of n] redo_n_world [OF assms, of n] assms
    by (auto simp: undomoves_def redomoves_def)
  have ra: "\<exists>b w'. replaceanswers True w = Some (b, w') \<and> world_ok w'"
    by (rule replaceanswers_world [where saveinc = True, OF assms]) auto
  show ?thesis
  proof (cases "isplaying w")
    case True
    then show ?thesis using st [OF macromove_world [OF assms]] by (simp add: doturn_def)
  next
    case False
    have sm: "\<exists>t. (do { w \<leftarrow> setmacro w; Some (Stay w) }) = Some t \<and> (\<forall>w'. t = Stay w' \<longrightarrow> world_ok w')"
      using setmacro_world [OF assms False] by auto
    show ?thesis
      unfolding doturn_def
      using False nm [OF ds(1)] nm [OF ds(2)] nm [OF ds(3)] nm [OF ds(4)]
        ns [OF ds(1)] ns [OF ds(2)] ns [OF ds(3)] ns [OF ds(4)]
        st [OF undomove_world [OF assms]] st [OF redomove_world [OF assms]] st [OF un] st [OF re] st [OF ra]
        st [OF startmacro_world [OF assms]] sm initgamestate_world [OF assms] savestate_world [OF assms]
        restorestate_world [OF assms] assms
      by simp
  qed
qed

subsection \<open>Sessions\<close>

definition empty_list :: "dyx movelist" where
  "empty_list = \<lparr>allocated = 0, count = 0, arr = []\<rparr>"

text \<open>The static variables before the first puzzle.\<close>

definition boot :: "gamesetup \<Rightarrow> bool \<Rightarrow> world" where
  "boot g usemoves = initgamestate usemoves
     \<lparr>game = g,
      gs = \<lparr>player = 0, storecount = 0, movecount = 0, pushcount = 0, undo = empty_list, redo = empty_list,
            gmap = []\<rparr>,
      stack = [], macros = replicate 1024 empty_list, macro = None, recording = False, macroplay = - 1\<rparr>"

text \<open>
  The worlds of a session: keys, the end of a puzzle (its answers are replaced and the saved
  states freed) and the next puzzle, at the end or on request.
\<close>

inductive session :: "world \<Rightarrow> bool" where
  session_boot: "level_ok g \<Longrightarrow> session (boot g usemoves)"
| session_turn: "session w \<Longrightarrow> doturn key w = Some (Stay w') \<Longrightarrow> session w'"
| session_done: "session w \<Longrightarrow> checkfinished w \<Longrightarrow> replaceanswers False w = Some (b, w') \<Longrightarrow> session w'"
| session_next: "session w \<Longrightarrow> level_ok g \<Longrightarrow>
    session (initgamestate usemoves (selectgame g (freesavedstates w)))"

lemma boot_ok: "level_ok g \<Longrightarrow> world_ok (boot g usemoves)"
  unfolding boot_def
  by (rule initgamestate_ok) (simp_all add: macros_ok_def macro_ok_def empty_list_def)

lemma session_ok: "session w \<Longrightarrow> world_ok w"
proof (induction rule: session.induct)
  case (session_turn w key w')
  then show ?case using doturn_world [of w key] by auto
next
  case (session_done w b w')
  then show ?case by (metis replaceanswers_world option.inject prod.inject)
next
  case (session_next w g usemoves)
  then show ?case
    by (intro initgamestate_ok)
      (auto simp: selectgame_def freesavedstates_def world_ok_def macros_ok_def state_ok_def wf_list_def)
qed (rule boot_ok)





subsection \<open>A small puzzle\<close>

text \<open>A corridor of three cells with the player, a box and a goal.\<close>

definition small_map :: "u8 list" where
  "small_map = (replicate 1024 0)[1 := 8, 2 := 8, 3 := 8, 32 := 8, 33 := 2, 34 := 4, 35 := 1, 36 := 8,
     65 := 8, 66 := 8, 67 := 8]"

definition fresh_list :: "dyx movelist" where
  "fresh_list = initmovelist empty_list"

definition small :: gamesetup where
  "small = \<lparr>boxcount = 1, goalcount = 1, g_storecount = 0, start = 33, movebestcount = 0, pushbestcount = 0,
     movebestpushcount = 0, pushbestmovecount = 0, moveanswer = fresh_list, pushanswer = fresh_list,
     g_map = small_map\<rparr>"

lemma cells_update:
  "i < length m \<Longrightarrow> cells k (m[i := c]) = (if bit c k then insert (int i) (cells k m) else cells k m - {int i})"
  by (auto simp: cells_def nth_list_update)

lemma cells_replicate: "cells k (replicate n 0) = {}"
  by (auto simp: cells_def)

lemma small_cells: "cells 0 small_map = {35}" "cells 1 small_map = {33}" "cells 2 small_map = {34}"
    "cells 3 small_map = {1, 2, 3, 32, 36, 65, 66, 67}"
  unfolding small_map_def by (simp_all add: cells_update cells_replicate bit_numeral_rec) auto

lemma small_ok: "level_ok small"
proof -
  have "enclosed {1, 2, 3, 32, 36, 65, 66, 67} {33, 34, 35}"
    by (simp add: enclosed_def dirs_def)
  then have "inside {1, 2, 3, 32, 36, 65, 66, 67} 33" unfolding inside_def by blast
  moreover have "wf_list fresh_list" "moves fresh_list = []"
    using initmovelist_wf [of empty_list] by (simp_all add: fresh_list_def empty_list_def)
  ultimately show ?thesis
    using small_cells by (simp add: level_ok_def small_def good_def start_pos_def) (simp add: small_map_def)
qed

lemma boot_small_abs: "abs_pos (gs (boot small True)) = (33, {34})" "game (boot small True) = small"
  using small_cells by (simp_all add: boot_def initgamestate_def Let_def small_def abs_pos_def)

lemma small_push:
  obtains w where "newmove 1 (boot small True) = Some (True, w)" "session w" "abs_pos (gs w) = (34, {35})"
    "game w = small"
proof -
  have s: "session (boot small True)" using small_ok by (rule session_boot)
  have d: "1 \<in> dirs" by (simp add: dirs_def)
  obtain b s' ms rec where n: "newmove 1 (boot small True) = Some (b, moved (boot small True) s' ms rec)"
    "step_result (walls (game (boot small True))) 1 (gs (boot small True)) b s'"
    by (rule newmove_world [OF session_ok [OF s] d])
  let ?w = "moved (boot small True) s' ms rec"
  have "sokoban_rule (walls small) 1 (33, {34}) = Some (34, {35})"
    using small_cells by (simp add: sokoban_rule_def small_def)
  then have b: "b" "abs_pos s' = (34, {35})" using n(2) by (simp_all add: step_result_def boot_small_abs)
  have "doturn (CHR ''l'') (boot small True) = Some (Stay ?w)"
    using n(1) by (simp add: doturn_def isplaying_def stay_def) (simp add: boot_def initgamestate_def Let_def)
  then have "session ?w" by (rule session_turn [OF s])
  then show thesis using that [of ?w] n(1) b boot_small_abs(2) by simp
qed

lemma fold_no_push: "\<forall>m \<in> set ms. \<not> box m \<Longrightarrow> snd (fold apply_move ms t) = snd t"
  by (induction ms arbitrary: t) (auto simp: apply_move_def split: prod.splits)

section \<open>Properties\<close>

text \<open>
  C27. In every world of a session a step follows the rule of Sokoban, whether it is carried out
  as a new move, an undo or a redo: it fails and changes nothing when the rule forbids it, and
  else returns true with the player and the boxes where the rule puts them.
\<close>

theorem newmove_implements_rule:
  assumes "session w" "d \<in> {- 1, 1, - 32, 32}"
  shows "\<exists>b w'. newmove d w = Some (b, w') \<and>
    (case sokoban_rule (walls (game w)) d (abs_pos (gs w)) of
       None \<Rightarrow> \<not> b \<and> gs w' = gs w
     | Some t \<Rightarrow> b \<and> abs_pos (gs w') = t)"
proof -
  have d: "d \<in> dirs" using assms(2) by (simp add: dirs_def)
  show ?thesis
    by (rule newmove_world [OF session_ok [OF assms(1)] d])
      (auto simp: step_result_def split: option.splits)
qed

theorem newmove_implements_rule_witness:
  "\<exists>w'. newmove 1 (boot small True) = Some (True, w') \<and> abs_pos (gs w') = (34, {35})"
proof -
  have s: "session (boot small True)" using small_ok by (rule session_boot)
  have "sokoban_rule (walls small) 1 (33, {34}) = Some (34, {35})"
    using small_cells by (simp add: sokoban_rule_def small_def)
  then show ?thesis
    using newmove_implements_rule [OF s, of 1] boot_small_abs by auto
qed



text \<open>
  Undo and redo are inverse: after an undo that succeeds, redo leads back to the same
  position with the same counters.
\<close>

theorem undo_redo_inverse:
  assumes "session w" "undomove w = Some (True, w1)"
  shows "\<exists>w2. redomove w1 = Some (True, w2) \<and> abs_pos (gs w2) = abs_pos (gs w) \<and>
    movecount (gs w2) = movecount (gs w) \<and> pushcount (gs w2) = pushcount (gs w) \<and>
    storecount (gs w2) = storecount (gs w) \<and> moves (undo (gs w2)) = moves (undo (gs w)) \<and>
    moves (redo (gs w2)) = moves (redo (gs w))"
proof -
  have ok: "world_ok w" using assms(1) by (rule session_ok)
  note k = world_okD [OF ok]
  have c: "count (undo (gs w)) \<noteq> 0"
  proof
    assume "count (undo (gs w)) = 0"
    then have "undomove w = Some (False, w)" by (simp add: undomove_def)
    then show False using assms(2) by simp
  qed
  obtain s' ms rec m where u: "undomove w = Some (True, moved w s' ms rec)"
    "macros_ok (moved w s' ms rec)" "state_ok (game w) s'"
    "moves (undo (gs w)) = moves (undo s') @ [m]" "moves (redo s') = moves (redo (gs w)) @ [m]"
    "legal (walls (game w)) m (abs_pos s')" "apply_move m (abs_pos s') = abs_pos (gs w)"
    by (rule undomove_ok [OF k(1-3) c])
  have w1: "w1 = moved w s' ms rec" using u(1) assms(2) by simp
  have ok1: "world_ok w1" unfolding w1 by (rule world_ok_moved [OF ok u(3,2)])
  note k1 = world_okD [OF ok1]
  have c1: "count (redo (gs w1)) \<noteq> 0"
    using ml.sz [of "redo s'"] u(3,5) by (simp add: w1 state_ok_def)
  obtain s2 ms2 m2 where e: "redomove w1 = Some (True, w1\<lparr>gs := s2, macros := ms2\<rparr>)"
    "macros_ok (w1\<lparr>gs := s2, macros := ms2\<rparr>)" "state_ok (game w1) s2"
    "get_move (redo (gs w1)) (count (redo (gs w1)) - 1) = Some m2"
    "moves (redo (gs w1)) = moves (redo s2) @ [m2]" "legal (walls (game w1)) m2 (abs_pos (gs w1))"
    "abs_pos s2 = apply_move m2 (abs_pos (gs w1))" "moves (undo s2) = moves (undo (gs w1)) @ [m2]"
    by (rule redomove_ok [OF k1(1-3) c1])
  have "m2 = m" "moves (redo s2) = moves (redo (gs w))" using e(5) u(5) by (simp_all add: w1)
  then have p: "abs_pos s2 = abs_pos (gs w)" "moves (undo s2) = moves (undo (gs w))"
    using e(7,8) u(4,7) by (simp_all add: w1)
  then show ?thesis
    using e(1,3) k(2) \<open>moves (redo s2) = moves (redo (gs w))\<close> by (simp add: w1 state_ok_def abs_pos_def)
qed

theorem undo_redo_inverse_witness:
  "\<exists>w w1 w2. newmove 1 (boot small True) = Some (True, w) \<and> undomove w = Some (True, w1) \<and>
     redomove w1 = Some (True, w2) \<and> abs_pos (gs w2) = (34, {35})"
proof -
  obtain w where w: "newmove 1 (boot small True) = Some (True, w)" "session w" "abs_pos (gs w) = (34, {35})"
    "game w = small" by (rule small_push)
  have ok: "world_ok w" using w(2) by (rule session_ok)
  have "count (undo (gs w)) \<noteq> 0"
  proof
    assume "count (undo (gs w)) = 0"
    then have "abs_pos (gs w) = start_pos small"
      using ok w(4) by (simp add: world_ok_def state_ok_def moves_def)
    then show False using w(3) by (simp add: start_pos_def small_def)
  qed
  then obtain w1 where u: "undomove w = Some (True, w1)"
    using undomove_ok [OF world_okD(1-3) [OF ok]] by auto
  show ?thesis using undo_redo_inverse [OF w(2) u] w u by auto
qed




text \<open>
  Saving an unfinished game in which a box was pushed locks the puzzle against saving again:
  although there is no complete answer, the next save of an unfinished game is refused.
\<close>

theorem partial_save_locks:
  assumes "session w" "movebestcount (game w) = 0" "pushbestcount (game w) = 0" "0 < pushcount (gs w)"
  shows "\<exists>w1. replaceanswers True w = Some (True, w1) \<and> movebestcount (game w1) = 0 \<and>
    (\<forall>s. replaceanswers True (w1\<lparr>gs := s\<rparr>) = Some (False, w1\<lparr>gs := s\<rparr>))"
proof -
  have u: "wf_list (undo (gs w))" "wf_list (moveanswer (game w))" "wf_list (pushanswer (game w))"
    using session_ok [OF assms(1)] by (auto simp: world_ok_def state_ok_def level_ok_def)
  obtain a where a: "answer_of (undo (gs w)) (moveanswer (game w)) = Some a"
    by (rule answer_of_ok [OF u(1,2)])
  obtain p where p: "answer_of (undo (gs w)) (pushanswer (game w)) = Some p"
    by (rule answer_of_ok [OF u(1,3)])
  show ?thesis
    using assms(2-4) a p by (simp add: replaceanswers_def replace_moveanswer_def replace_pushanswer_def)
qed

theorem partial_save_locks_witness:
  "\<exists>w w1. newmove 1 (boot small True) = Some (True, w) \<and> replaceanswers True w = Some (True, w1) \<and>
     movebestcount (game w1) = 0 \<and> replaceanswers True w1 = Some (False, w1)"
proof -
  obtain w where w: "newmove 1 (boot small True) = Some (True, w)" "session w" "abs_pos (gs w) = (34, {35})"
    "game w = small" by (rule small_push)
  have "state_ok small (gs w)" using session_ok [OF w(2)] w(4) by (simp add: world_ok_def)
  then have st: "fold apply_move (moves (undo (gs w))) (33, {34}) = (34, {35})"
    "pushcount (gs w) = int (length (filter box (moves (undo (gs w)))))"
    using w(3) small_cells(3) by (simp_all add: state_ok_def start_pos_def small_def)
  have "filter box (moves (undo (gs w))) \<noteq> []"
  proof
    assume "filter box (moves (undo (gs w))) = []"
    then have "\<forall>m \<in> set (moves (undo (gs w))). \<not> box m" by (simp add: filter_empty_conv)
    from fold_no_push [OF this, of "(33, {34})"] show False using st(1) by simp
  qed
  then have "0 < pushcount (gs w)" using st(2) by simp
  moreover have "movebestcount (game w) = 0" "pushbestcount (game w) = 0"
    using w(4) by (simp_all add: small_def)
  ultimately obtain w1 where w1: "replaceanswers True w = Some (True, w1)" "movebestcount (game w1) = 0"
    "\<And>s. replaceanswers True (w1\<lparr>gs := s\<rparr>) = Some (False, w1\<lparr>gs := s\<rparr>)"
    using partial_save_locks [OF w(2)] by blast
  then show ?thesis using w(1) w1(3) [of "gs w1"] by simp
qed

end
