(* ===== verification/SokobanFiles.thy ===== *)
theory SokobanFiles
  imports Sokoban_Proofs
begin

text \<open>
  The files of \<open>games/cgames/csokoban\<close>: the moves of an answer as text (\<open>answers.c\<close>) and the
  preparation of a map that was read (\<open>fileread.c\<close>): floors, joined walls, and the invisible walls
  around the edge that keep the player on the map. A stream is a string; \<open>None\<close> stands for the end of
  file as a character, and for an access outside an array as a result.
\<close>

section \<open>Definitions\<close>

subsection \<open>Answers\<close>

definition isspace :: "char \<Rightarrow> bool" where
  "isspace c = (c \<in> {CHR '' '', CHR 0x09, CHR 0x0A, CHR 0x0B, CHR 0x0C, CHR 0x0D})"

definition newline :: char where
  "newline = CHR 0x0A"

definition wri :: "'x list \<Rightarrow> int \<Rightarrow> 'x \<Rightarrow> 'x list option" where
  "wri m i v = (if 0 \<le> i then wr m (nat i) v else None)"

text \<open>The \<open>switch\<close> of \<open>readanswer\<close>: an unknown character repeats the last move.\<close>

definition char_move :: "dyx \<Rightarrow> char \<Rightarrow> dyx" where
  "char_move move ch =
     (if ch = CHR ''h'' then \<lparr>yx = - 1, box = False\<rparr>
      else if ch = CHR ''j'' then \<lparr>yx = XSIZE, box = False\<rparr>
      else if ch = CHR ''k'' then \<lparr>yx = - XSIZE, box = False\<rparr>
      else if ch = CHR ''l'' then \<lparr>yx = 1, box = False\<rparr>
      else if ch = CHR ''H'' then \<lparr>yx = - 1, box = True\<rparr>
      else if ch = CHR ''J'' then \<lparr>yx = XSIZE, box = True\<rparr>
      else if ch = CHR ''K'' then \<lparr>yx = - XSIZE, box = True\<rparr>
      else if ch = CHR ''L'' then \<lparr>yx = 1, box = True\<rparr>
      else move)"

fun read_moves :: "int \<Rightarrow> dyx \<Rightarrow> char option \<Rightarrow> dyx movelist \<Rightarrow> string \<Rightarrow>
    (int \<times> char option \<times> dyx movelist \<times> string) option" where
  "read_moves n move ch l [] = Some (n, (if n = 0 then ch else None), l, [])"
| "read_moves n move ch l (c # fp) =
     (if n = 0 then Some (n, ch, l, c # fp)
      else if isspace c then read_moves n move (Some c) l fp
      else
        (let move = char_move move c in
         do {
           a \<leftarrow> wri (arr l) (n - 1) (Some move);
           read_moves (n - 1) move (Some c) (l\<lparr>arr := a\<rparr>) fp
         }))"

text \<open>The rest of the line, from the character \<open>ch\<close> that was read last.\<close>

fun skip_line :: "bool \<Rightarrow> char \<Rightarrow> string \<Rightarrow> bool \<times> string" where
  "skip_line r ch [] = (if ch = newline then r else r \<and> ch \<noteq> CHR ''.'', [])"
| "skip_line r ch (c # fp) =
     (if ch = newline then (r, c # fp) else skip_line (r \<and> ch \<noteq> CHR ''.'') c fp)"

definition readanswer :: "string \<Rightarrow> dyx movelist \<Rightarrow> int \<Rightarrow> (bool \<times> dyx movelist \<times> string) option" where
  "readanswer fp l cnt =
     do {
       (n, ch, l, fp) \<leftarrow> read_moves cnt \<lparr>yx = 0, box = False\<rparr> None (setmovelist l (nat cnt)) fp;
       let (r, fp) = (case ch of None \<Rightarrow> (True, fp) | Some c \<Rightarrow> skip_line True c fp)
       in Some (if n \<noteq> 0 then (False, initmovelist l, fp) else (r, l, fp))
     }"

definition move_char :: "dyx \<Rightarrow> char" where
  "move_char m =
     (if yx m < 0 then (if yx m = - 1 then (if box m then CHR ''H'' else CHR ''h'')
                        else (if box m then CHR ''K'' else CHR ''k''))
      else (if yx m = 1 then (if box m then CHR ''L'' else CHR ''l'')
            else (if box m then CHR ''J'' else CHR ''j'')))"

fun save_moves :: "nat \<Rightarrow> dyx list \<Rightarrow> string" where
  "save_moves i [] = []"
| "save_moves i (m # ms) =
     (if i \<noteq> 0 \<and> i mod 64 = 0 then [newline] else []) @ move_char m # save_moves (Suc i) ms"

definition saveanswer :: "dyx movelist \<Rightarrow> bool \<Rightarrow> string option" where
  "saveanswer l inc =
     do {
       ms \<leftarrow> those (map (get_move l) (rev [0..<count l]));
       Some (save_moves 0 ms @ (if inc then '' ...'' else []) @ [newline])
     }"

subsection \<open>Maps\<close>

definition FLOOR :: u8 where "FLOOR = 0x20"
definition EXTENDNORTH :: u8 where "EXTENDNORTH = 0x10"
definition EXTENDSOUTH :: u8 where "EXTENDSOUTH = 0x20"
definition EXTENDWEST :: u8 where "EXTENDWEST = 0x40"
definition EXTENDEAST :: u8 where "EXTENDEAST = 0x80"

datatype improved = Improved "u8 list" | Multiple | NoPlayer | Outside | OutOfFuel

text \<open>The flood fill. \<open>fuel\<close> bounds the depth of the recursion.\<close>

definition then_pull :: "improved \<Rightarrow> bool \<Rightarrow> nat \<Rightarrow> (u8 list \<Rightarrow> nat \<Rightarrow> improved) \<Rightarrow> improved" where
  "then_pull r guard q pull =
     (case r of
        Improved m \<Rightarrow>
          if guard then
            (case rd m q of
               None \<Rightarrow> Outside
             | Some c \<Rightarrow> if c AND (WALL OR FLOOR) = FLOOR then pull m q else Improved m)
          else Improved m
      | e \<Rightarrow> e)"

fun pullflooring :: "nat \<Rightarrow> u8 list \<Rightarrow> nat \<Rightarrow> improved" where
  "pullflooring 0 m pos = OutOfFuel"
| "pullflooring (Suc fuel) m pos =
     (case rd m pos of
        None \<Rightarrow> Outside
      | Some c \<Rightarrow>
          if c AND WALL \<noteq> 0 then Improved m
          else
            (let r = Improved (m[pos := c AND NOT FLOOR]);
                 r = then_pull r (32 \<le> pos) (pos - 32) (pullflooring fuel);
                 r = then_pull r (pos \<le> 32 * 32 - 32) (pos + 32) (pullflooring fuel);
                 r = then_pull r (0 < pos mod 32) (pos - 1) (pullflooring fuel)
             in then_pull r (pos mod 32 < 32 - 1) (pos + 1) (pullflooring fuel)))"

definition positions :: "nat \<Rightarrow> nat \<Rightarrow> nat \<Rightarrow> nat \<Rightarrow> nat list" where
  "positions y0 y1 x0 x1 = concat (map (\<lambda>y. map (\<lambda>x. y * 32 + x) [x0..<x1]) [y0..<y1])"

text \<open>The first loop of \<open>improvemap\<close>, with \<open>initpos\<close>.\<close>

fun mark_floor :: "nat list \<Rightarrow> u8 list \<Rightarrow> nat \<Rightarrow> improved + u8 list \<times> nat" where
  "mark_floor [] m initpos = Inr (m, initpos)"
| "mark_floor (p # ps) m initpos =
     (case rd m p of
        None \<Rightarrow> Inl Outside
      | Some c \<Rightarrow>
          if c AND WALL \<noteq> 0 then mark_floor ps m initpos
          else
            (let m = m[p := c OR FLOOR] in
             if c AND PLAYER \<noteq> 0 then
               (if initpos \<noteq> 0 then Inl Multiple else mark_floor ps m p)
             else mark_floor ps m initpos))"

definition join :: "u8 list \<Rightarrow> nat \<Rightarrow> u8 \<Rightarrow> u8 list option" where
  "join m q f = do { c \<leftarrow> rd m q; Some (if c AND WALL \<noteq> 0 then m[q := c OR f] else m) }"

definition join_walls :: "nat \<Rightarrow> u8 list \<Rightarrow> u8 list option" where
  "join_walls p m =
     do {
       c \<leftarrow> rd m p;
       if c AND WALL = 0 then Some m
       else do {
         m \<leftarrow> join m (p + 32) EXTENDNORTH;
         m \<leftarrow> join m (p - 32) EXTENDSOUTH;
         m \<leftarrow> join m (p + 1) EXTENDWEST;
         join m (p - 1) EXTENDEAST
       }
     }"

definition edge :: "nat \<Rightarrow> nat \<Rightarrow> nat list" where
  "edge ysize xsize = positions 0 1 0 xsize
     @ concat (map (\<lambda>y. [y * 32, y * 32 + (xsize - 1)]) [1..<ysize - 1])
     @ positions (ysize - 1) ysize 0 xsize"

definition improvemap :: "nat \<Rightarrow> u8 list \<Rightarrow> nat \<Rightarrow> nat \<Rightarrow> improved" where
  "improvemap fuel m ysize xsize =
     (case mark_floor (positions 0 ysize 0 xsize) m 0 of
        Inl e \<Rightarrow> e
      | Inr (m, initpos) \<Rightarrow>
          if initpos = 0 then NoPlayer
          else
            (case pullflooring fuel m 0 of
               Improved m \<Rightarrow>
                 (case foldo join_walls (positions 1 (ysize - 1) 1 (xsize - 1)) m of
                    None \<Rightarrow> Outside
                  | Some m \<Rightarrow>
                      (case foldo (\<lambda>p m. wr m p WALL) (edge ysize xsize) m of
                         None \<Rightarrow> Outside
                       | Some m \<Rightarrow> Improved m))
             | e \<Rightarrow> e))"

text \<open>The counts at the end of \<open>readlevelmap\<close>, over the rows of the level.\<close>

record counts =
  n_start :: int
  n_box :: int
  n_goal :: int
  n_store :: int

definition count_cell :: "u8 list \<Rightarrow> nat \<Rightarrow> counts \<Rightarrow> counts" where
  "count_cell m n k =
     (let c = m ! n;
          k = (if c AND PLAYER \<noteq> 0 then k\<lparr>n_start := int n\<rparr>
               else if c AND BOX \<noteq> 0 then
                 k\<lparr>n_box := n_box k + 1, n_store := (if c AND GOAL \<noteq> 0 then n_store k + 1 else n_store k)\<rparr>
               else k)
      in if c AND GOAL \<noteq> 0 then k\<lparr>n_goal := n_goal k + 1\<rparr> else k)"

definition count_level :: "u8 list \<Rightarrow> nat \<Rightarrow> counts" where
  "count_level m ysize =
     fold (count_cell m) [0..<ysize * 32] \<lparr>n_start = 0, n_box = 0, n_goal = 0, n_store = 0\<rparr>"

definition level_of :: "u8 list \<Rightarrow> nat \<Rightarrow> gamesetup \<Rightarrow> gamesetup" where
  "level_of m ysize g =
     (let k = count_level m ysize in
      g\<lparr>g_map := m, start := n_start k, boxcount := n_box k, goalcount := n_goal k, g_storecount := n_store k\<rparr>)"

section \<open>Lemmas\<close>

subsection \<open>Answers\<close>

lemma char_move_char: "yx m \<in> dirs \<Longrightarrow> char_move p (move_char m) = m"
  by (cases m) (auto simp: dirs_def move_char_def char_move_def XSIZE_def)

lemma move_char_plain: "\<not> isspace (move_char m)" "move_char m \<noteq> newline" "move_char m \<noteq> CHR ''.''"
  by (auto simp: move_char_def isspace_def newline_def)

lemma read_save_moves:
  assumes "\<forall>m \<in> set ms. yx m \<in> dirs" "length ms \<le> length (arr l)" "ms \<noteq> []"
  shows "read_moves (int (length ms)) p ch l (save_moves i ms @ rest)
    = Some (0, Some (move_char (last ms)), l\<lparr>arr := map Some (rev ms) @ drop (length ms) (arr l)\<rparr>, rest)"
  using assms
proof (induction ms arbitrary: i p ch l)
  case Nil
  then show ?case by simp
next
  case (Cons m ms)
  let ?l = "l\<lparr>arr := (arr l)[length ms := Some m]\<rparr>"
  have nl: "isspace newline" by (simp add: isspace_def newline_def)
  have step: "read_moves (int (length (m # ms))) p ch l (save_moves i (m # ms) @ rest)
    = read_moves (int (length ms)) m (Some (move_char m)) ?l (save_moves (Suc i) ms @ rest)"
    using Cons.prems by (simp add: nl move_char_plain char_move_char wri_def Let_def)
  have d: "drop (length ms) ((arr l)[length ms := Some m]) = Some m # drop (Suc (length ms)) (arr l)"
    using Cons.prems(2) by (simp add: drop_update_swap Cons_nth_drop_Suc [symmetric])
  show ?case
  proof (cases "ms = []")
    case True
    have "read_moves 0 m (Some (move_char m)) ?l rest = Some (0, Some (move_char m), ?l, rest)"
      by (cases rest) simp_all
    moreover have "(arr l)[0 := Some m] = Some m # drop 1 (arr l)" using Cons.prems(2) by (cases "arr l") simp_all
    ultimately show ?thesis using step True by simp
  next
    case False
    have "length ms \<le> length (arr ?l)" using Cons.prems(2) by simp
    from Cons.IH [OF _ this False] Cons.prems(1)
    show ?thesis using step d False by simp
  qed
qed

lemma those_get_moves:
  assumes "wf_list l"
  shows "those (map (get_move l) (rev [0..<count l])) = Some (rev (moves l))"
proof -
  have "those (map (get_move l) (rev [0..<count l])) = Some (map ((!) (moves l)) (rev [0..<count l]))"
    by (rule those_map_Some) (simp add: moves_nth [OF assms])
  also have "map ((!) (moves l)) (rev [0..<count l]) = rev (moves l)"
    using moves_length [OF assms] by (metis map_nth rev_map)
  finally show ?thesis .
qed

lemma answer_roundtrip:
  assumes "wf_list l" "moves l \<noteq> []" "\<forall>m \<in> set (moves l). yx m \<in> dirs"
    and "length (arr k) = allocated k \<or> arr k = []"
  obtains s k' where "saveanswer l inc = Some s"
    "readanswer (s @ rest) k (int (count l)) = Some (\<not> inc, k', rest)" "wf_list k'" "moves k' = moves l"
proof -
  let ?ms = "rev (moves l)" and ?n = "count l"
  let ?k = "setmovelist k ?n"
  have n: "length (moves l) = ?n" using moves_length [OF assms(1)] .
  have sa: "saveanswer l inc = Some (save_moves 0 ?ms @ (if inc then '' ...'' else []) @ [newline])"
    by (simp add: saveanswer_def those_get_moves [OF assms(1)])
  have k: "count ?k = ?n" "length (arr ?k) = allocated ?k" "?n \<le> allocated ?k" "0 < allocated ?k"
  proof -
    have a: "0 < (if allocated k = 0 \<or> arr k = [] then 16 else allocated k)" by simp
    show "count ?k = ?n" "length (arr ?k) = allocated ?k" "?n \<le> allocated ?k" "0 < allocated ?k"
      using grow_to_bounds [OF a, of ?n] by (auto simp: setmovelist_def Let_def)
  qed
  let ?k' = "?k\<lparr>arr := map Some (moves l) @ drop ?n (arr ?k)\<rparr>"
  have len: "length ?ms \<le> length (arr ?k)" using k n by simp
  have "read_moves (int ?n) \<lparr>yx = 0, box = False\<rparr> None ?k
      (save_moves 0 ?ms @ (if inc then '' ...'' else []) @ [newline] @ rest)
    = Some (0, Some (move_char (last ?ms)), ?k', (if inc then '' ...'' else []) @ [newline] @ rest)"
    using read_save_moves [of ?ms ?k "\<lparr>yx = 0, box = False\<rparr>" None 0
        "(if inc then '' ...'' else []) @ [newline] @ rest"] assms(2,3) len n
    by simp
  moreover have "skip_line True (move_char m) ((if inc then '' ...'' else []) @ [newline] @ rest) = (\<not> inc, rest)" for m
    using move_char_plain [of m] by (cases rest) (simp_all add: newline_def)
  ultimately have "readanswer ((save_moves 0 ?ms @ (if inc then '' ...'' else []) @ [newline]) @ rest) k (int ?n)
      = Some (\<not> inc, ?k', rest)"
    by (simp add: readanswer_def)
  moreover have "wf_list ?k'" using k n by (auto simp: wf_list_def nth_append)
  moreover have "moves ?k' = moves l" using k n by (simp add: moves_def comp_def)
  ultimately show thesis using that [OF sa] by blast
qed

text \<open>
  The moves of an answer survive the answer file: reading what \<open>saveanswer\<close> wrote, with the
  number of moves that the file records, gives the moves back, tells a complete answer from an
  unfinished one and stops at the end of the entry.
\<close>

theorem answer_file_roundtrip:
  assumes "wf_list l" "moves l \<noteq> []" "\<forall>m \<in> set (moves l). yx m \<in> {- 1, 1, - 32, 32}" "wf_list k"
  shows "\<exists>s k'. saveanswer l inc = Some s \<and>
    readanswer (s @ rest) k (int (count l)) = Some (\<not> inc, k', rest) \<and> wf_list k' \<and> moves k' = moves l"
proof -
  have "\<forall>m \<in> set (moves l). yx m \<in> dirs" using assms(3) by (simp add: dirs_def)
  moreover have "length (arr k) = allocated k \<or> arr k = []" using assms(4) by (simp add: wf_list_def)
  ultimately show ?thesis by (rule answer_roundtrip [OF assms(1,2)]) blast
qed

theorem answer_file_roundtrip_witness:
  "\<exists>s k'. saveanswer \<lparr>allocated = 1, count = 1, arr = [Some \<lparr>yx = 1, box = True\<rparr>]\<rparr> True = Some s \<and>
    readanswer (s @ ''---'') fresh_list 1 = Some (False, k', ''---'') \<and> wf_list k' \<and>
    moves k' = [\<lparr>yx = 1, box = True\<rparr>]"
proof -
  let ?l = "\<lparr>allocated = 1, count = 1, arr = [Some \<lparr>yx = 1, box = True\<rparr>]\<rparr>"
  have "wf_list ?l" "moves ?l = [\<lparr>yx = 1, box = True\<rparr>]" by (simp_all add: wf_list_def moves_def)
  moreover have "wf_list fresh_list"
    using initmovelist_wf [of empty_list] by (simp add: fresh_list_def empty_list_def)
  ultimately show ?thesis
    using answer_file_roundtrip [of ?l fresh_list True "''---''"] by simp
qed

text \<open>
  A negative number of moves in the answer file makes \<open>readanswer\<close> write in front of the array
  at the first character of the answer.
\<close>

theorem negative_count_writes_outside:
  assumes "n < 0" "\<not> isspace c"
  shows "readanswer (c # fp) l n = None"
  using assms by (simp add: readanswer_def wri_def Let_def)

theorem negative_count_writes_outside_witness: "readanswer ''h'' fresh_list (- 1) = None"
  by (rule negative_count_writes_outside) (simp_all add: isspace_def)

end
