(* ===== verification/SokobanLevels.thy ===== *)
theory SokobanLevels
  imports SokobanFiles
begin

text \<open>
  Reading a puzzle from a file (\<open>readlevelmap\<close> and \<open>getnline\<close> of \<open>fileread.c\<close>) down to the level
  that \<open>play.c\<close> starts from. A stream is the string that is left to read; the line buffer is an array
  whose bytes may be unwritten; results that depend on memory outside an array are \<open>Undefined\<close>.
\<close>

section \<open>Definitions\<close>

definition NUL :: char where
  "NUL = CHR 0x00"

text \<open>\<open>fgets\<close>: at most \<open>n\<close> characters, up to and with the first newline.\<close>

fun fgets :: "nat \<Rightarrow> string \<Rightarrow> string \<times> string" where
  "fgets 0 fp = ([], fp)"
| "fgets (Suc n) [] = ([], [])"
| "fgets (Suc n) (c # fp) =
     (if c = newline then ([c], fp) else (case fgets n fp of (l, fp) \<Rightarrow> (c # l, fp)))"

text \<open>
  The result of \<open>getnline\<close>, what it stored (nothing at the end of the file), and the rest of the
  stream. \<open>buf[n]\<close> is the terminator that \<open>strlen\<close> found, never a newline.
\<close>

definition getnline :: "string \<Rightarrow> nat \<Rightarrow> int \<times> string option \<times> string" where
  "getnline fp len =
     (if fp = [] then (- 1, None, fp)
      else
        (case fgets (len - 1) fp of
           (line, fp) \<Rightarrow>
             let n = length (takeWhile (\<lambda>c. c \<noteq> NUL) line) in
             if n = len - 1 \<and> (line @ [NUL]) ! n \<noteq> newline
             then (int n, Some line, drop 1 (dropWhile (\<lambda>c. c \<noteq> newline) fp))
             else (int n - 1, Some line, fp)))"

text \<open>The buffer of \<open>readlevelmap\<close>; \<open>None\<close> is a byte that was never written.\<close>

type_synonym buf = "char option list"

definition store :: "buf \<Rightarrow> nat \<Rightarrow> string option \<Rightarrow> buf" where
  "store buf off line =
     (case line of
        None \<Rightarrow> buf
      | Some l \<Rightarrow> take off buf @ map Some (l @ [NUL]) @ drop (off + length l + 1) buf)"

definition filecells :: string where
  "filecells = '' .@+$*  #''"

definition cell_of :: "char \<Rightarrow> u8 option" where
  "cell_of c = (if c \<in> set filecells then Some (of_nat (length (takeWhile (\<lambda>d. d \<noteq> c) filecells))) else None)"

fun skip_spaces :: "buf \<Rightarrow> nat option" where
  "skip_spaces (Some c # bs) = (if isspace c then map_option Suc (skip_spaces bs) else Some 0)"
| "skip_spaces _ = None"

text \<open>
  The title of a level. A length below zero is a size of \<open>memcpy\<close> beyond every object, and a title
  of blanks makes the last loop read in front of \<open>name\<close>.
\<close>

definition level_name :: "buf \<Rightarrow> int \<Rightarrow> string option" where
  "level_name buf n =
     do {
       s \<leftarrow> skip_spaces (drop 1 buf);
       let x = 1 + s;
           n = n - int x
       in if n < 0 \<or> length buf < x + min (nat n) 63 then None
          else do {
            cs \<leftarrow> those (take (min (nat n) 63) (drop x buf));
            if list_all isspace cs then None else Some (rev (dropWhile isspace (rev cs)))
          }
     }"

text \<open>One row of the map: whether a character was not recognised, the column reached, the map.\<close>

fun place_row :: "buf \<Rightarrow> nat \<Rightarrow> nat \<Rightarrow> u8 list \<Rightarrow> (bool \<times> nat \<times> u8 list) option" where
  "place_row (Some c # p) y x m =
     (if \<not> x < 32 \<or> c = NUL \<or> c = newline \<or> c = CHR '';'' then Some (False, x, m)
      else if c = CHR 0x09 then place_row p y (Suc (or x 7)) m
      else
        (case cell_of c of
           None \<Rightarrow> Some (True, x, m)
         | Some k \<Rightarrow> do { m \<leftarrow> wr m (y * 32 + x) k; place_row p y (Suc x) m }))"
| "place_row p y x m = (if \<not> x < 32 then Some (False, x, m) else None)"

datatype rows = Rows nat nat string "u8 list" string | NoRows string | Broken

lemma fgets_length: "fgets n fp = (l, r) \<Longrightarrow> length r \<le> length fp"
  by (induction n fp arbitrary: l rule: fgets.induct) (auto split: if_splits prod.splits)

lemma getnline_length: "getnline fp len = (n, l, r) \<Longrightarrow> length r \<le> length fp"
proof -
  assume g: "getnline fp len = (n, l, r)"
  have "length (drop 1 (dropWhile P s)) \<le> length s" for P :: "char \<Rightarrow> bool" and s
    using length_dropWhile_le [of P s] by simp
  moreover obtain l' r' where f: "fgets (len - 1) fp = (l', r')" by fastforce
  ultimately show ?thesis
    using g fgets_length [OF f]
    by (auto simp: getnline_def f Let_def simp del: length_drop split: if_splits intro: order_trans)
qed

function readrows :: "string \<Rightarrow> buf \<Rightarrow> nat \<Rightarrow> nat \<Rightarrow> bool \<Rightarrow> string \<Rightarrow> u8 list \<Rightarrow> rows" where
  "readrows fp buf y xsize bad name m =
     (if \<not> y < 32 then Rows y xsize name m fp
      else
        (case fp of
           [] \<Rightarrow> if 1 < y then Rows y xsize name m [] else NoRows []
         | ch # fp \<Rightarrow>
             if ch = newline \<or> ch = CHR '';'' \<or> ch = CHR ''='' \<or> ch = CHR 0x27 then
               (if 1 < y then Rows y xsize name m (ch # fp)
                else if ch = newline then readrows fp buf y xsize bad name m
                else
                  (case getnline fp 256 of
                     (n, line, fp) \<Rightarrow>
                       let buf = store buf 0 line in
                       if n < 0 then NoRows fp
                       else if ch = CHR '';'' \<and> buf ! 0 = Some (CHR '';'') then
                         (case level_name buf n of
                            None \<Rightarrow> Broken
                          | Some name \<Rightarrow> readrows fp buf y xsize bad name m)
                       else readrows fp buf y xsize bad name m))
             else
               (case getnline fp 255 of
                  (n, line, fp) \<Rightarrow>
                    let buf = store (buf[0 := Some ch]) 1 line in
                    if bad then readrows fp buf (Suc y) xsize bad name m
                    else
                      (case place_row buf y 1 m of
                         None \<Rightarrow> Broken
                       | Some (bad, x, m) \<Rightarrow>
                           if xsize \<le> x then
                             (if 32 < x + 1 then Rows y (x + 1) name m fp
                              else readrows fp buf (Suc y) (x + 1) bad name m)
                           else readrows fp buf (Suc y) xsize bad name m))))"
  by auto
termination
proof (relation "measure (\<lambda>(fp, _). length fp)")
qed (auto dest!: getnline_length [OF sym])

declare readrows.simps [simp del]

text \<open>
  \<open>readlevelmap\<close> gives the name, the height, the width and the level. A fill of depth 1025 visits
  every cell (lemma \<open>pull_fuel\<close>).
\<close>

datatype levelread = Level string nat nat gamesetup | Rejected | Undefined

definition readlevelmap :: "string \<Rightarrow> buf \<Rightarrow> gamesetup \<Rightarrow> levelread \<times> string" where
  "readlevelmap fp buf g =
     (case readrows fp buf 1 1 False [] (replicate 1024 0) of
        Broken \<Rightarrow> (Undefined, [])
      | NoRows fp \<Rightarrow> (Rejected, fp)
      | Rows y xsize name m fp \<Rightarrow>
          let ysize = y + 1 in
          if 32 < ysize \<or> 32 < xsize then (Rejected, fp)
          else
            (case improvemap 1025 m ysize xsize of
               Improved m \<Rightarrow> (Level name ysize xsize (level_of m ysize g), fp)
             | Multiple \<Rightarrow> (Rejected, fp)
             | NoPlayer \<Rightarrow> (Rejected, fp)
             | _ \<Rightarrow> (Undefined, [])))"

text \<open>A puzzle of three rows, an empty slot of a series, and a puzzle of the greatest height.\<close>

definition sample_file :: string where
  "sample_file = concat (map (\<lambda>l. l @ [newline]) ['';; One'', ''#####'', ''#@$.#'', ''#####''])"

definition sample_setup :: gamesetup where
  "sample_setup = \<lparr>boxcount = 0, goalcount = 0, g_storecount = 0, start = 0, movebestcount = 0, pushbestcount = 0,
     movebestpushcount = 0, pushbestmovecount = 0, moveanswer = fresh_list, pushanswer = fresh_list, g_map = []\<rparr>"

definition tall_file :: string where
  "tall_file = ''@'' @ [newline] @ concat (replicate 29 (''#'' @ [newline]))"

section \<open>Lemmas\<close>

subsection \<open>Maps\<close>

lemma more_flags: "FLOOR = flag 5" "EXTENDNORTH = flag 4" "EXTENDSOUTH = flag 5" "EXTENDWEST = flag 6"
    "EXTENDEAST = flag 7"
  by (simp_all add: flag_def FLOOR_def EXTENDNORTH_def EXTENDSOUTH_def EXTENDWEST_def EXTENDEAST_def)

lemma floor_test: "c AND (WALL OR FLOOR) = FLOOR \<longleftrightarrow> \<not> bit c 3 \<and> bit c 5"
proof
  assume "c AND (WALL OR FLOOR) = FLOOR"
  then have "bit (c AND (WALL OR FLOOR)) 3 = bit FLOOR 3" "bit (c AND (WALL OR FLOOR)) 5 = bit FLOOR 5" by simp_all
  then show "\<not> bit c 3 \<and> bit c 5" by (simp_all add: flags more_flags bit_and_iff bit_or_iff bit_flag)
next
  assume "\<not> bit c 3 \<and> bit c 5"
  then show "c AND (WALL OR FLOOR) = FLOOR"
    by (intro bit_word_eqI) (auto simp: flags more_flags bit_and_iff bit_or_iff bit_flag)
qed

text \<open>Maps with the same objects: goals, player, boxes and walls.\<close>

definition same_objects :: "u8 list \<Rightarrow> u8 list \<Rightarrow> bool" where
  "same_objects m m' = (length m' = length m \<and> (\<forall>k < 4. cells k m' = cells k m))"

lemma same_refl: "same_objects m m"
  by (simp add: same_objects_def)

lemma same_trans: "same_objects m m1 \<Longrightarrow> same_objects m1 m2 \<Longrightarrow> same_objects m m2"
  by (simp add: same_objects_def)

lemma cells_keep:
  "i < length m \<Longrightarrow> bit c k = bit (m ! i) k \<Longrightarrow> cells k (m[i := c]) = cells k m"
  by (auto simp: cells_def nth_list_update)

lemma same_set: "i < length m \<Longrightarrow> 4 \<le> j \<Longrightarrow> same_objects m (m[i := m ! i OR flag j])"
  by (auto simp: same_objects_def bit_or_iff bit_flag intro!: cells_keep)

lemma same_clear: "i < length m \<Longrightarrow> 4 \<le> j \<Longrightarrow> same_objects m (m[i := m ! i AND NOT (flag j)])"
proof -
  assume i: "i < length m" and j: "4 \<le> j"
  have "bit (m ! i AND NOT (flag j)) k = bit (m ! i) k" if "k < 4" for k
    using that j bit_imp_le_length [of "m ! i" k] by (auto simp: bit_and_iff bit_not_iff bit_flag)
  then show ?thesis using i by (auto simp: same_objects_def intro!: cells_keep)
qed

lemma cells_nat: "int p \<in> cells k m \<longleftrightarrow> p < length m \<and> bit (m ! p) k"
  by (simp add: cells_def)

subsubsection \<open>Marking\<close>

fun marked :: "nat list \<Rightarrow> u8 list \<Rightarrow> u8 list" where
  "marked [] m = m"
| "marked (p # ps) m = marked ps (if bit (m ! p) 3 then m else m[p := m ! p OR FLOOR])"

definition players :: "nat list \<Rightarrow> u8 list \<Rightarrow> nat list" where
  "players ps m = filter (\<lambda>p. bit (m ! p) 1 \<and> \<not> bit (m ! p) 3) ps"

lemma players_mark:
  assumes "i < length m"
  shows "players ps (m[i := m ! i OR FLOOR]) = players ps m"
  unfolding players_def
  by (rule filter_cong [OF refl])
    (use assms in \<open>auto simp: nth_list_update more_flags bit_or_iff bit_flag\<close>)

lemma mark_floor_eq:
  assumes "\<forall>p \<in> set ps. p < length m" "0 \<notin> set (players ps m)"
  shows "mark_floor ps m initpos = (case players ps m of
      [] \<Rightarrow> Inr (marked ps m, initpos)
    | [p] \<Rightarrow> (if initpos = 0 then Inr (marked ps m, p) else Inl Multiple)
    | _ \<Rightarrow> Inl Multiple)"
  using assms
proof (induction ps arbitrary: m initpos)
  case Nil
  then show ?case by (simp add: players_def)
next
  case (Cons p ps)
  have p: "p < length m" using Cons.prems(1) by simp
  have w: "m ! p AND WALL \<noteq> 0 \<longleftrightarrow> bit (m ! p) 3" "m ! p AND PLAYER \<noteq> 0 \<longleftrightarrow> bit (m ! p) 1"
    by (simp_all add: flag_bits)
  show ?case
  proof (cases "bit (m ! p) 3")
    case True
    then have "players (p # ps) m = players ps m" by (simp add: players_def)
    then show ?thesis using True p w Cons by (simp split: list.splits)
  next
    case False
    let ?m = "m[p := m ! p OR FLOOR]"
    have IH: "mark_floor ps ?m i = (case players ps m of
      [] \<Rightarrow> Inr (marked ps ?m, i)
    | [p] \<Rightarrow> (if i = 0 then Inr (marked ps ?m, p) else Inl Multiple)
    | _ \<Rightarrow> Inl Multiple)" for i
    proof -
      have "0 \<notin> set (players ps m)" using Cons.prems(2) by (auto simp: players_def split: if_splits)
      then show ?thesis
        using Cons.IH [of ?m i] Cons.prems(1) players_mark [OF p, of ps] by simp
    qed
    show ?thesis
    proof (cases "bit (m ! p) 1")
      case True
      then have pl: "players (p # ps) m = p # players ps m" using False by (simp add: players_def)
      then have "p \<noteq> 0" using Cons.prems(2) by auto
      then show ?thesis using True False p w IH pl by (simp split: list.splits)
    next
      case nf: False
      then have "players (p # ps) m = players ps m" by (simp add: players_def)
      then show ?thesis using nf False p w IH by (simp split: list.splits)
    qed
  qed
qed

lemma marked_same: "\<forall>p \<in> set ps. p < length m \<Longrightarrow> same_objects m (marked ps m)"
proof (induction ps arbitrary: m)
  case (Cons p ps)
  let ?m = "if bit (m ! p) 3 then m else m[p := m ! p OR FLOOR]"
  have s: "same_objects m ?m" using Cons.prems by (simp add: same_refl same_set more_flags)
  have "\<forall>p \<in> set ps. p < length ?m" using Cons.prems by simp
  from same_trans [OF s Cons.IH [OF this]] show ?case by simp
qed (simp add: same_refl)

lemma marked_floor:
  "\<forall>p \<in> set ps. p < length m \<Longrightarrow> bit (m ! q) 5 \<or> q \<in> set ps \<and> \<not> bit (m ! q) 3 \<Longrightarrow> bit (marked ps m ! q) 5"
proof (induction ps arbitrary: m)
  case (Cons p ps)
  let ?m = "if bit (m ! p) 3 then m else m[p := m ! p OR FLOOR]"
  have "bit (?m ! q) 5 \<or> q \<in> set ps \<and> \<not> bit (?m ! q) 3"
    using Cons.prems by (cases "q = p") (auto simp: more_flags bit_or_iff bit_flag)
  then show ?case using Cons.IH [of ?m] Cons.prems(1) by simp
qed simp

lemma marked_bits:
  assumes "\<forall>p \<in> set ps. p < length m" "q < length m" "k < 4"
  shows "bit (marked ps m ! q) k = bit (m ! q) k"
proof -
  have "int q \<in> cells k (marked ps m) \<longleftrightarrow> int q \<in> cells k m" "length (marked ps m) = length m"
    using marked_same [OF assms(1)] assms(3) by (simp_all add: same_objects_def)
  then show ?thesis using assms(2) by (simp add: cells_nat)
qed

subsubsection \<open>Filling\<close>

lemma then_pullD:
  "then_pull r g q pull = Improved m' \<Longrightarrow> \<exists>m. r = Improved m \<and> (m' = m \<or> pull m q = Improved m')"
  by (auto simp: then_pull_def split: improved.splits if_splits option.splits)

lemma pull_same: "pullflooring fuel m pos = Improved m' \<Longrightarrow> same_objects m m'"
proof (induction fuel arbitrary: m pos m')
  case 0
  then show ?case by simp
next
  case (Suc fuel)
  show ?case
  proof (cases "pos < length m \<and> \<not> m ! pos AND WALL \<noteq> 0")
    case False
    then have "m' = m" using Suc.prems by (auto split: option.splits if_splits dest!: rd_SomeD)
    then show ?thesis by (simp add: same_refl)
  next
    case True
    let ?m = "m[pos := m ! pos AND NOT FLOOR]"
    have step: "same_objects m n'" if "then_pull r g q (pullflooring fuel) = Improved n'"
      and "\<And>n. r = Improved n \<Longrightarrow> same_objects m n" for r g q n'
      using then_pullD [OF that(1)] that(2) Suc.IH same_trans by blast
    have "same_objects m n" if "Improved ?m = Improved n" for n
      using that True same_clear [of pos m 5] by (auto simp: more_flags)
    then show ?thesis
      using Suc.prems True by (auto simp: Let_def elim!: step)
  qed
qed

text \<open>Enough fuel: each call but the first clears one floor flag.\<close>

lemma pull_fuel:
  "card (cells 5 m - {int pos}) < fuel \<Longrightarrow> pullflooring fuel m pos \<noteq> OutOfFuel \<and>
     (\<forall>m'. pullflooring fuel m pos = Improved m' \<longrightarrow> cells 5 m' \<subseteq> cells 5 m)"
proof (induction fuel arbitrary: m pos)
  case 0
  then show ?case by simp
next
  case (Suc fuel)
  show ?case
  proof (cases "pos < length m \<and> \<not> m ! pos AND WALL \<noteq> 0")
    case False
    then show ?thesis by (auto split: option.splits if_splits dest!: rd_SomeD simp: rd_def)
  next
    case True
    let ?F = "cells 5 m - {int pos}" and ?m = "m[pos := m ! pos AND NOT FLOOR]"
    let ?ok = "\<lambda>r. r \<noteq> OutOfFuel \<and> (\<forall>n. r = Improved n \<longrightarrow> cells 5 n \<subseteq> ?F)"
    have fin: "finite ?F" using finite_cells by simp
    have step: "?ok (then_pull r g q (pullflooring fuel))" if r: "?ok r" for r g q
    proof (cases "\<exists>n c. r = Improved n \<and> g \<and> rd n q = Some c \<and> c AND (WALL OR FLOOR) = FLOOR")
      case False
      then show ?thesis using r by (auto simp: then_pull_def split: improved.splits option.splits if_splits)
    next
      case ex: True
      then obtain n c where n: "r = Improved n" "g" "rd n q = Some c" "c AND (WALL OR FLOOR) = FLOOR" by blast
      have q: "int q \<in> cells 5 n" using n(3,4) by (auto simp: cells_nat floor_test dest!: rd_SomeD)
      have sub: "cells 5 n \<subseteq> ?F" using r n(1) by blast
      have "card (cells 5 n - {int q}) < card (cells 5 n)"
        using q finite_cells by (intro card_Diff1_less)
      also have "\<dots> \<le> card ?F" using sub fin by (intro card_mono)
      finally have "card (cells 5 n - {int q}) < fuel" using Suc.prems by simp
      from Suc.IH [OF this] show ?thesis
        using n sub by (auto simp: then_pull_def)
    qed
    have "cells 5 ?m \<subseteq> ?F"
      using True by (auto simp: cells_def nth_list_update more_flags bit_and_iff bit_not_iff bit_flag split: if_splits)
    then have "?ok (Improved ?m)" by simp
    from step [OF step [OF step [OF step [OF this]]]]
    have "?ok (pullflooring (Suc fuel) m pos)" using True by (simp add: Let_def)
    then show ?thesis by blast
  qed
qed

text \<open>A free first column of 32 rows leads the fill to the cell behind the map.\<close>

lemma pull_column:
  assumes "k \<le> 31" "32 - k \<le> fuel" "length m = 1024"
    and "\<And>j. k \<le> j \<Longrightarrow> j \<le> 31 \<Longrightarrow> bit (m ! (32 * j)) 5 \<and> \<not> bit (m ! (32 * j)) 3"
    and "k \<noteq> 0 \<Longrightarrow> \<not> bit (m ! (32 * (k - 1))) 5"
  shows "pullflooring fuel m (32 * k) = Outside"
  using assms
proof (induction fuel arbitrary: k m)
  case 0
  then show ?case by simp
next
  case (Suc fuel)
  let ?m = "m[32 * k := m ! (32 * k) AND NOT FLOOR]"
  have c: "\<not> bit (m ! (32 * k)) 3" using Suc.prems(1,4) by simp
  have w: "m ! (32 * k) AND WALL = 0" using c flag_bits(4) by blast
  have in_map: "32 * k < length m" using Suc.prems(1,3) by simp
  have up: "then_pull (Improved ?m) (32 \<le> 32 * k) (32 * k - 32) (pullflooring fuel) = Improved ?m"
  proof (cases "k = 0")
    case False
    have e: "32 * k - 32 = 32 * (k - 1)" by (simp add: right_diff_distrib')
    have "?m ! (32 * k - 32) = m ! (32 * (k - 1))" using False by (simp add: e)
    then have "\<not> (?m ! (32 * k - 32) AND (WALL OR FLOOR) = FLOOR)" using Suc.prems(5) False by (simp add: floor_test)
    moreover have "rd ?m (32 * k - 32) = Some (?m ! (32 * k - 32))" using in_map by simp
    ultimately show ?thesis by (simp only: then_pull_def improved.case option.case if_False if_cancel)
  qed (simp add: then_pull_def)
  have down: "then_pull (Improved ?m) (32 * k \<le> 32 * 32 - 32) (32 * k + 32) (pullflooring fuel) = Outside"
  proof (cases "k = 31")
    case True
    then show ?thesis using Suc.prems(3) by (simp add: then_pull_def)
  next
    case False
    then have k: "Suc k \<le> 31" using Suc.prems(1) by simp
    have e: "32 * k + 32 = 32 * Suc k" by simp
    have ne: "32 * j \<noteq> 32 * k" if "Suc k \<le> j" for j using that by simp
    have at: "?m ! (32 * j) = m ! (32 * j)" if "Suc k \<le> j" for j using ne [OF that] by simp
    have "?m ! (32 * Suc k) AND (WALL OR FLOOR) = FLOOR"
      using at [of "Suc k"] Suc.prems(4) [of "Suc k"] k by (simp add: floor_test del: mult_Suc_right)
    moreover have "pullflooring fuel ?m (32 * Suc k) = Outside"
    proof (rule Suc.IH [OF k])
      show "32 - Suc k \<le> fuel" using Suc.prems(2) by simp
      show "length ?m = 1024" using Suc.prems(3) by simp
      show "bit (?m ! (32 * j)) 5 \<and> \<not> bit (?m ! (32 * j)) 3" if "Suc k \<le> j" "j \<le> 31" for j
        using at [OF that(1)] Suc.prems(4) that by simp
      show "\<not> bit (?m ! (32 * (Suc k - 1))) 5"
        using in_map by (simp add: more_flags bit_and_iff bit_not_iff bit_flag)
    qed
    moreover have "32 * Suc k < length ?m" using k Suc.prems(3) by simp
    ultimately show ?thesis unfolding e using Suc.prems(1) by (simp add: then_pull_def del: mult_Suc_right)
  qed
  have out: "then_pull Outside g q p = Outside" for g q p by (simp add: then_pull_def)
  have rd: "rd m (32 * k) = Some (m ! (32 * k))" using in_map by simp
  show ?case
    by (simp only: pullflooring.simps rd option.case w Let_def up down out simp_thms if_False)
qed

subsubsection \<open>Joining and the edge\<close>

lemma join_same: "join m q f = Some m' \<Longrightarrow> f \<in> {flag 4, flag 5, flag 6, flag 7} \<Longrightarrow> same_objects m m'"
  by (auto simp: join_def same_refl bind_eq_Some_conv intro: same_set dest!: rd_SomeD split: if_splits)

lemma join_walls_same: "join_walls p m = Some m' \<Longrightarrow> same_objects m m'"
  unfolding join_walls_def more_flags
  by (auto simp: bind_eq_Some_conv same_refl split: if_splits)
    (blast intro: same_trans join_same)

lemma foldo_join_same: "foldo join_walls ps m = Some m' \<Longrightarrow> same_objects m m'"
  using foldo_invariant [of join_walls ps m m' "same_objects m"] same_refl same_trans join_walls_same by blast

lemma wall_bits: "bit WALL k \<longleftrightarrow> k = 3"
  by (auto simp: flags bit_flag)

lemma edge_cells:
  "foldo (\<lambda>p m. wr m p WALL) ps m = Some m' \<Longrightarrow> length m' = length m \<and>
     cells k m' = (if k = 3 then cells k m \<union> int ` set ps else cells k m - int ` set ps)"
proof (induction ps arbitrary: m)
  case (Cons p ps)
  then obtain m1 where m1: "wr m p WALL = Some m1" "foldo (\<lambda>p m. wr m p WALL) ps m1 = Some m'"
    by (auto simp: bind_eq_Some_conv)
  then have "p < length m" "m1 = m[p := WALL]" by (auto dest: wr_SomeD)
  then have c: "cells k m1 = (if k = 3 then insert (int p) (cells k m) else cells k m - {int p})" "length m1 = length m"
    by (simp_all add: cells_update wall_bits)
  show ?case using Cons.IH [OF m1(2)] c by auto
qed simp

lemma set_positions: "set (positions y0 y1 x0 x1) = {y * 32 + x | y x. y0 \<le> y \<and> y < y1 \<and> x0 \<le> x \<and> x < x1}"
proof (intro equalityI subsetI)
  fix p assume "p \<in> set (positions y0 y1 x0 x1)"
  then obtain y where y: "y \<in> {y0..<y1}" "p \<in> (\<lambda>x. y * 32 + x) ` {x0..<x1}"
    by (auto simp only: positions_def set_concat set_map set_upt)
  from y(2) obtain x where "p = y * 32 + x" "x \<in> {x0..<x1}" by (rule imageE)
  with y(1) show "p \<in> {y * 32 + x | y x. y0 \<le> y \<and> y < y1 \<and> x0 \<le> x \<and> x < x1}" by auto
next
  fix p assume "p \<in> {y * 32 + x | y x. y0 \<le> y \<and> y < y1 \<and> x0 \<le> x \<and> x < x1}"
  then obtain y x where p: "p = y * 32 + x" "y \<in> {y0..<y1}" "x \<in> {x0..<x1}" by auto
  show "p \<in> set (positions y0 y1 x0 x1)"
    unfolding positions_def set_concat set_map set_upt p(1) image_image
    by (rule UN_I [OF p(2)]) (rule imageI [OF p(3)])
qed

lemma positionsI: "y0 \<le> y \<Longrightarrow> y < y1 \<Longrightarrow> x0 \<le> x \<Longrightarrow> x < x1 \<Longrightarrow> y * 32 + x \<in> set (positions y0 y1 x0 x1)"
  unfolding set_positions by blast

lemma positionsE:
  assumes "p \<in> set (positions y0 y1 x0 x1)"
  obtains y x where "p = y * 32 + x" "y0 \<le> y" "y < y1" "x0 \<le> x" "x < x1"
  using assms unfolding set_positions by blast

lemma edgeE:
  assumes "p \<in> set (edge ysize xsize)"
  obtains y x where "p = y * 32 + x" "x < xsize" "y = 0 \<or> y = ysize - 1"
    | y x where "p = y * 32 + x" "1 \<le> y" "y < ysize - 1" "x = 0 \<or> x = xsize - 1"
proof -
  have "p \<in> set (positions 0 1 0 xsize) \<or> p \<in> set (positions (ysize - 1) ysize 0 xsize) \<or>
    (\<exists>y \<in> {1..<ysize - 1}. p = y * 32 + 0 \<or> p = y * 32 + (xsize - 1))"
    using assms by (auto simp: edge_def)
  then show thesis
  proof (elim disjE bexE)
    assume "p \<in> set (positions 0 1 0 xsize)"
    then show thesis by (rule positionsE) (rule that(1), auto)
  next
    assume "p \<in> set (positions (ysize - 1) ysize 0 xsize)"
    then show thesis by (rule positionsE) (rule that(1), auto)
  next
    fix y assume "y \<in> {1..<ysize - 1}" "p = y * 32 + 0"
    then show thesis using that(2) [of y 0] by simp
  next
    fix y assume "y \<in> {1..<ysize - 1}" "p = y * 32 + (xsize - 1)"
    then show thesis using that(2) [of y "xsize - 1"] by simp
  qed
qed

lemma edgeI1: "x < xsize \<Longrightarrow> 0 < ysize \<Longrightarrow> y = 0 \<or> y = ysize - 1 \<Longrightarrow> y * 32 + x \<in> set (edge ysize xsize)"
  using positionsI [of 0 0 1 0 x xsize] positionsI [of "ysize - 1" "ysize - 1" ysize 0 x xsize]
  by (auto simp: edge_def)

lemma edgeI2: "1 \<le> y \<Longrightarrow> y < ysize - 1 \<Longrightarrow> x = 0 \<or> x = xsize - 1 \<Longrightarrow> y * 32 + x \<in> set (edge ysize xsize)"
  by (auto simp: edge_def)

lemma improvemapD:
  assumes "improvemap fuel m ysize xsize = Improved m'" "length m = 1024" "ysize \<le> 32" "xsize \<le> 32"
    and "\<not> bit (m ! 0) 1"
  shows "length m' = 1024" "\<exists>p. players (positions 0 ysize 0 xsize) m = [p]"
    "cells k m' = (if k = 3 then cells k m \<union> int ` set (edge ysize xsize)
                   else cells k m - int ` set (edge ysize xsize)) \<or> 4 \<le> k"
proof -
  let ?ps = "positions 0 ysize 0 xsize"
  have r: "\<forall>p \<in> set ?ps. p < length m"
  proof
    fix p assume "p \<in> set ?ps"
    then obtain y x where "p = y * 32 + x" "y < 32" "x < 32" using assms(3,4) by (auto simp: set_positions)
    then show "p < length m" using assms(2) by linarith
  qed
  have z: "0 \<notin> set (players ?ps m)" using assms(5) by (simp add: players_def)
  note mk = mark_floor_eq [OF r z, of 0]
  obtain p where p: "players ?ps m = [p]" "p \<noteq> 0"
  proof -
    have "p \<noteq> 0" if "players ?ps m = [p]" for p using z that by auto
    then show thesis
      using assms(1) mk that by (auto simp: improvemap_def split: list.splits)
  qed
  then show "\<exists>p. players ?ps m = [p]" by blast
  obtain m1 m2 where m1: "pullflooring fuel (marked ?ps m) 0 = Improved m1"
    and m2: "foldo join_walls (positions 1 (ysize - 1) 1 (xsize - 1)) m1 = Some m2"
    and m3: "foldo (\<lambda>p m. wr m p WALL) (edge ysize xsize) m2 = Some m'"
    using assms(1) mk p by (auto simp: improvemap_def split: improved.splits option.splits)
  have s: "same_objects m m2"
    using marked_same [OF r] pull_same [OF m1] foldo_join_same [OF m2] same_trans by blast
  show "length m' = 1024" using edge_cells [OF m3] s assms(2) by (simp add: same_objects_def)
  show "cells k m' = (if k = 3 then cells k m \<union> int ` set (edge ysize xsize)
                   else cells k m - int ` set (edge ysize xsize)) \<or> 4 \<le> k"
    using edge_cells [OF m3, of k] s by (auto simp: same_objects_def)
qed

subsubsection \<open>Inside the edge\<close>

definition interior :: "nat \<Rightarrow> nat \<Rightarrow> int set" where
  "interior ysize xsize = {32 * y + x | y x. 1 \<le> y \<and> y < int ysize - 1 \<and> 1 \<le> x \<and> x < int xsize - 1}"

lemma edge_int:
  assumes "0 \<le> y" "y < int ysize" "0 \<le> x" "x < int xsize"
    and "y = 0 \<or> y = int ysize - 1 \<or> x = 0 \<or> x = int xsize - 1"
  shows "32 * y + x \<in> int ` set (edge ysize xsize)"
proof -
  have i: "32 * y + x = int (nat y * 32 + nat x)" using assms by simp
  have "nat y * 32 + nat x \<in> set (edge ysize xsize)"
  proof (cases "y = 0 \<or> y = int ysize - 1")
    case True
    then show ?thesis using assms by (intro edgeI1) auto
  next
    case False
    then show ?thesis using assms by (intro edgeI2) auto
  qed
  then show ?thesis using i by blast
qed

lemma interior_enclosed:
  assumes W: "int ` set (edge ysize xsize) \<subseteq> W" and sz: "ysize \<le> 32" "xsize \<le> 32"
  shows "enclosed W (interior ysize xsize)"
  unfolding enclosed_def
proof (intro ballI conjI)
  fix q assume "q \<in> interior ysize xsize"
  then obtain y x where q: "q = 32 * y + x" "1 \<le> y" "y < int ysize - 1" "1 \<le> x" "x < int xsize - 1"
    by (auto simp: interior_def)
  show "0 \<le> q" "q < 1024" using q sz by linarith+
  fix d assume "d \<in> dirs"
  then obtain y' x' where n: "q + d = 32 * y' + x'" "0 \<le> y'" "y' < int ysize" "0 \<le> x'" "x' < int xsize"
  proof -
    assume d: "d \<in> dirs"
    consider "d = - 1" | "d = 1" | "d = - 32" | "d = 32" using d by (auto simp: dirs_def)
    then show thesis
    proof cases
      case 1 then show ?thesis using that [of y "x - 1"] q by simp
    next
      case 2 then show ?thesis using that [of y "x + 1"] q by simp
    next
      case 3 then show ?thesis using that [of "y - 1" x] q by simp
    next
      case 4 then show ?thesis using that [of "y + 1" x] q by simp
    qed
  qed
  show "0 \<le> q + d" "q + d < 1024" using n sz by linarith+
  show "q + d \<notin> W \<longrightarrow> q + d \<in> interior ysize xsize"
  proof
    assume "q + d \<notin> W"
    then have "\<not> (y' = 0 \<or> y' = int ysize - 1 \<or> x' = 0 \<or> x' = int xsize - 1)"
      using edge_int [OF n(2-5)] W n(1) by auto
    then have "1 \<le> y'" "y' < int ysize - 1" "1 \<le> x'" "x' < int xsize - 1" using n by auto
    then show "q + d \<in> interior ysize xsize" unfolding interior_def n(1) by blast
  qed
qed

lemma edge_not_interior: "q \<in> interior ysize xsize \<Longrightarrow> ysize \<le> 32 \<Longrightarrow> xsize \<le> 32 \<Longrightarrow> q \<notin> int ` set (edge ysize xsize)"
proof
  assume "q \<in> interior ysize xsize" "q \<in> int ` set (edge ysize xsize)" and sz: "ysize \<le> 32" "xsize \<le> 32"
  then obtain y x where q: "q = 32 * y + x" "1 \<le> y" "y < int ysize - 1" "1 \<le> x" "x < int xsize - 1"
    by (auto simp: interior_def)
  obtain v u where "q = 32 * int v + int u" "u < 32" "v = 0 \<or> Suc v = ysize \<or> u = 0 \<or> Suc u = xsize"
  proof -
    obtain p where p: "q = int p" "p \<in> set (edge ysize xsize)" using \<open>q \<in> int ` set (edge ysize xsize)\<close> by blast
    from p(2) show thesis
    proof (cases rule: edgeE)
      case (1 v u)
      then show thesis using that [of v u] p sz q by auto
    next
      case (2 v u)
      then show thesis using that [of v u] p sz q by auto
    qed
  qed
  moreover have "y = int v"
  proof -
    have "q div 32 = y" using q sz by (simp add: div_pos_pos_trivial)
    moreover have "q div 32 = int v" using \<open>q = 32 * int v + int u\<close> \<open>u < 32\<close> by (simp add: div_pos_pos_trivial)
    ultimately show ?thesis by simp
  qed
  moreover have "x = int u" using calculation q(1) by simp
  ultimately show False using q by auto
qed

subsubsection \<open>Counting\<close>

lemma finite_upto: "finite {p \<in> cells k m. p < int n}"
  by (rule finite_subset [OF _ finite_cells]) auto

lemma count_fold:
  assumes "n \<le> length m" "\<And>p. p < n \<Longrightarrow> \<not> (bit (m ! p) 1 \<and> bit (m ! p) 2)"
    and "{p \<in> cells 1 m. p < int n} \<subseteq> {s}"
  shows "fold (count_cell m) [0..<n] \<lparr>n_start = 0, n_box = 0, n_goal = 0, n_store = 0\<rparr> =
    \<lparr>n_start = (if s \<in> cells 1 m \<and> s < int n then s else 0),
     n_box = int (card {p \<in> cells 2 m. p < int n}),
     n_goal = int (card {p \<in> cells 0 m. p < int n}),
     n_store = int (card {p \<in> cells 2 m \<inter> cells 0 m. p < int n})\<rparr>"
  using assms
proof (induction n)
  case 0
  have "{p \<in> cells k m. p < 0} = {}" for k by (auto simp: cells_def)
  moreover have "{p \<in> cells 2 m \<inter> cells 0 m. p < 0} = {}" by (auto simp: cells_def)
  moreover have "\<not> (s \<in> cells 1 m \<and> s < 0)" by (auto simp: cells_def)
  ultimately show ?case by (simp del: Int_iff Collect_empty_eq)
next
  case (Suc n)
  have step: "{p \<in> A. p < int (Suc n)} =
      (if int n \<in> A then insert (int n) {p \<in> A. p < int n} else {p \<in> A. p < int n})" for A
  proof -
    have "p < int (Suc n) \<longleftrightarrow> p = int n \<or> p < int n" for p by auto
    then show ?thesis by auto
  qed
  have bits: "int n \<in> cells k m \<longleftrightarrow> bit (m ! n) k" for k using Suc.prems(1) by (simp add: cells_nat)
  have fin: "finite {p \<in> cells 2 m \<inter> cells 0 m. p < int n}"
    by (rule finite_subset [OF _ finite_cells [of 2 m]]) auto
  have at: "bit (m ! n) 1 \<longleftrightarrow> int n \<in> cells 1 m" using Suc.prems(1) by (simp add: cells_nat)
  have sub: "{p \<in> cells 1 m. p < int n} \<subseteq> {s}" using Suc.prems(3) by auto
  have IH: "fold (count_cell m) [0..<n] \<lparr>n_start = 0, n_box = 0, n_goal = 0, n_store = 0\<rparr> =
    \<lparr>n_start = (if s \<in> cells 1 m \<and> s < int n then s else 0),
     n_box = int (card {p \<in> cells 2 m. p < int n}),
     n_goal = int (card {p \<in> cells 0 m. p < int n}),
     n_store = int (card {p \<in> cells 2 m \<inter> cells 0 m. p < int n})\<rparr>"
    using Suc.IH Suc.prems sub by simp
  have start: "(if s \<in> cells 1 m \<and> s < int (Suc n) then s else 0)
      = (if bit (m ! n) 1 then int n else if s \<in> cells 1 m \<and> s < int n then s else 0)"
  proof (cases "bit (m ! n) 1")
    case True
    then have "int n = s" using Suc.prems(3) at by auto
    then show ?thesis using True at by simp
  next
    case False
    then have "s \<in> cells 1 m \<and> s < int (Suc n) \<longleftrightarrow> s \<in> cells 1 m \<and> s < int n"
      using at by (cases "s = int n") auto
    then show ?thesis using False by simp
  qed
  have no: "\<not> (bit (m ! n) 1 \<and> bit (m ! n) 2)" using Suc.prems(2) by simp
  have unfold: "fold (count_cell m) [0..<Suc n] z = count_cell m n (fold (count_cell m) [0..<n] z)" for z by simp
  show ?case
    unfolding unfold IH start step unfolding bits
    using no fin finite_upto by (simp add: count_cell_def flag_bits Let_def card_insert_if bits)
qed

lemma card_all_below:
  assumes "A \<subseteq> {..< int n}"
  shows "{p \<in> A. p < int n} = A"
  using assms by auto

subsubsection \<open>Reading\<close>

abbreviation codes :: "u8 set" where "codes \<equiv> {0, 1, 2, 3, 4, 5, 8}"

text \<open>Objects only in the rows from 1 to below \<open>y\<close> and the columns from 1 to below \<open>xsize - 1\<close>.\<close>

definition within :: "nat \<Rightarrow> nat \<Rightarrow> u8 list \<Rightarrow> bool" where
  "within y xsize m = (length m = 1024 \<and> (\<forall>p < 1024. m ! p \<in> codes \<and> (m ! p \<noteq> 0 \<longrightarrow>
     (\<exists>r c. p = r * 32 + c \<and> 1 \<le> r \<and> r < y \<and> 1 \<le> c \<and> Suc c < xsize))))"

lemma cell_of_codes: "cell_of c = Some k \<Longrightarrow> k \<in> codes"
  by (auto simp: cell_of_def filecells_def split: if_splits)

lemma tab_stop: "x < 32 \<Longrightarrow> x \<le> or x 7 \<and> or x 7 < (32::nat)"
proof -
  have "list_all (\<lambda>x. x \<le> or x 7 \<and> or x 7 < (32::nat)) [0..<32]" by code_simp
  then show "x < 32 \<Longrightarrow> x \<le> or x 7 \<and> or x 7 < 32" by (simp add: list_all_iff)
qed

lemma place_row_ok:
  "place_row p y x m = Some (b, x', m') \<Longrightarrow> x \<le> 32 \<Longrightarrow>
     length m' = length m \<and> x \<le> x' \<and> x' \<le> 32 \<and>
     (\<forall>q < length m. m' ! q = m ! q \<or> m' ! q \<in> codes \<and> (\<exists>c. q = y * 32 + c \<and> x \<le> c \<and> c < x'))"
proof (induction p y x m rule: place_row.induct)
  case (1 c p y x m)
  show ?case
  proof (cases "\<not> x < 32 \<or> c = NUL \<or> c = newline \<or> c = CHR '';''")
    case True
    then show ?thesis using 1 by auto
  next
    case False
    then have x: "x < 32" by simp
    show ?thesis
    proof (cases "c = CHR 0x09")
      case True
      have "Suc (or x 7) \<le> 32" "x < Suc (or x 7)" using tab_stop [OF x] by simp_all
      then show ?thesis using 1(1) [OF False True] 1(3) False True by fastforce
    next
      case nt: False
      show ?thesis
      proof (cases "cell_of c")
        case None
        then show ?thesis using 1(3,4) False nt by auto
      next
        case (Some k)
        then obtain m1 where m1: "wr m (y * 32 + x) k = Some m1" "place_row p y (Suc x) m1 = Some (b, x', m')"
          using 1(3) False nt by (auto simp: bind_eq_Some_conv)
        have m1': "y * 32 + x < length m" "m1 = m[y * 32 + x := k]" using wr_SomeD [OF m1(1)] by simp_all
        have IH: "length m' = length m1 \<and> Suc x \<le> x' \<and> x' \<le> 32 \<and> (\<forall>q < length m1. m' ! q = m1 ! q \<or>
            m' ! q \<in> codes \<and> (\<exists>c. q = y * 32 + c \<and> Suc x \<le> c \<and> c < x'))"
          using 1(2) [OF False nt Some m1] x by simp
        have k: "k \<in> codes" using cell_of_codes [OF Some] .
        have "m' ! q = m ! q \<or> m' ! q \<in> codes \<and> (\<exists>c. q = y * 32 + c \<and> x \<le> c \<and> c < x')"
          if q: "q < length m" for q
        proof (cases "m' ! q = m1 ! q")
          case same: True
          show ?thesis
          proof (cases "q = y * 32 + x")
            case True
            then have "m' ! q = k" "x < x'" using same m1' IH by auto
            then show ?thesis using True k by blast
          next
            case False
            then show ?thesis using same m1' by simp
          qed
        next
          case False
          then have "m' ! q \<in> codes \<and> (\<exists>c. q = y * 32 + c \<and> Suc x \<le> c \<and> c < x')" using IH q m1' by auto
          then show ?thesis using Suc_leD by blast
        qed
        moreover have "length m' = length m" "x \<le> x'" "x' \<le> 32" using IH m1' by auto
        ultimately show ?thesis by blast
      qed
    qed
  qed
qed (auto split: if_splits)

lemma within_row:
  assumes "within y xsize m" "place_row p y 1 m = Some (b, x, m')" "1 \<le> y"
  shows "within (Suc y) (max xsize (x + 1)) m'" "x \<le> 32"
proof -
  have p: "length m' = length m" "x \<le> 32" and ch: "\<And>q. q < length m \<Longrightarrow> m' ! q = m ! q \<or>
      m' ! q \<in> codes \<and> (\<exists>c. q = y * 32 + c \<and> 1 \<le> c \<and> c < x)"
    using place_row_ok [OF assms(2)] by auto
  show "x \<le> 32" by (rule p(2))
  have "m' ! q \<in> codes \<and> (m' ! q \<noteq> 0 \<longrightarrow>
      (\<exists>r c. q = r * 32 + c \<and> 1 \<le> r \<and> r < Suc y \<and> 1 \<le> c \<and> Suc c < max xsize (x + 1)))" if q: "q < 1024" for q
  proof (cases "m' ! q = m ! q")
    case True
    then have c: "m' ! q \<in> codes" and z: "m' ! q \<noteq> 0 \<longrightarrow> (\<exists>r c. q = r * 32 + c \<and> 1 \<le> r \<and> r < y \<and> 1 \<le> c \<and> Suc c < xsize)"
      using assms(1) q by (simp_all add: within_def)
    have up: "r < y \<Longrightarrow> r < Suc y" "Suc c < xsize \<Longrightarrow> Suc c < max xsize (x + 1)" for r c by auto
    show ?thesis using c z up by blast
  next
    case False
    then obtain c where c: "m' ! q \<in> codes" "q = y * 32 + c" "1 \<le> c" "c < x"
      using ch q assms(1) by (auto simp: within_def)
    then have "y < Suc y" "Suc c < max xsize (x + 1)" by simp_all
    then show ?thesis using c assms(3) by blast
  qed
  then show "within (Suc y) (max xsize (x + 1)) m'" using assms(1) p(1) by (simp add: within_def)
qed

lemma within_mono: "within y xsize m \<Longrightarrow> y \<le> y' \<Longrightarrow> within y' xsize m"
  unfolding within_def by (meson order_less_le_trans)

lemma readrows_within:
  "readrows fp buf y xsize bad name m = Rows y' xsize' name' m' fp' \<Longrightarrow> within y xsize m \<Longrightarrow> 1 \<le> y \<Longrightarrow>
     within (if xsize' \<le> 32 then y' else Suc y') xsize' m'"
proof (induction "length fp" arbitrary: fp buf y xsize bad name m rule: less_induct)
  case less
  note eq = readrows.simps [of fp buf y xsize bad name m]
  show ?case
  proof (cases "y < 32 \<and> fp \<noteq> []")
    case False
    then have "y' = y" "xsize' = xsize" "m' = m" using less.prems(1) eq by (auto split: if_splits list.splits)
    then show ?thesis using less.prems(2) within_mono [of y xsize m "Suc y"] by simp
  next
    case True
    then obtain ch fq where fp: "fp = ch # fq" and y: "y < 32" by (cases fp) auto
    obtain n line fr where g: "getnline fq 256 = (n, line, fr)" by (cases "getnline fq 256")
    obtain n' line' fr' where g': "getnline fq 255 = (n', line', fr')" by (cases "getnline fq 255")
    have len: "length fq < length fp" "length fr < length fp" "length fr' < length fp"
      using getnline_length [OF g] getnline_length [OF g'] by (simp_all add: fp)
    show ?thesis
    proof (cases "ch = newline \<or> ch = CHR '';'' \<or> ch = CHR ''='' \<or> ch = CHR 0x27")
      case sep: True
      consider "y' = y" "xsize' = xsize" "m' = m"
        | fp2 buf2 name2 where "length fp2 < length fp" "readrows fp2 buf2 y xsize bad name2 m = Rows y' xsize' name' m' fp'"
        using less.prems(1) eq len sep y
        by (auto simp: fp g Let_def split: if_splits option.splits)
      then show ?thesis
      proof cases
        case 1
        then show ?thesis using less.prems(2) within_mono [of y xsize m "Suc y"] by simp
      next
        case 2
        then show ?thesis using less.hyps [OF 2] less.prems by blast
      qed
    next
      case row: False
      let ?buf = "store (buf[0 := Some ch]) 1 line'"
      have eq': "readrows fp buf y xsize bad name m =
          (if bad then readrows fr' ?buf (Suc y) xsize bad name m
           else (case place_row ?buf y 1 m of None \<Rightarrow> Broken
             | Some (bad, x, m) \<Rightarrow>
                 if xsize \<le> x then (if 32 < x + 1 then Rows y (x + 1) name m fr'
                   else readrows fr' ?buf (Suc y) (x + 1) bad name m)
                 else readrows fr' ?buf (Suc y) xsize bad name m))"
        unfolding eq using row y by (simp add: fp g' Let_def del: One_nat_def)
      show ?thesis
      proof (cases bad)
        case True
        then show ?thesis
          using less.hyps [OF len(3)] less.prems eq' within_mono [of y xsize m "Suc y"] by simp
      next
        case nb: False
        then obtain b x m1 where p: "place_row ?buf y 1 m = Some (b, x, m1)"
          using less.prems(1) eq' by (auto split: option.splits)
        have w: "within (Suc y) (max xsize (x + 1)) m1" "x \<le> 32"
          using within_row [OF less.prems(2) p less.prems(3)] by simp_all
        consider "xsize \<le> x" "x + 1 \<le> 32" "readrows fr' ?buf (Suc y) (x + 1) b name m1 = Rows y' xsize' name' m' fp'"
          | "xsize \<le> x" "xsize' = x + 1" "32 < x + 1" "y' = y" "m' = m1"
          | "x < xsize" "readrows fr' ?buf (Suc y) xsize b name m1 = Rows y' xsize' name' m' fp'"
          using less.prems(1) eq' nb p by (auto split: if_splits)
        then show ?thesis
        proof cases
          case 1
          then show ?thesis using less.hyps [OF len(3) 1(3)] w(1) by simp
        next
          case 2
          then show ?thesis using w(1) by simp
        next
          case 3
          then have "max xsize (x + 1) = xsize" by simp
          then show ?thesis using less.hyps [OF len(3) 3(2)] w(1) by simp
        qed
      qed
    qed
  qed
qed

lemma codes_bits:
  assumes "c \<in> codes"
  shows "\<not> (bit c 1 \<and> bit c 2)" "bit c 3 \<Longrightarrow> k < 3 \<Longrightarrow> \<not> bit c k"
proof -
  have c: "c \<in> set [0, 1, 2, 3, 4, 5, 8 :: u8]" using assms by simp
  have "\<forall>c \<in> set [0, 1, 2, 3, 4, 5, 8 :: u8]. \<not> (bit c 1 \<and> bit c 2)" by code_simp
  then show "\<not> (bit c 1 \<and> bit c 2)" using c by blast
  have "\<forall>c \<in> set [0, 1, 2, 3, 4, 5, 8 :: u8]. bit c 3 \<longrightarrow> (\<forall>k \<in> set [0..<3]. \<not> bit c k)" by code_simp
  then have "bit c 3 \<longrightarrow> (\<forall>k \<in> set [0..<3]. \<not> bit c k)" using c by blast
  then show "bit c 3 \<Longrightarrow> k < 3 \<Longrightarrow> \<not> bit c k" by simp
qed

lemma within_interior:
  assumes "within y xsize m" "q \<in> cells k m"
  shows "q \<in> interior (y + 1) xsize"
proof -
  have q: "0 \<le> q" "q < 1024" "bit (m ! nat q) k" using assms by (auto simp: cells_def within_def)
  then have "m ! nat q \<noteq> 0" by auto
  then obtain r c where "nat q = r * 32 + c" "1 \<le> r" "r < y" "1 \<le> c" "Suc c < xsize"
    using assms(1) q unfolding within_def by (metis nat_less_iff of_nat_numeral)
  then have "q = 32 * int r + int c" "1 \<le> int r" "int r < int (y + 1) - 1" "1 \<le> int c" "int c < int xsize - 1"
    using q(1) by auto
  then show ?thesis unfolding interior_def by blast
qed

lemma within_codes:
  assumes "within y xsize m" "q \<in> cells k m"
  shows "m ! nat q \<in> codes"
proof -
  have "nat q < 1024" using assms by (auto simp: cells_def within_def)
  then show ?thesis using assms(1) by (simp only: within_def)
qed

lemma within_interiorE:
  assumes "within y xsize m" "q \<in> cells k m"
  obtains r c where "q = 32 * r + c" "1 \<le> r" "r < int (y + 1) - 1" "1 \<le> c" "c < int xsize - 1"
  using within_interior [OF assms] unfolding interior_def by blast

lemma within_cells:
  assumes w: "within y xsize m" "y + 1 \<le> 32" "xsize \<le> 32" and i: "improvemap fuel m (y + 1) xsize = Improved m'"
  shows "length m' = 1024" "k < 3 \<Longrightarrow> cells k m' = cells k m"
    "cells 3 m' = cells 3 m \<union> int ` set (edge (y + 1) xsize)" "\<exists>p. cells 1 m = {int p}"
proof -
  have len: "length m = 1024" using w(1) by (simp add: within_def)
  have no: "q \<notin> int ` set (edge (y + 1) xsize)" if "q \<in> cells k m" for q k
    using within_interior [OF w(1) that] edge_not_interior w(2,3) by blast
  have "m ! 0 = 0"
  proof (rule ccontr)
    assume "m ! 0 \<noteq> 0"
    then obtain r c where "0 = r * 32 + c" "1 \<le> (r::nat)" using w(1) unfolding within_def by fastforce
    then show False by simp
  qed
  then have z: "\<not> bit (m ! 0) 1" by simp
  note im = improvemapD [OF i len w(2,3) z]
  show "length m' = 1024" by (rule im(1))
  show "cells k m' = cells k m" if "k < 3"
    using im(3) [of k] that no [of _ k] by auto
  show "cells 3 m' = cells 3 m \<union> int ` set (edge (y + 1) xsize)" using im(3) [of 3] by simp
  obtain p where p: "players (positions 0 (y + 1) 0 xsize) m = [p]" using im(2) by blast
  have "cells 1 m = {int p}"
  proof (intro equalityI subsetI)
    fix q assume q: "q \<in> cells 1 m"
    then obtain r c where rc: "q = 32 * r + c" "1 \<le> r" "r < int (y + 1) - 1" "1 \<le> c" "c < int xsize - 1"
      by (rule within_interiorE [OF w(1)])
    then have nq: "nat q = nat r * 32 + nat c" by (simp add: nat_add_distrib nat_mult_distrib)
    have "nat q \<in> set (positions 0 (y + 1) 0 xsize)"
      unfolding nq using rc by (intro positionsI) auto
    moreover have "bit (m ! nat q) 1" "nat q < 1024" using q len by (auto simp: cells_def)
    moreover have "\<not> bit (m ! nat q) 3"
      using codes_bits(2) [of "m ! nat q" 1] calculation w(1) by (auto simp: within_def)
    ultimately have "nat q \<in> set (players (positions 0 (y + 1) 0 xsize) m)" by (simp add: players_def)
    then show "q \<in> {int p}" using p q by (auto simp: cells_def)
  next
    fix q assume "q \<in> {int p}"
    moreover have "p \<in> set (players (positions 0 (y + 1) 0 xsize) m)" using p by simp
    then have "bit (m ! p) 1" "p \<in> set (positions 0 (y + 1) 0 xsize)" by (auto simp: players_def)
    moreover from this(2) have "p < 1024" by (rule positionsE) (use w(2,3) in simp)
    ultimately show "q \<in> cells 1 m" using len by (simp add: cells_nat)
  qed
  then show "\<exists>p. cells 1 m = {int p}" by blast
qed

lemma level_built:
  assumes w: "within y xsize m" "y + 1 \<le> 32" "xsize \<le> 32" and i: "improvemap fuel m (y + 1) xsize = Improved m'"
    and a: "wf_list (moveanswer g)" "moves (moveanswer g) = []" "wf_list (pushanswer g)" "moves (pushanswer g) = []"
  shows "level_ok (level_of m' (y + 1) g)"
proof -
  note c = within_cells [OF w i]
  obtain p where p: "cells 1 m = {int p}" using c(4) by blast
  have low: "cells k m \<subseteq> {..< int ((y + 1) * 32)}" for k
  proof
    fix q assume "q \<in> cells k m"
    then obtain r d where "q = 32 * r + d" "r < int (y + 1) - 1" "d < int xsize - 1"
      by (rule within_interiorE [OF w(1)])
    then show "q \<in> {..< int ((y + 1) * 32)}" using w(3) by simp
  qed
  have inter: "cells k m \<subseteq> interior (y + 1) xsize" for k using within_interior [OF w(1)] by blast
  have dj: "cells k m \<inter> cells 3 m' = {}" if "k < 3" for k
  proof -
    have "\<not> bit (m ! nat q) 3" if "q \<in> cells k m" for q
    proof -
      have "m ! nat q \<in> codes" "bit (m ! nat q) k"
        using that within_codes [OF w(1)] by (auto simp: cells_def)
      then show ?thesis using codes_bits(2) \<open>k < 3\<close> by blast
    qed
    then have "q \<notin> cells 3 m" if "q \<in> cells k m" for q using that by (auto simp: cells_def)
    moreover have "q \<notin> int ` set (edge (y + 1) xsize)" if "q \<in> cells k m" for q
      using edge_not_interior inter that w(2,3) by blast
    ultimately show ?thesis unfolding c(3) by blast
  qed
  have pb: "\<not> (bit (m' ! q) 1 \<and> bit (m' ! q) 2)" if "q < 1024" for q
  proof
    assume "bit (m' ! q) 1 \<and> bit (m' ! q) 2"
    then have "int q \<in> cells 1 m'" "int q \<in> cells 2 m'" using that c(1) by (simp_all add: cells_nat)
    then have q: "int q \<in> cells 1 m" "int q \<in> cells 2 m" using c(2) by simp_all
    then have "bit (m ! q) 1 \<and> bit (m ! q) 2" by (simp add: cells_nat)
    moreover have "m ! q \<in> codes" using within_codes [OF w(1) q(1)] by simp
    ultimately show False using codes_bits(1) by blast
  qed
  have k: "count_level m' (y + 1) = \<lparr>n_start = int p, n_box = int (card (cells 2 m)), n_goal = int (card (cells 0 m)),
      n_store = int (card (cells 2 m \<inter> cells 0 m))\<rparr>"
  proof -
    have n: "(y + 1) * 32 \<le> length m'" using w(2) c(1) by simp
    have s: "{q \<in> cells 1 m'. q < int ((y + 1) * 32)} \<subseteq> {int p}" using c(2) [of 1] p by auto
    have cut: "{q \<in> A. q < int ((y + 1) * 32)} = A" if "A \<subseteq> cells k m" for A k using low [of k] that by auto
    have sp: "int p \<in> cells 1 m" "int p < int ((y + 1) * 32)" using p low [of 1] by auto
    have eqs: "cells 0 m' = cells 0 m" "cells 1 m' = cells 1 m" "cells 2 m' = cells 2 m" by (simp_all add: c(2))
    have cuts: "{q \<in> cells k m. q < int ((y + 1) * 32)} = cells k m"
      "{q \<in> cells 2 m \<inter> cells 0 m. q < int ((y + 1) * 32)} = cells 2 m \<inter> cells 0 m" for k
      by (rule cut [of _ k], simp) (rule cut [of _ 2], simp)
    have ex: "\<not> (bit (m' ! q) 1 \<and> bit (m' ! q) 2)" if "q < (y + 1) * 32" for q using pb that w(2) by simp
    have "count_level m' (y + 1) = \<lparr>n_start = (if int p \<in> cells 1 m' \<and> int p < int ((y + 1) * 32) then int p else 0),
      n_box = int (card {q \<in> cells 2 m'. q < int ((y + 1) * 32)}),
      n_goal = int (card {q \<in> cells 0 m'. q < int ((y + 1) * 32)}),
      n_store = int (card {q \<in> cells 2 m' \<inter> cells 0 m'. q < int ((y + 1) * 32)})\<rparr>"
      unfolding count_level_def by (rule count_fold [OF n _ s]) (rule ex)
    then show ?thesis unfolding eqs cuts using sp by simp
  qed
  have "inside (cells 3 m') (int p)"
    unfolding inside_def
    using interior_enclosed [of "y + 1" xsize "cells 3 m'"] w(2,3) c(3) p inter [of 1] by blast
  moreover have "int p \<notin> cells 2 m"
  proof
    assume "int p \<in> cells 2 m"
    moreover have "int p \<in> cells 1 m" using p by simp
    ultimately have "int p \<in> cells 1 m'" "int p \<in> cells 2 m'" using c(2) by simp_all
    then have "p < 1024" "bit (m' ! p) 1 \<and> bit (m' ! p) 2" using c(1) by (simp_all add: cells_nat)
    then show False using pb by blast
  qed
  moreover have "cells 2 m \<subseteq> {0..<1024}" using w(1) by (auto simp: cells_def within_def)
  ultimately have "good (cells 3 m') (int p, cells 2 m)"
    using dj [of 1] dj [of 2] p by (auto simp: good_def)
  then show ?thesis
    using c(1) c(2) [of 0] c(2) [of 1] c(2) [of 2] p k a
    by (simp add: level_ok_def level_of_def start_pos_def)
qed

lemma within_start: "within 1 1 (replicate 1024 0)"
  by (simp add: within_def)

lemma readlevelmap_LevelD:
  assumes "readlevelmap fp buf g = (Level name ysize xsize g', fp')"
  obtains y m m' where "within y xsize m" "y + 1 = ysize" "ysize \<le> 32" "xsize \<le> 32"
    "improvemap 1025 m ysize xsize = Improved m'" "g' = level_of m' ysize g"
proof -
  obtain y xs nm m fq where r: "readrows fp buf 1 1 False [] (replicate 1024 0) = Rows y xs nm m fq"
    using assms by (auto simp: readlevelmap_def split: rows.splits)
  have sz: "y + 1 = ysize" "xs = xsize" "ysize \<le> 32" "xsize \<le> 32"
    using assms by (auto simp: readlevelmap_def r [simplified] Let_def split: if_splits improved.splits)
  have "within (if xs \<le> 32 then y else Suc y) xs m"
    using readrows_within [OF r within_start] by simp
  then have "within y xsize m" using sz by simp
  moreover obtain m' where "improvemap 1025 m ysize xsize = Improved m'" "g' = level_of m' ysize g"
    using assms sz by (auto simp: readlevelmap_def r [simplified] Let_def split: if_splits improved.splits)
  ultimately show thesis using that sz by blast
qed

text \<open>
  C30. Every map that \<open>readlevelmap\<close> accepts is a well-formed level, whatever the puzzle file holds:
  one player, closed off by walls inside the map, boxes that stand on no wall, and counts of boxes,
  goals and stored boxes that agree with the map. Together with the safety of sessions, no puzzle
  file can lead the player out of the map.
\<close>

theorem readlevelmap_gives_level:
  assumes "readlevelmap fp buf g = (Level name ysize xsize g', fp')"
    and "wf_list (moveanswer g)" "moves (moveanswer g) = []" "wf_list (pushanswer g)" "moves (pushanswer g) = []"
  shows "level_ok g'"
proof -
  obtain y m m' where "within y xsize m" "y + 1 = ysize" "ysize \<le> 32" "xsize \<le> 32"
    "improvemap 1025 m ysize xsize = Improved m'" "g' = level_of m' ysize g"
    by (rule readlevelmap_LevelD [OF assms(1)])
  then show ?thesis using level_built [of y xsize m 1025 m' g] assms(2-5) by blast
qed

lemma card_cells: "card (cells k m) \<le> length m"
proof -
  have "cells k m \<subseteq> int ` {0..<length m}"
  proof
    fix q assume "q \<in> cells k m"
    then have "q = int (nat q)" "nat q < length m" by (auto simp: cells_def)
    then show "q \<in> int ` {0..<length m}" by (metis atLeastLessThan_iff image_eqI le0)
  qed
  then have "card (cells k m) \<le> card (int ` {0..<length m})" by (intro card_mono) auto
  also have "\<dots> \<le> length m" using card_image_le [of "{0..<length m}" int] by simp
  finally show ?thesis .
qed

lemma mark_floor_result:
  "length m = n \<Longrightarrow> (case mark_floor ps m i of Inl e \<Rightarrow> e \<in> {Outside, Multiple} | Inr (m', _) \<Rightarrow> length m' = n)"
proof (induction ps arbitrary: m i)
  case (Cons p ps)
  then show ?case by (auto simp: Let_def rd_def)
qed simp

text \<open>
  The flood fill ends: on a map of 1024 cells the recursion of \<open>pullflooring\<close> is never deeper
  than 1025 calls, so the preparation of a map always returns.
\<close>

theorem improvemap_returns:
  assumes "length m = 1024" "1025 \<le> fuel"
  shows "improvemap fuel m ysize xsize \<noteq> OutOfFuel"
proof (cases "mark_floor (positions 0 ysize 0 xsize) m 0")
  case (Inl e)
  then show ?thesis using mark_floor_result [OF assms(1), of "positions 0 ysize 0 xsize" 0]
    by (auto simp: improvemap_def)
next
  case (Inr r)
  obtain m1 i where r: "r = (m1, i)" by fastforce
  have "length m1 = 1024"
    using mark_floor_result [OF assms(1), of "positions 0 ysize 0 xsize" 0] Inr r by simp
  then have "card (cells 5 m1 - {int 0}) < fuel"
    using card_cells [of 5 m1] card_Diff_subset_Int [of "{int 0}" "cells 5 m1"] card_mono [of "cells 5 m1" "cells 5 m1 - {int 0}"]
      finite_cells [of 5 m1] assms(2) by auto
  from pull_fuel [OF this] show ?thesis
    using Inr r by (auto simp: improvemap_def split: improved.splits option.splits)
qed

theorem improvemap_returns_witness: "improvemap 1025 (replicate 1024 0) 5 7 \<noteq> OutOfFuel"
  by (rule improvemap_returns) simp_all

lemma within_column: "within y xsize m \<Longrightarrow> xsize \<le> 32 \<Longrightarrow> j < 32 \<Longrightarrow> m ! (32 * j) = 0"
proof (rule ccontr)
  assume w: "within y xsize m" "xsize \<le> 32" "j < 32" "m ! (32 * j) \<noteq> 0"
  then have "32 * j < 1024" by simp
  then obtain r c where e: "32 * j = r * 32 + c" "1 \<le> c" "Suc c < xsize"
    using w(1,4) unfolding within_def by blast
  have "c = (r * 32 + c) mod 32" using e(3) w(2) by simp
  also have "\<dots> = (32 * j) mod 32" using e(1) by simp
  finally show False using e(2) by simp
qed

lemma full_height_outside:
  assumes w: "within y xsize m" "xsize \<le> 32" and p: "players (positions 0 32 0 xsize) m = [p]" and "32 \<le> fuel"
  shows "improvemap fuel m 32 xsize = Outside"
proof -
  let ?ps = "positions 0 32 0 xsize"
  have len: "length m = 1024" using w(1) by (simp add: within_def)
  have r: "\<forall>q \<in> set ?ps. q < length m"
    using w(2) len by (auto elim!: positionsE)
  have col: "m ! (32 * j) = 0" if "j < 32" for j using within_column [OF w that] .
  have z: "0 \<notin> set (players ?ps m)" using col [of 0] by (simp add: players_def)
  then have p0: "p \<noteq> 0" using p by auto
  have xs: "0 < xsize"
  proof -
    have "p \<in> set (players ?ps m)" using p by simp
    then have "p \<in> set ?ps" by (simp add: players_def)
    then show ?thesis by (auto elim!: positionsE)
  qed
  have c: "bit (marked ?ps m ! (32 * j)) 5 \<and> \<not> bit (marked ?ps m ! (32 * j)) 3" if "j \<le> 31" for j
  proof -
    have "32 * j \<in> set ?ps" using positionsI [of 0 j 32 0 0 xsize] that xs by (simp add: mult.commute)
    then show ?thesis
      using marked_floor [OF r, of "32 * j"] marked_bits [OF r, of "32 * j" 3] col [of j] that len by simp
  qed
  have "length (marked ?ps m) = 1024" using marked_same [OF r] len by (simp add: same_objects_def)
  then have "pullflooring fuel (marked ?ps m) (32 * 0) = Outside"
    using c assms(4) by (intro pull_column) auto
  then show ?thesis
    using mark_floor_eq [OF r z, of 0] p p0 by (simp add: improvemap_def)
qed

text \<open>
  The fill tests \<open>pos <= MAXHEIGHT * MAXWIDTH - XSIZE\<close> where the last row must be excluded: for
  every puzzle with 30 rows, the largest that \<open>readlevelmap\<close> accepts, it reads the cell behind the map.
\<close>

theorem full_height_reads_outside:
  assumes "readrows fp buf 1 1 False [] (replicate 1024 0) = Rows 31 xsize name m fp'" "xsize \<le> 32"
    and "players (positions 0 32 0 xsize) m = [p]"
  shows "fst (readlevelmap fp buf g) = Undefined"
proof -
  have "within 31 xsize m" using readrows_within [OF assms(1) within_start] assms(2) by simp
  from full_height_outside [OF this assms(2,3), of 1025]
  show ?thesis using assms(1,2) by (simp add: readlevelmap_def Let_def)
qed

lemma tall_rows: "(case readrows tall_file (replicate 256 None) 1 1 False [] (replicate 1024 0) of
     Rows y xsize name m fp \<Rightarrow> y = 31 \<and> xsize = 3 \<and> players (positions 0 32 0 xsize) m = [33] | _ \<Rightarrow> False)"
  by code_simp

theorem full_height_reads_outside_witness:
  "fst (readlevelmap tall_file (replicate 256 None) sample_setup) = Undefined"
proof -
  obtain name m fp where "readrows tall_file (replicate 256 None) 1 1 False [] (replicate 1024 0) = Rows 31 3 name m fp"
    "players (positions 0 32 0 3) m = [33]"
    using tall_rows by (auto split: rows.splits)
  then show ?thesis by (intro full_height_reads_outside) simp_all
qed

lemma sample_level: "(case fst (readlevelmap sample_file (replicate 256 None) sample_setup) of
     Level name ysize xsize g \<Rightarrow> name = ''One'' \<and> ysize = 5 \<and> xsize = 7 \<and> start g = 66 \<and> boxcount g = 1 | _ \<Rightarrow> False)"
  by code_simp

theorem readlevelmap_gives_level_witness:
  "\<exists>g. fst (readlevelmap sample_file (replicate 256 None) sample_setup) = Level ''One'' 5 7 g \<and> level_ok g"
proof -
  obtain g fp where g: "readlevelmap sample_file (replicate 256 None) sample_setup = (Level ''One'' 5 7 g, fp)"
    using sample_level by (cases "readlevelmap sample_file (replicate 256 None) sample_setup") (auto split: levelread.splits)
  have "wf_list fresh_list" "moves fresh_list = []"
    using initmovelist_wf [of empty_list] by (simp_all add: fresh_list_def empty_list_def)
  then have "level_ok g" by (intro readlevelmap_gives_level [OF g]) (simp_all add: sample_setup_def)
  then show ?thesis using g by simp
qed

lemma fgets_line: "newline \<notin> set l \<Longrightarrow> length l < n \<Longrightarrow> fgets n (l @ newline # r) = (l @ [newline], r)"
proof (induction l arbitrary: n)
  case Nil
  then show ?case by (cases n) simp_all
next
  case (Cons c l)
  then show ?case by (cases n) auto
qed

lemma newline_NUL: "newline \<noteq> NUL"
  by (simp add: newline_def NUL_def)

lemma getnline_line:
  assumes "newline \<notin> set l" "NUL \<notin> set l" "length l + 2 < len"
  shows "getnline (l @ newline # r) len = (int (length l), Some (l @ [newline]), r)"
proof -
  have "takeWhile (\<lambda>c. c \<noteq> NUL) (l @ [newline]) = l @ [newline]"
    using assms(2) newline_NUL by (intro takeWhile_eq_all_conv [THEN iffD2]) auto
  moreover have "fgets (len - 1) (l @ newline # r) = (l @ [newline], r)"
    using assms by (intro fgets_line) simp_all
  moreover have "Suc (length l) \<noteq> len - 1" using assms(3) by simp
  ultimately show ?thesis by (simp add: getnline_def Let_def)
qed

lemma skip_blanks: "list_all isspace s \<Longrightarrow> skip_spaces (map Some (s @ [NUL]) @ bs) = Some (length s)"
  by (induction s) (auto simp: isspace_def NUL_def)

text \<open>
  A level whose title line holds only blanks makes \<open>readlevelmap\<close> copy a negative number of bytes,
  since the length that \<open>getnline\<close> returns does not count the newline that it leaves in the buffer.
\<close>

theorem blank_title_breaks:
  assumes "list_all isspace s" "newline \<notin> set s" "length s < 250"
  shows "fst (readlevelmap ('';;'' @ s @ newline # rest) buf g) = Undefined"
proof -
  have "\<not> isspace NUL" by (simp add: isspace_def NUL_def)
  then have "NUL \<notin> set s" using assms(1) unfolding list_all_iff by blast
  then have nul: "NUL \<notin> set (CHR '';'' # s)" by (simp add: NUL_def)
  have nl: "newline \<notin> set (CHR '';'' # s)" using assms(2) by (simp add: newline_def)
  have g: "getnline (CHR '';'' # s @ newline # rest) 256 = (int (length s) + 1, Some (CHR '';'' # s @ [newline]), rest)"
    using getnline_line [OF nl nul, of 256 rest] assms(3) by simp
  let ?b = "store buf 0 (Some (CHR '';'' # s @ [newline]))"
  have b: "?b = Some (CHR '';'') # map Some ((s @ [newline]) @ [NUL]) @ drop (length s + 3) buf"
    by (simp add: store_def eval_nat_numeral)
  have "list_all isspace (s @ [newline])" using assms(1) by (simp add: isspace_def newline_def)
  from skip_blanks [OF this] have "level_name ?b (int (length s) + 1) = None"
    unfolding level_name_def b by simp
  then have "readrows ('';;'' @ s @ newline # rest) buf 1 1 False [] (replicate 1024 0) = Broken"
    using g b by (subst readrows.simps) (simp add: newline_def)
  then show ?thesis by (simp add: readlevelmap_def)
qed

theorem blank_title_breaks_witness: "fst (readlevelmap ('';; '' @ [newline]) (replicate 256 None) sample_setup) = Undefined"
  using blank_title_breaks [of "'' ''" "[]"] by (simp add: isspace_def newline_def)

end
