(* ===== verification/SokobanAnswers.thy ===== *)
theory SokobanAnswers
  imports SokobanLevels
begin

text \<open>
  The answer file of a whole series (\<open>readanswers\<close> and \<open>saveanswers\<close> of \<open>answers.c\<close>), and the reading of a series up to
  a level (\<open>readlevelinseries\<close> of \<open>fileread.c\<close>). A file that is open for answers is its contents and the position in it. What \<open>fopen\<close> and
  \<open>mkdir\<close> return is a parameter. \<open>feof\<close> is taken to hold when nothing is left to read; where the
  flag would be set by one more read, that read finds no puzzle and no answer.
\<close>

section \<open>Definitions\<close>

subsection \<open>Numbers\<close>

text \<open>\<open>%d\<close> for \<open>printf\<close>, of a number that is not negative, and for \<open>sscanf\<close>; a number outside of \<open>int\<close> is undefined.\<close>

fun show_nat :: "nat \<Rightarrow> string" where
  "show_nat n = (if n < 10 then [char_of (48 + n)] else show_nat (n div 10) @ [char_of (48 + n mod 10)])"

declare show_nat.simps [simp del]

definition show_int :: "int \<Rightarrow> string" where
  "show_int i = (if i < 0 then ''-'' @ show_nat (nat (- i)) else show_nat (nat i))"

definition isdigit :: "char \<Rightarrow> bool" where
  "isdigit c = (48 \<le> (of_char c :: nat) \<and> (of_char c :: nat) \<le> 57)"

definition digits_value :: "string \<Rightarrow> int" where
  "digits_value = foldl (\<lambda>a c. a * 10 + (of_char c - 48)) 0"

datatype scanned = NoMatch | Overflow | Scanned int string

definition scan_int :: "string \<Rightarrow> scanned" where
  "scan_int s =
     (let s = dropWhile isspace s;
          (k, s) = (case s of c # cs \<Rightarrow> if c = CHR ''-'' then (- 1, cs) else if c = CHR ''+'' then (1, cs) else (1, s)
                    | [] \<Rightarrow> (1 :: int, s));
          ds = takeWhile isdigit s;
          v = k * digits_value ds
      in if ds = [] then NoMatch
         else if v < - 2147483648 \<or> 2147483647 < v then Overflow
         else Scanned v (drop (length ds) s))"

text \<open>\<open>sscanf(buf, "%d moves, %d pushes", &n, &m)\<close>: both numbers, or a count below two, or an overflow.\<close>

datatype header = BadHeader | HeaderOverflow | Header int int

definition scan_header :: "string \<Rightarrow> header" where
  "scan_header s =
     (case scan_int s of
        NoMatch \<Rightarrow> BadHeader
      | Overflow \<Rightarrow> HeaderOverflow
      | Scanned n s \<Rightarrow>
          let s = dropWhile isspace s in
          if take 6 s \<noteq> ''moves,'' then BadHeader
          else
            (case scan_int (drop 6 s) of
               NoMatch \<Rightarrow> BadHeader
             | Overflow \<Rightarrow> HeaderOverflow
             | Scanned m s \<Rightarrow> Header n m))"

definition show_header :: "int \<Rightarrow> int \<Rightarrow> string" where
  "show_header n m = show_int n @ '' moves, '' @ show_int m @ '' pushes'' @ [newline]"

subsection \<open>Reading\<close>

text \<open>The string in a buffer, up to its terminator.\<close>

definition cstring :: "string \<Rightarrow> string" where
  "cstring l = takeWhile (\<lambda>c. c \<noteq> NUL) l"

text \<open>The first line that is not blank and no comment.\<close>

lemma fgets_shorter: "fgets (Suc n) (c # cs) = (a, b) \<Longrightarrow> length b < Suc (length cs)"
  using fgets_length [of n cs] by (force split: if_splits prod.splits)

lemma getnline_shorter: "getnline fp 256 = (n, l, r) \<Longrightarrow> 0 \<le> n \<Longrightarrow> length r < length fp"
proof -
  assume g: "getnline fp 256 = (n, l, r)" and n: "0 \<le> n"
  then obtain c cs where fp: "fp = c # cs" by (cases fp) (simp_all add: getnline_def)
  obtain a b where f: "fgets 255 fp = (a, b)" by fastforce
  have "fgets (Suc 254) (c # cs) = (a, b)" using f fp by simp
  then have "length b < Suc (length cs)" by (rule fgets_shorter)
  then have "length b < length fp" using fp by simp
  moreover have "length (drop 1 (dropWhile P b)) \<le> length b" for P :: "char \<Rightarrow> bool"
    using length_dropWhile_le [of P b] by simp
  ultimately show "length r < length fp"
    using g f fp by (auto simp: getnline_def Let_def simp del: length_drop split: if_splits intro: le_less_trans)
qed

function first_line :: "string \<Rightarrow> string option \<times> string" where
  "first_line fp =
     (case getnline fp 256 of
        (n, line, fp') \<Rightarrow>
          if n < 0 then (None, fp')
          else
            (case line of
               None \<Rightarrow> (None, fp')
             | Some l \<Rightarrow>
                 if l ! 0 \<noteq> newline \<and> l ! 0 \<noteq> CHR '';'' then (Some l, fp') else first_line fp'))"
  by pat_completeness auto
termination
  by (relation "measure length") (auto dest: getnline_shorter [OF sym])

declare first_line.simps [simp del]

text \<open>The second answer; the line that is no header has been read.\<close>

definition read_pushanswer :: "string \<Rightarrow> gamesetup \<Rightarrow> (gamesetup \<times> string) option" where
  "read_pushanswer fp g =
     (let single = g\<lparr>pushanswer := copymovelist (pushanswer g) (moveanswer g),
            pushbestcount := movebestpushcount g, pushbestmovecount := movebestcount g\<rparr> in
      (case getnline fp 256 of
         (n, line, fp) \<Rightarrow>
           (case line of
              None \<Rightarrow> Some (single, fp)
            | Some l \<Rightarrow>
                if n \<le> 0 then Some (single, fp)
                else
                  (case scan_header (cstring l) of
                     BadHeader \<Rightarrow> Some (single, fp)
                   | HeaderOverflow \<Rightarrow> None
                   | Header n m \<Rightarrow>
                       do {
                         (r, a, fp) \<leftarrow> readanswer fp (pushanswer g) n;
                         let g = g\<lparr>pushanswer := a\<rparr>;
                         Some (if r then g\<lparr>pushbestcount := m, pushbestmovecount := n\<rparr>
                               else g\<lparr>pushanswer := copymovelist (pushanswer g) (moveanswer g),
                                      pushbestcount := movebestpushcount g, pushbestmovecount := movebestcount g\<rparr>,
                               fp)
                       }))))"

definition readanswers :: "string option \<Rightarrow> gamesetup \<Rightarrow> (bool \<times> gamesetup \<times> string option) option" where
  "readanswers file g =
     (let g = g\<lparr>moveanswer := initmovelist (moveanswer g), pushanswer := initmovelist (pushanswer g)\<rparr> in
      (case file of
         None \<Rightarrow> Some (True, g, None)
       | Some fp \<Rightarrow>
           (case first_line fp of
              (None, fp) \<Rightarrow> Some (False, g, Some fp)
            | (Some l, fp) \<Rightarrow>
                if l ! 0 = CHR ''-'' then Some (True, g, Some fp)
                else
                  (case scan_header (cstring l) of
                     BadHeader \<Rightarrow> Some (False, g\<lparr>movebestcount := 0, movebestpushcount := 0\<rparr>, Some fp)
                   | HeaderOverflow \<Rightarrow> None
                   | Header n m \<Rightarrow>
                       do {
                         (r, a, fp) \<leftarrow> readanswer fp (moveanswer g) n;
                         let g = g\<lparr>moveanswer := a\<rparr>;
                         if r then
                           do {
                             (g, fp) \<leftarrow> read_pushanswer fp (g\<lparr>movebestcount := n, movebestpushcount := m\<rparr>);
                             Some (True, g, Some fp)
                           }
                         else Some (False, g\<lparr>movebestcount := 0, movebestpushcount := 0\<rparr>, Some fp)
                       }))))"

subsection \<open>Writing\<close>

definition level_line :: "nat \<Rightarrow> string" where
  "level_line i = '';Level '' @ show_nat (i + 1) @ [newline]"

definition two_answers :: "gamesetup \<Rightarrow> bool" where
  "two_answers g = (pushbestcount g \<noteq> movebestpushcount g \<and> pushbestmovecount g \<noteq> movebestcount g)"

definition save_entry :: "gamesetup \<Rightarrow> string option" where
  "save_entry g =
     (if count (moveanswer g) = 0 then Some (''---'' @ [newline])
      else
        (let head = show_header (int (count (moveanswer g))) (movebestpushcount g) in
         if movebestcount g = 0 then do { a \<leftarrow> saveanswer (moveanswer g) True; Some (head @ a) }
         else
           do {
             a \<leftarrow> saveanswer (moveanswer g) False;
             (if two_answers g then
                do {
                  b \<leftarrow> saveanswer (pushanswer g) False;
                  Some (head @ a @ show_header (int (count (pushanswer g))) (pushbestcount g) @ b)
                }
              else Some (head @ a))
           }))"

fun save_entries :: "nat \<Rightarrow> gamesetup list \<Rightarrow> string option" where
  "save_entries i [] = Some []"
| "save_entries i (g # games) =
     do { e \<leftarrow> save_entry g; es \<leftarrow> save_entries (Suc i) games; Some (level_line i @ e @ es) }"

record gameseries =
  games :: "gamesetup list"
  mapfp :: "string option"
  answerfp :: "(string \<times> nat) option"
  allmapsread :: bool
  allanswersread :: bool
  answersreadonly :: bool

text \<open>The variables of \<open>answers.c\<close>: whether \<open>savedir\<close> is not empty, and \<open>savedirchecked\<close>.\<close>

record savedirs =
  savedir :: bool
  savedirchecked :: bool

text \<open>
  \<open>can_dir\<close> and \<open>can_open\<close> are the results of \<open>finddir\<close> and of opening the file for writing, which
  empties it. What is written over a longer file leaves its end in place.
\<close>

definition saveanswers :: "bool \<Rightarrow> bool \<Rightarrow> savedirs \<Rightarrow> gameseries \<Rightarrow> (bool \<times> savedirs \<times> gameseries) option" where
  "saveanswers can_dir can_open d series =
     (if \<not> savedir d then Some (True, d, series)
      else
        (let tbuf = (case answerfp series of
                       Some (content, pos) \<Rightarrow> if allanswersread series then [] else drop pos content
                     | None \<Rightarrow> []);
             reopen = (answerfp series = None \<or> answersreadonly series) in
         if reopen \<and> \<not> savedirchecked d \<and> \<not> can_dir then Some (False, d\<lparr>savedirchecked := True\<rparr>, series)
         else
           (let d = (if reopen then d\<lparr>savedirchecked := True\<rparr> else d);
                series = (if answerfp series = None then series\<lparr>allanswersread := True\<rparr> else series) in
            if reopen \<and> \<not> can_open then Some (False, d\<lparr>savedir := False\<rparr>, series\<lparr>answerfp := None\<rparr>)
            else
              do {
                text \<leftarrow> save_entries 0 (games series);
                let old = (if reopen then [] else (case answerfp series of Some (content, pos) \<Rightarrow> content | None \<Rightarrow> []));
                let sep = (if tbuf \<noteq> [] \<and> hd tbuf \<noteq> CHR '';'' \<and> hd tbuf \<noteq> newline
                           then level_line (length (games series)) else []);
                let new = text @ (if tbuf \<noteq> [] then sep @ tbuf else []);
                Some (True, d, series\<lparr>answerfp := Some (new @ drop (length new) old, length text)\<rparr>)
              })))"

subsection \<open>Reading a series\<close>

text \<open>
  A slot of the table of puzzles that was allocated and zeroed, and one turn of the loop of
  \<open>readlevelinseries\<close>. \<open>Undefined\<close> from \<open>readlevelmap\<close> is \<open>None\<close>.
\<close>

definition empty_setup :: gamesetup where
  "empty_setup = \<lparr>boxcount = 0, goalcount = 0, g_storecount = 0, start = 0, movebestcount = 0, pushbestcount = 0,
     movebestpushcount = 0, pushbestmovecount = 0, moveanswer = \<lparr>allocated = 0, count = 0, arr = []\<rparr>,
     pushanswer = \<lparr>allocated = 0, count = 0, arr = []\<rparr>, g_map = replicate 1024 0\<rparr>"

definition read_next :: "buf \<Rightarrow> gameseries \<Rightarrow> gameseries option" where
  "read_next buf series =
     (case mapfp series of
        None \<Rightarrow> None
      | Some fp \<Rightarrow>
          do {
            (series, fp) \<leftarrow>
              (case readlevelmap fp buf empty_setup of
                 (Undefined, fp) \<Rightarrow> None
               | (Rejected, fp) \<Rightarrow> Some (series, fp)
               | (Level name y x g, fp) \<Rightarrow>
                   if allanswersread series then Some (series\<lparr>games := games series @ [g]\<rparr>, fp)
                   else
                     do {
                       (r, g, rest) \<leftarrow> readanswers (map_option (\<lambda>(content, pos). drop pos content) (answerfp series)) g;
                       Some (series\<lparr>games := games series @ [g],
                         answerfp := (case (answerfp series, rest) of
                            (Some (content, pos), Some rest) \<Rightarrow> Some (content, length content - length rest)
                          | _ \<Rightarrow> None)\<rparr>, fp)
                     });
            let series = (if fp = [] then series\<lparr>mapfp := None, allmapsread := True\<rparr> else series\<lparr>mapfp := Some fp\<rparr>);
            Some (case answerfp series of
                    Some (content, pos) \<Rightarrow> if length content \<le> pos then series\<lparr>allanswersread := True\<rparr> else series
                  | None \<Rightarrow> series)
          })"

partial_function (option) read_up_to :: "buf \<Rightarrow> nat \<Rightarrow> gameseries \<Rightarrow> gameseries option" where
  "read_up_to buf level series =
     (if allmapsread series \<or> level < length (games series) then Some series
      else do { series \<leftarrow> read_next buf series; read_up_to buf level series })"

text \<open>\<open>readseriesheader\<close>: the name and the rest of the file. A title of blanks makes the code read in front of \<open>name\<close>.\<close>

datatype series_header = NoMaps | Maps "string option" string | BadTitle

definition series_title :: "string \<Rightarrow> string option" where
  "series_title l =
     (let s = take 63 (dropWhile isspace (tl (cstring l))) in
      if s = [] then None else Some (rev (dropWhile isspace (rev s))))"

function readseriesheader :: "string \<Rightarrow> series_header" where
  "readseriesheader [] = NoMaps"
| "readseriesheader (ch # fp) =
     (if ch = CHR '';'' then
        (case getnline fp 256 of
           (n, line, rest) \<Rightarrow>
             (case line of
                None \<Rightarrow> NoMaps
              | Some l \<Rightarrow>
                  if l ! 0 = CHR '';'' then
                    (case series_title l of None \<Rightarrow> BadTitle | Some t \<Rightarrow> Maps (Some t) rest)
                  else readseriesheader rest))
      else if ch = newline then readseriesheader fp
      else Maps None (ch # fp))"
  by pat_completeness auto
termination
  by (relation "measure length") (auto dest!: getnline_length [OF sym])

text \<open>
  \<open>map_file\<close> and \<open>answer_file\<close> are the contents of the files that \<open>openfileindir\<close> finds. The result says whether the
  level exists.
\<close>

definition open_series :: "string option \<Rightarrow> string option \<Rightarrow> savedirs \<times> gameseries \<Rightarrow> (bool \<times> savedirs \<times> gameseries) option" where
  "open_series map_file answer_file ds =
     (case ds of (d, series) \<Rightarrow>
        (case map_file of
           None \<Rightarrow> Some (False, d, series)
         | Some f \<Rightarrow>
             (case readseriesheader f of
                BadTitle \<Rightarrow> None
              | NoMaps \<Rightarrow> Some (False, d, series\<lparr>mapfp := None, allmapsread := True\<rparr>)
              | Maps name fp \<Rightarrow>
                  (let series = series\<lparr>mapfp := Some fp\<rparr> in
                   if savedir d then
                     (case answer_file of
                        None \<Rightarrow> Some (True, d, series\<lparr>answerfp := None\<rparr>)
                      | Some c \<Rightarrow> Some (True, d\<lparr>savedirchecked := True\<rparr>,
                          series\<lparr>answerfp := Some (c, 0), answersreadonly := True\<rparr>))
                   else Some (True, d, series\<lparr>answerfp := None\<rparr>)))))"

definition readlevelinseries ::
    "string option \<Rightarrow> string option \<Rightarrow> buf \<Rightarrow> int \<Rightarrow> savedirs \<times> gameseries \<Rightarrow> (bool \<times> savedirs \<times> gameseries) option" where
  "readlevelinseries map_file answer_file buf level ds =
     (let count = int (length (games (snd ds))) in
      if level < 0 then Some (False, ds)
      else if level < count then Some (True, ds)
      else if allmapsread (snd ds) then Some (False, ds)
      else
        do {
          (ok, d, series) \<leftarrow>
            (if mapfp (snd ds) = None then open_series map_file answer_file ds else Some (True, ds));
          if \<not> ok then Some (False, d, series)
          else
            do {
              series \<leftarrow> read_up_to buf (nat level) series;
              Some (level < int (length (games series)), d, series)
            }
        })"

declare first_line.simps [code] read_up_to.simps [code] show_nat.simps [code]

section \<open>Numbers\<close>










section \<open>Lines\<close>













section \<open>Entries\<close>
















section \<open>The file of a series\<close>







section \<open>Properties\<close>



definition one_step :: "dyx movelist" where
  "one_step = \<lparr>allocated = 1, count = 1, arr = [Some \<lparr>yx = 1, box = True\<rparr>]\<rparr>"

definition solved_setup :: "int \<Rightarrow> gamesetup" where
  "solved_setup m = empty_setup\<lparr>movebestcount := 1, movebestpushcount := m, pushbestcount := m, pushbestmovecount := 1,
     moveanswer := one_step, pushanswer := one_step\<rparr>"

definition small_series :: "gamesetup list \<Rightarrow> string \<Rightarrow> bool \<Rightarrow> gameseries" where
  "small_series gl old ro = \<lparr>games = gl, mapfp = None, answerfp = Some (old, 0), allmapsread = True,
     allanswersread = \<not> ro, answersreadonly = ro\<rparr>"


text \<open>
  A file that was created in the same session is written from its start and not cut. When two solutions are
  replaced by one that is better in both ways, the old second one stays behind it, and the next session reads it:
  the puzzle whose solution has 1 push is read with a best count of 2.
\<close>

definition old_answers :: string where
  "old_answers = level_line 0 @ show_header 1 3 @ ''L'' @ [newline] @ show_header 2 2 @ ''LL'' @ [newline]"

theorem stale_answer_is_read:
  "do {
     (r, d, s) \<leftarrow> saveanswers True True \<lparr>savedir = True, savedirchecked = True\<rparr>
       (small_series [solved_setup 1] old_answers False);
     (r, h, fp) \<leftarrow> readanswers (map_option fst (answerfp s)) empty_setup;
     Some (pushbestcount h)
   } = Some 2"
  by code_simp

end
