(* ===== verification/Sudoku.thy ===== *)
theory Sudoku
  imports SokobanAnswers
begin

text \<open>
  The Sudoku solver of \<open>games/sudoku\<close> (\<open>sudoku.c\<close>). The table is a list of nine rows; the static variables are a
  record. Drawing and sleeping are left out. What lies behind the table in memory is the parameter \<open>beyond\<close>:
  \<open>None\<close> stops the program that reads it. The streams of \<open>SokobanLevels\<close> serve for the puzzle file.
\<close>

section \<open>Definitions\<close>

type_synonym table = "nat list list"

definition cell_at :: "table \<Rightarrow> nat \<Rightarrow> nat \<Rightarrow> nat" where
  "cell_at t y x = t ! y ! x"

definition put_at :: "table \<Rightarrow> nat \<Rightarrow> nat \<Rightarrow> nat \<Rightarrow> table" where
  "put_at t y x v = t[y := (t ! y)[x := v]]"

record solver =
  sudoku :: table
  sudoku_copy :: table
  guess_y :: nat
  guess_x :: nat
  guess_number :: nat

text \<open>The loops over the block of a field, and over all fields.\<close>

definition block :: "nat \<Rightarrow> nat \<Rightarrow> (nat \<times> nat) list" where
  "block y x = List.product [(y div 3) * 3..<(y div 3 + 1) * 3] [(x div 3) * 3..<(x div 3 + 1) * 3]"

definition squares :: "(nat \<times> nat) list" where
  "squares = List.product [0..<9] [0..<9]"

subsection \<open>Guessing\<close>

definition guess_is_not_possible :: "table \<Rightarrow> nat \<Rightarrow> nat \<Rightarrow> nat \<Rightarrow> bool" where
  "guess_is_not_possible t y x k =
     (list_ex (\<lambda>(ny, nx). cell_at t ny nx = k) (block y x) \<or>
      list_ex (\<lambda>nx. cell_at t y nx = k) [0..<9] \<or>
      list_ex (\<lambda>ny. cell_at t ny x = k) [0..<9])"

text \<open>The read of a field at the position of the guess, which can be behind the last row.\<close>

definition guess_cell :: "nat option \<Rightarrow> table \<Rightarrow> nat \<Rightarrow> nat \<Rightarrow> nat option" where
  "guess_cell beyond t y x =
     (if y < 9 \<and> x < 9 then Some (cell_at t y x) else if y = 9 \<and> x = 0 then beyond else None)"

definition next_field :: "nat \<Rightarrow> nat \<Rightarrow> nat \<times> nat" where
  "next_field y x = (if x + 1 = 9 then (y + 1, 0) else (y, x + 1))"

text \<open>The initial empty spot; \<open>None\<close> when the table is exhausted.\<close>

function first_empty :: "table \<Rightarrow> nat \<Rightarrow> nat \<Rightarrow> (nat \<times> nat) option" where
  "first_empty t y x =
     (case guess_cell None t y x of
        None \<Rightarrow> None
      | Some v \<Rightarrow>
          if 0 < v then (case next_field y x of (y, x) \<Rightarrow> if y = 9 \<and> x = 0 then None else first_empty t y x)
          else Some (y, x))"
  by pat_completeness auto
termination
  by (relation "measure (\<lambda>(t, y, x). 81 - (9 * y + x))")
    (auto simp: guess_cell_def next_field_def split: if_splits)

text \<open>The \<open>do ... while\<close> loop that looks for the next empty field; its test reads the field first.\<close>

function next_empty :: "nat option \<Rightarrow> table \<Rightarrow> nat \<Rightarrow> nat \<Rightarrow> (nat \<times> nat) option" where
  "next_empty beyond t y x =
     (case next_field y x of
        (y, x) \<Rightarrow>
          (case guess_cell beyond t y x of
             None \<Rightarrow> None
           | Some v \<Rightarrow> if 0 < v \<and> y < 9 then next_empty beyond t y x else Some (y, x)))"
  by pat_completeness auto
termination
  by (relation "measure (\<lambda>(b, t, y, x). 81 - (9 * y + x))")
    (auto simp: guess_cell_def next_field_def split: if_splits)

declare first_empty.simps [simp del] next_empty.simps [simp del]

lemma next_empty_later:
  "next_empty b t y x = Some (y', x') \<Longrightarrow> y' \<noteq> 9 \<Longrightarrow> 9 * y + x < 9 * y' + x' \<and> y' < 9 \<and> x' < 9"
proof (induction b t y x rule: next_empty.induct)
  case (1 b t y x)
  obtain v w where f: "next_field y x = (v, w)" by fastforce
  have lt: "9 * y + x < 9 * v + w" using f by (auto simp: next_field_def split: if_splits)
  have "next_empty b t y x = (case guess_cell b t v w of None \<Rightarrow> None
      | Some c \<Rightarrow> if 0 < c \<and> v < 9 then next_empty b t v w else Some (v, w))"
    by (subst next_empty.simps) (simp add: f)
  with 1(2) obtain c where c: "guess_cell b t v w = Some c"
    "(if 0 < c \<and> v < 9 then next_empty b t v w else Some (v, w)) = Some (y', x')"
    by (auto split: option.splits)
  show ?case
  proof (cases "0 < c \<and> v < 9")
    case True
    then show ?thesis using 1(1) [OF f [symmetric] c(1) True] c(2) 1(3) lt by simp
  next
    case False
    then show ?thesis using c 1(3) lt by (auto simp: guess_cell_def split: if_splits)
  qed
qed

text \<open>
  The numbers behind \<open>n\<close> at the position, then all numbers at the empty fields behind it. The result is whether there is
  a guess, and the position and number that the variables hold then.
\<close>

function next_guess :: "nat option \<Rightarrow> table \<Rightarrow> nat \<Rightarrow> nat \<Rightarrow> nat \<Rightarrow> (bool \<times> nat \<times> nat \<times> nat) option" where
  "next_guess beyond t y x n =
     (case find (\<lambda>k. \<not> guess_is_not_possible t y x k) [n + 1..<10] of
        Some k \<Rightarrow> Some (True, y, x, k)
      | None \<Rightarrow>
          (case next_empty beyond t y x of
             None \<Rightarrow> None
           | Some (y, x) \<Rightarrow> if y = 9 then Some (False, y, x, 1) else next_guess beyond t y x 0))"
  by pat_completeness auto
termination
  by (relation "measure (\<lambda>(b, t, y, x, n). 81 - (9 * y + x))") (auto dest: next_empty_later)

declare next_guess.simps [simp del]

definition apply_next_guess :: "nat option \<Rightarrow> solver \<Rightarrow> (bool \<times> solver) option" where
  "apply_next_guess beyond s =
     (let t = sudoku_copy s; s = s\<lparr>sudoku := t\<rparr> in
      (case (if guess_number s = 0 then first_empty t (guess_y s) (guess_x s) else Some (guess_y s, guess_x s)) of
         None \<Rightarrow> Some (False, s\<lparr>guess_y := 9, guess_x := 0\<rparr>)
       | Some (y, x) \<Rightarrow>
           do {
             (found, y, x, k) \<leftarrow> next_guess beyond t y x (guess_number s);
             let s = s\<lparr>guess_y := y, guess_x := x, guess_number := k\<rparr>;
             Some (if found then (True, s\<lparr>sudoku := put_at t y x k\<rparr>) else (False, s))
           }))"

subsection \<open>Deduction\<close>

definition is_blocked_horizontally :: "table \<Rightarrow> nat \<Rightarrow> nat \<Rightarrow> bool" where
  "is_blocked_horizontally t target y = list_ex (\<lambda>i. cell_at t y i = target) [0..<9]"

definition is_blocked_vertically :: "table \<Rightarrow> nat \<Rightarrow> nat \<Rightarrow> bool" where
  "is_blocked_vertically t target x = list_ex (\<lambda>i. cell_at t i x = target) [0..<9]"

fun others_blocked :: "table \<Rightarrow> nat \<Rightarrow> nat \<Rightarrow> nat \<Rightarrow> nat \<Rightarrow> (nat \<times> nat) list \<Rightarrow> bool" where
  "others_blocked t target y x skipped [] = (skipped \<noteq> 9)"
| "others_blocked t target y x skipped ((ny, nx) # rest) =
     (if 0 < cell_at t ny nx then others_blocked t target y x (skipped + 1) rest
      else if ny = y \<and> nx = x then others_blocked t target y x (skipped + 1) rest
      else if ny \<noteq> y \<and> is_blocked_horizontally t target ny then others_blocked t target y x skipped rest
      else if nx \<noteq> x \<and> is_blocked_vertically t target nx then others_blocked t target y x skipped rest
      else False)"

definition is_blocked_elsewhere :: "table \<Rightarrow> nat \<Rightarrow> nat \<Rightarrow> nat \<Rightarrow> bool" where
  "is_blocked_elsewhere t target y x =
     (if list_ex (\<lambda>(ny, nx). cell_at t ny nx = target) (block y x) then False
      else others_blocked t target y x 0 (block y x))"

definition algorithm_2_field :: "nat \<times> nat \<Rightarrow> table \<times> nat \<Rightarrow> table \<times> nat" where
  "algorithm_2_field p r =
     (case (p, r) of
        ((y, x), t, found) \<Rightarrow>
          if 0 < cell_at t y x then (t, found)
          else
            (case find (\<lambda>i. is_blocked_elsewhere t i y x) [1..<10] of
               Some i \<Rightarrow> (put_at t y x i, found + 1)
             | None \<Rightarrow> (t, found)))"

definition solve_sudoku_algorithm_2 :: "table \<Rightarrow> table \<times> nat" where
  "solve_sudoku_algorithm_2 t = fold algorithm_2_field squares (t, 0)"

text \<open>\<open>possible\<close> loses the number of a field that is filled.\<close>

definition strike :: "nat \<Rightarrow> bool list \<Rightarrow> bool list" where
  "strike v possible = (if v = 0 then possible else possible[v - 1 := False])"

definition possible_at :: "table \<Rightarrow> nat \<Rightarrow> nat \<Rightarrow> bool list" where
  "possible_at t y x =
     fold (\<lambda>(ny, nx). strike (cell_at t ny nx)) (block y x)
       (fold (\<lambda>ny. strike (cell_at t ny x)) [0..<9]
         (fold (\<lambda>nx. strike (cell_at t y nx)) [0..<9] (replicate 9 True)))"

definition find_only_solution :: "table \<Rightarrow> nat \<Rightarrow> nat \<Rightarrow> int" where
  "find_only_solution t y x =
     (if cell_at t y x \<noteq> 0 then - 1
      else
        (let possible = possible_at t y x;
             solution = fold (\<lambda>i s. if possible ! i then (if s = - 1 then int i + 1 else 0) else s) [0..<9] (- 1)
         in if solution = - 1 then - 2 else solution))"

definition table_full :: "table \<Rightarrow> bool" where
  "table_full t = list_all (\<lambda>(y, x). cell_at t y x \<noteq> 0) squares"

definition algorithm_1_field :: "nat \<times> nat \<Rightarrow> table \<times> nat \<Rightarrow> table \<times> nat" where
  "algorithm_1_field p r =
     (case (p, r) of
        ((y, x), t, found) \<Rightarrow>
          if 0 < cell_at t y x then (t, found)
          else
            (let solution = find_only_solution t y x in
             if 0 < solution then (put_at t y x (nat solution), found + 1) else (t, found)))"

partial_function (option) solve_sudoku_algorithm_1 :: "table \<Rightarrow> (int \<times> table) option" where
  "solve_sudoku_algorithm_1 t =
     (case fold algorithm_1_field squares (t, 0) of
        (t, found) \<Rightarrow>
          if table_full t then Some (0, t)
          else if 0 < found then solve_sudoku_algorithm_1 t
          else Some (- 1, t))"

subsection \<open>The solver\<close>

datatype solve_state = TRY_ALGO_1 | TRY_ALGO_2 | TRY_NEXT_GUESS | TABLE_COPY | TABLE_DONE | TABLE_FAILED

text \<open>One turn of the loop of \<open>solve_sudoku\<close> in a state that does not end it, with \<open>sudoku_copied\<close>.\<close>

definition solve_step :: "nat option \<Rightarrow> solve_state \<times> bool \<times> solver \<Rightarrow> (solve_state \<times> bool \<times> solver) option" where
  "solve_step beyond r =
     (case r of
        (TRY_ALGO_1, copied, s) \<Rightarrow>
          do {
            (k, t) \<leftarrow> solve_sudoku_algorithm_1 (sudoku s);
            Some (if k = 0 then TABLE_DONE else TRY_ALGO_2, copied, s\<lparr>sudoku := t\<rparr>)
          }
      | (TRY_ALGO_2, copied, s) \<Rightarrow>
          (case solve_sudoku_algorithm_2 (sudoku s) of
             (t, found) \<Rightarrow>
               Some (if 0 < found then TRY_ALGO_1 else if copied then TRY_NEXT_GUESS else TABLE_COPY,
                 copied, s\<lparr>sudoku := t\<rparr>))
      | (TABLE_COPY, copied, s) \<Rightarrow> Some (TRY_NEXT_GUESS, True, s\<lparr>sudoku_copy := sudoku s\<rparr>)
      | (TRY_NEXT_GUESS, copied, s) \<Rightarrow>
          do {
            (found, s) \<leftarrow> apply_next_guess beyond s;
            Some (if found then TRY_ALGO_1 else TABLE_FAILED, copied, s)
          }
      | r \<Rightarrow> Some r)"

partial_function (option) solve_loop :: "nat option \<Rightarrow> solve_state \<times> bool \<times> solver \<Rightarrow> (int \<times> solver) option" where
  "solve_loop beyond r =
     (case r of
        (TABLE_DONE, copied, s) \<Rightarrow> Some (0, s)
      | (TABLE_FAILED, copied, s) \<Rightarrow> Some (1, if copied then s\<lparr>sudoku := sudoku_copy s\<rparr> else s)
      | _ \<Rightarrow> do { r \<leftarrow> solve_step beyond r; solve_loop beyond r })"

definition solve_sudoku :: "nat option \<Rightarrow> solver \<Rightarrow> (int \<times> solver) option" where
  "solve_sudoku beyond s =
     solve_loop beyond (TRY_ALGO_1, False, s\<lparr>guess_y := 0, guess_x := 0, guess_number := 0\<rparr>)"

subsection \<open>The program\<close>

text \<open>
  \<open>read_from_file\<close>. The row number \<open>n\<close> is a variable without an initial value and so a parameter. \<open>%1d\<close> skips white space and
  takes one digit; what was converted is stored even when the line is not complete.
\<close>

fun scan_digits :: "nat \<Rightarrow> string \<Rightarrow> nat list" where
  "scan_digits 0 s = []"
| "scan_digits (Suc k) s =
     (case dropWhile isspace s of
        [] \<Rightarrow> []
      | c # s \<Rightarrow> if isdigit c then (of_char c - 48) # scan_digits k s else [])"

definition store_row :: "table \<Rightarrow> nat \<Rightarrow> nat list \<Rightarrow> table" where
  "store_row t y ds = fold (\<lambda>(x, v) t. put_at t y x v) (enumerate 0 ds) t"

lemma fgets_line_shorter: "fgets 31 s = (line, rest) \<Longrightarrow> s \<noteq> [] \<Longrightarrow> length rest < length s"
  using fgets_shorter [of 30] by (cases s) auto

function read_lines :: "int \<Rightarrow> string \<Rightarrow> table \<Rightarrow> table option" where
  "read_lines n s t =
     (if s = [] then Some t
      else
        (case fgets 31 s of
           (line, s) \<Rightarrow>
             let ds = scan_digits 9 (cstring line) in
             if ds \<noteq> [] \<and> \<not> (0 \<le> n \<and> n < 9) then None
             else
               (let t = store_row t (nat n) ds in
                if length ds = 9 then (if n + 1 = 9 then Some t else read_lines (n + 1) s t)
                else read_lines n s t)))"
  by pat_completeness auto
termination
  by (relation "measure (\<lambda>(n, s, t). length s)") (auto dest: fgets_line_shorter [OF sym])

declare read_lines.simps [simp del]

definition read_from_file :: "int \<Rightarrow> string option \<Rightarrow> table \<Rightarrow> (int \<times> table) option" where
  "read_from_file n file t =
     (case file of
        None \<Rightarrow> Some (1, t)
      | Some s \<Rightarrow> do { t \<leftarrow> read_lines n s t; Some (0, t) })"

datatype key = KEY_LEFT | KEY_RIGHT | KEY_UP | KEY_DOWN | KEY_ENTER | KEY_CHAR char

record session =
  puzzle :: solver
  current_y :: nat
  current_x :: nat
  current_status :: "string option"
  finished :: bool

definition enter :: "nat option \<Rightarrow> session \<Rightarrow> session option" where
  "enter beyond g =
     do {
       (r, s) \<leftarrow> solve_sudoku beyond (puzzle g);
       Some (g\<lparr>puzzle := s, current_status :=
         Some (if r \<noteq> 0 then ''Unable to solve, enter more numbers.'' else ''Solved!'')\<rparr>)
     }"

definition put_number :: "nat \<Rightarrow> session \<Rightarrow> session" where
  "put_number v g = g\<lparr>puzzle := (puzzle g)\<lparr>sudoku := put_at (sudoku (puzzle g)) (current_y g) (current_x g) v\<rparr>\<rparr>"

text \<open>The \<open>switch\<close> of \<open>main\<close>.\<close>

definition press :: "nat option \<Rightarrow> key \<Rightarrow> session \<Rightarrow> session option" where
  "press beyond k g =
     (case k of
        KEY_LEFT \<Rightarrow> Some (g\<lparr>current_x := (if current_x g = 0 then 0 else current_x g - 1)\<rparr>)
      | KEY_RIGHT \<Rightarrow> Some (g\<lparr>current_x := (if 9 \<le> current_x g + 1 then 8 else current_x g + 1)\<rparr>)
      | KEY_UP \<Rightarrow> Some (g\<lparr>current_y := (if current_y g = 0 then 0 else current_y g - 1)\<rparr>)
      | KEY_DOWN \<Rightarrow> Some (g\<lparr>current_y := (if 9 \<le> current_y g + 1 then 8 else current_y g + 1)\<rparr>)
      | KEY_ENTER \<Rightarrow> enter beyond g
      | KEY_CHAR c \<Rightarrow>
          if isdigit c then Some (put_number (of_char c - 48) g)
          else if c = CHR '' '' then Some (put_number 0 g)
          else if c = newline then enter beyond g
          else if c = CHR ''q'' \<or> c = CHR ''Q'' \<or> c = CHR 0x1B then Some (g\<lparr>finished := True\<rparr>)
          else Some g)"

definition empty_table :: table where
  "empty_table = replicate 9 (replicate 9 0)"

definition start_with :: "table \<Rightarrow> session" where
  "start_with t = \<lparr>puzzle = \<lparr>sudoku = t, sudoku_copy = empty_table, guess_y = 0, guess_x = 0, guess_number = 0\<rparr>,
     current_y = 0, current_x = 0, current_status = None, finished = False\<rparr>"

text \<open>The sessions of the program, started without a file or with one that is read from its first row on.\<close>

inductive session_of :: "nat option \<Rightarrow> session \<Rightarrow> bool" for beyond where
  no_file: "session_of beyond (start_with empty_table)"
| with_file: "read_from_file 0 file empty_table = Some (r, t) \<Longrightarrow> session_of beyond (start_with t)"
| pressed: "session_of beyond g \<Longrightarrow> \<not> finished g \<Longrightarrow> press beyond k g = Some g' \<Longrightarrow> session_of beyond g'"

declare solve_sudoku_algorithm_1.simps [code] solve_loop.simps [code] read_lines.simps [code]

section \<open>The rules\<close>

definition wf_table :: "table \<Rightarrow> bool" where
  "wf_table t = (length t = 9 \<and> (\<forall>r \<in> set t. length r = 9 \<and> (\<forall>v \<in> set r. v \<le> 9)))"

definition sees :: "nat \<times> nat \<Rightarrow> nat \<times> nat \<Rightarrow> bool" where
  "sees p q = (p \<noteq> q \<and> (fst p = fst q \<or> snd p = snd q \<or> (fst p div 3 = fst q div 3 \<and> snd p div 3 = snd q div 3)))"

text \<open>No two equal numbers in a row, a column or a block.\<close>

definition consistent :: "table \<Rightarrow> bool" where
  "consistent t = list_all (\<lambda>p. list_all (\<lambda>q. sees p q \<longrightarrow> cell_at t (fst p) (snd p) = 0 \<or>
     cell_at t (fst p) (snd p) \<noteq> cell_at t (fst q) (snd q)) squares) squares"

definition solution :: "table \<Rightarrow> bool" where
  "solution z = (wf_table z \<and> table_full z \<and> consistent z)"

text \<open>\<open>z\<close> has the numbers of \<open>t\<close>, and perhaps more.\<close>

definition extends :: "table \<Rightarrow> table \<Rightarrow> bool" where
  "extends t z = list_all (\<lambda>(y, x). cell_at t y x = 0 \<or> cell_at z y x = cell_at t y x) squares"

definition empties :: "table \<Rightarrow> nat" where
  "empties t = length (filter (\<lambda>(y, x). cell_at t y x = 0) squares)"

section \<open>Lemmas\<close>

lemma set_squares [simp]: "set squares = {(y, x). y < 9 \<and> x < 9}"
  by (auto simp: squares_def)

lemma distinct_squares: "distinct squares"
  by (simp add: squares_def distinct_product)

lemma div_range: "c * 3 \<le> a \<and> a < (c + 1) * 3 \<longleftrightarrow> a div 3 = (c :: nat)"
  by (auto simp: div_nat_eqI less_eq_div_iff_mult_less_eq)

lemma set_block: "set (block y x) = {(a, b). a div 3 = y div 3 \<and> b div 3 = x div 3}"
  unfolding block_def set_product set_upt by (auto simp: div_range [symmetric])

lemma block_field: "y < 9 \<Longrightarrow> a div 3 = y div 3 \<Longrightarrow> a < (9 :: nat)"
  by (auto simp: div_less_iff_less_mult [symmetric, of 3 _ 3, simplified])

lemma consistent_iff: "consistent t \<longleftrightarrow> (\<forall>y < 9. \<forall>x < 9. \<forall>a < 9. \<forall>b < 9. sees (y, x) (a, b) \<longrightarrow>
    cell_at t y x = 0 \<or> cell_at t y x \<noteq> cell_at t a b)"
  by (auto simp: consistent_def list_all_iff)

lemma extends_iff: "extends t z \<longleftrightarrow> (\<forall>y < 9. \<forall>x < 9. cell_at t y x \<noteq> 0 \<longrightarrow> cell_at z y x = cell_at t y x)"
  unfolding extends_def list_all_iff by fastforce

lemma full_iff: "table_full t \<longleftrightarrow> (\<forall>y < 9. \<forall>x < 9. cell_at t y x \<noteq> 0)"
  by (auto simp: table_full_def list_all_iff)

lemma wf_cell: "wf_table t \<Longrightarrow> y < 9 \<Longrightarrow> x < 9 \<Longrightarrow> cell_at t y x \<le> 9"
  using nth_mem [of y t] nth_mem [of x "t ! y"] by (auto simp: wf_table_def cell_at_def simp del: nth_mem)

lemma cell_put: "wf_table t \<Longrightarrow> y < 9 \<Longrightarrow> x < 9 \<Longrightarrow> a < 9 \<Longrightarrow> b < 9 \<Longrightarrow>
    cell_at (put_at t y x v) a b = (if a = y \<and> b = x then v else cell_at t a b)"
  by (auto simp: wf_table_def cell_at_def put_at_def nth_list_update)

lemma wf_put: "wf_table t \<Longrightarrow> y < 9 \<Longrightarrow> v \<le> 9 \<Longrightarrow> wf_table (put_at t y x v)"
  by (auto simp: wf_table_def put_at_def dest!: set_update_subset_insert [THEN subsetD])

lemma empties_put: "wf_table t \<Longrightarrow> y < 9 \<Longrightarrow> x < 9 \<Longrightarrow> cell_at t y x = 0 \<Longrightarrow> 0 < v \<Longrightarrow>
    empties t = Suc (empties (put_at t y x v))"
proof -
  assume a: "wf_table t" "y < 9" "x < 9" "cell_at t y x = 0" "0 < v"
  let ?E = "\<lambda>t. {p \<in> set squares. case p of (y, x) \<Rightarrow> cell_at t y x = 0}"
  have c: "empties s = card (?E s)" for s
    using distinct_card [OF distinct_filter [OF distinct_squares]] by (simp add: empties_def)
  have "?E t = insert (y, x) (?E (put_at t y x v))" "(y, x) \<notin> ?E (put_at t y x v)"
    using a by (auto simp: cell_put split: if_splits)
  moreover have "finite (?E (put_at t y x v))" by (rule finite_subset [OF _ finite_set [of squares]]) auto
  ultimately show ?thesis by (simp add: c)
qed

subsection \<open>Deductions\<close>

text \<open>A deduction adds numbers that every solution of the table has.\<close>

definition deduces :: "table \<Rightarrow> table \<Rightarrow> bool" where
  "deduces t t' = (wf_table t' \<and> extends t t' \<and> (\<forall>z. solution z \<longrightarrow> extends t z \<longrightarrow> extends t' z))"

lemma deduces_refl: "wf_table t \<Longrightarrow> deduces t t"
  by (simp add: deduces_def extends_iff)

lemma extends_trans: "extends s t \<Longrightarrow> extends t u \<Longrightarrow> extends s u"
  by (simp add: extends_iff)

lemma deduces_trans: "deduces s t \<Longrightarrow> deduces t u \<Longrightarrow> deduces s u"
  unfolding deduces_def using extends_trans by blast

lemma extends_put: "wf_table t \<Longrightarrow> y < 9 \<Longrightarrow> x < 9 \<Longrightarrow> cell_at t y x = 0 \<Longrightarrow> extends t (put_at t y x v)"
  by (auto simp: extends_iff cell_put)

lemma put_extends: "wf_table t \<Longrightarrow> y < 9 \<Longrightarrow> x < 9 \<Longrightarrow> extends t z \<Longrightarrow> cell_at z y x = v \<Longrightarrow> extends (put_at t y x v) z"
  by (auto simp: extends_iff cell_put)

lemma deduces_put:
  assumes "wf_table t" "y < 9" "x < 9" "cell_at t y x = 0" "v \<le> 9"
    and "\<And>z. solution z \<Longrightarrow> extends t z \<Longrightarrow> cell_at z y x = v"
  shows "deduces t (put_at t y x v)"
  unfolding deduces_def using assms by (auto intro: wf_put extends_put put_extends)

lemma strike_length [simp]: "length (strike v p) = length p"
  by (simp add: strike_def)

lemma strike_nth: "i < length p \<Longrightarrow> strike v p ! i = (p ! i \<and> v \<noteq> i + 1)"
  by (cases "v = i + 1") (auto simp: strike_def nth_list_update)

lemma fold_strike: "i < length p \<Longrightarrow>
    length (fold (\<lambda>c. strike (f c)) cs p) = length p \<and>
    fold (\<lambda>c. strike (f c)) cs p ! i = (p ! i \<and> (\<forall>c \<in> set cs. f c \<noteq> i + 1))"
  by (induction cs arbitrary: p) (auto simp: strike_nth)

lemma possible_iff: "i < 9 \<Longrightarrow> possible_at t y x ! i \<longleftrightarrow>
    (\<forall>nx < 9. cell_at t y nx \<noteq> i + 1) \<and> (\<forall>ny < 9. cell_at t ny x \<noteq> i + 1) \<and>
    (\<forall>(a, b) \<in> set (block y x). cell_at t a b \<noteq> i + 1)"
proof -
  assume i: "i < 9"
  note f = fold_strike [of i]
  have c: "(\<lambda>(ny, nx). strike (cell_at t ny nx)) = (\<lambda>c. strike (case c of (ny, nx) \<Rightarrow> cell_at t ny nx))"
    by (auto simp: fun_eq_iff)
  show ?thesis unfolding possible_at_def c using i by (auto simp: f)
qed

lemma only_candidate: "fold (\<lambda>i s. if P i then (if s = - 1 then int i + 1 else 0) else s) xs (- 1) =
    (case filter P xs of [] \<Rightarrow> - 1 | [i] \<Rightarrow> int i + 1 | _ \<Rightarrow> 0)"
proof -
  have more: "fold (\<lambda>i s. if P i then (if s = - 1 then int i + 1 else 0) else s) xs k =
      (if filter P xs = [] then k else 0)" if "k \<noteq> - 1" for k xs
    using that by (induction xs arbitrary: k) auto
  show ?thesis by (induction xs) (auto simp: more split: list.splits)
qed

lemma find_only_solution_pos:
  assumes "0 < find_only_solution t y x"
  shows "\<exists>i < 9. find_only_solution t y x = int i + 1 \<and> possible_at t y x ! i \<and> (\<forall>j < 9. possible_at t y x ! j \<longrightarrow> j = i)"
proof -
  let ?xs = "filter ((!) (possible_at t y x)) [0..<9]"
  have f: "find_only_solution t y x = (case ?xs of [] \<Rightarrow> - 2 | [i] \<Rightarrow> int i + 1 | _ \<Rightarrow> 0)"
    using assms unfolding find_only_solution_def only_candidate Let_def by (auto split: list.splits if_splits)
  then obtain i where i: "?xs = [i]" using assms by (auto split: list.splits)
  have "{j. j < 9 \<and> possible_at t y x ! j} = {i}" using arg_cong [OF i, of set] by auto
  then show ?thesis using f i by auto
qed

lemma solution_cell: "solution z \<Longrightarrow> y < 9 \<Longrightarrow> x < 9 \<Longrightarrow> 1 \<le> cell_at z y x \<and> cell_at z y x \<le> 9"
  by (auto simp: solution_def full_iff Suc_le_eq intro: wf_cell)

lemma solution_differs: "solution z \<Longrightarrow> y < 9 \<Longrightarrow> x < 9 \<Longrightarrow> a < 9 \<Longrightarrow> b < 9 \<Longrightarrow> sees (y, x) (a, b) \<Longrightarrow>
    cell_at z y x \<noteq> cell_at z a b"
  using solution_cell [of z y x] unfolding solution_def consistent_iff by (metis not_one_le_zero)

text \<open>A number that \<open>t\<close> has in sight of an empty field is not the number of the field in a solution.\<close>

lemma seen_not:
  "solution z \<Longrightarrow> extends t z \<Longrightarrow> y < 9 \<Longrightarrow> x < 9 \<Longrightarrow> a < 9 \<Longrightarrow> b < 9 \<Longrightarrow> cell_at t y x = 0 \<Longrightarrow>
    cell_at t a b = k \<Longrightarrow> 0 < k \<Longrightarrow> a = y \<or> b = x \<or> (a div 3 = y div 3 \<and> b div 3 = x div 3) \<Longrightarrow> cell_at z y x \<noteq> k"
  using solution_differs [of z y x a b] unfolding extends_iff sees_def by (metis fst_conv snd_conv not_less_zero)

lemma solution_possible:
  assumes "solution z" "extends t z" "y < 9" "x < 9" "cell_at t y x = 0"
  shows "possible_at t y x ! (cell_at z y x - 1)"
proof -
  have c: "1 \<le> cell_at z y x" "cell_at z y x \<le> 9" using solution_cell assms by auto
  have "cell_at t a b \<noteq> cell_at z y x"
    if "a = y \<or> b = x \<or> (a div 3 = y div 3 \<and> b div 3 = x div 3)" "a < 9" "b < 9" for a b
    using seen_not [OF assms(1,2,3,4) that(2,3) assms(5) refl _ that(1)] c by force
  then show ?thesis using c assms(3,4) by (subst possible_iff) (auto simp: set_block intro: block_field)
qed

lemma only_solution:
  assumes "wf_table t" "y < 9" "x < 9" "cell_at t y x = 0" "0 < find_only_solution t y x"
  shows "deduces t (put_at t y x (nat (find_only_solution t y x)))" "0 < nat (find_only_solution t y x)"
    "nat (find_only_solution t y x) \<le> 9"
proof -
  obtain i where i: "i < 9" "find_only_solution t y x = int i + 1"
    "\<forall>j < 9. possible_at t y x ! j \<longrightarrow> j = i" using find_only_solution_pos [OF assms(5)] by blast
  have "cell_at z y x = i + 1" if "solution z" "extends t z" for z
  proof -
    have "cell_at z y x - 1 < 9" "1 \<le> cell_at z y x" using solution_cell [OF that(1) assms(2,3)] by auto
    then show ?thesis using solution_possible [OF that assms(2-4)] i(3) by fastforce
  qed
  moreover have n: "nat (find_only_solution t y x) = i + 1" using i(2) by simp
  ultimately show "deduces t (put_at t y x (nat (find_only_solution t y x)))"
    using deduces_put [OF assms(1-4)] i(1) by simp
  show "0 < nat (find_only_solution t y x)" "nat (find_only_solution t y x) \<le> 9" using n i(1) by simp_all
qed

text \<open>Algorithm 1 keeps to the rules: the number that it writes is not seen from the field.\<close>

lemma consistent_put:
  assumes "wf_table t" "consistent t" "y < 9" "x < 9"
    and "\<And>a b. a < 9 \<Longrightarrow> b < 9 \<Longrightarrow> sees (y, x) (a, b) \<Longrightarrow> cell_at t a b \<noteq> v"
  shows "consistent (put_at t y x v)"
proof -
  have s: "sees (a, b) (y, x) \<longleftrightarrow> sees (y, x) (a, b)" for a b by (auto simp: sees_def)
  show ?thesis unfolding consistent_iff
  proof (intro allI impI)
    fix a b c d :: nat
    assume *: "a < 9" "b < 9" "c < 9" "d < 9" "sees (a, b) (c, d)"
    then have "cell_at t a b = 0 \<or> cell_at t a b \<noteq> cell_at t c d" "(a, b) \<noteq> (c, d)"
      using assms(2) by (auto simp: consistent_iff sees_def)
    then show "cell_at (put_at t y x v) a b = 0 \<or> cell_at (put_at t y x v) a b \<noteq> cell_at (put_at t y x v) c d"
      using * assms(5) [of a b] assms(5) [of c d] s [of a b]
      by (cases "(a, b) = (y, x)"; cases "(c, d) = (y, x)") (auto simp: cell_put [OF assms(1,3,4)])
  qed
qed

lemma only_consistent:
  assumes "wf_table t" "consistent t" "y < 9" "x < 9" "0 < find_only_solution t y x"
  shows "consistent (put_at t y x (nat (find_only_solution t y x)))"
proof -
  obtain i where i: "i < 9" "find_only_solution t y x = int i + 1" "possible_at t y x ! i"
    using find_only_solution_pos [OF assms(5)] by blast
  then have n: "nat (find_only_solution t y x) = i + 1" by simp
  show ?thesis unfolding n using i(3) unfolding possible_iff [OF i(1)]
    by (intro consistent_put assms) (auto simp: sees_def set_block)
qed

text \<open>A block of a solution has every number.\<close>

lemma block_has:
  assumes "solution z" "y < 9" "x < 9" "1 \<le> k" "k \<le> 9"
  shows "\<exists>a < 9. \<exists>b < 9. a div 3 = y div 3 \<and> b div 3 = x div 3 \<and> cell_at z a b = k"
proof -
  let ?f = "\<lambda>(a, b). cell_at z a b"
  have B: "a < 9 \<and> b < 9 \<and> a div 3 = y div 3 \<and> b div 3 = x div 3" if "(a, b) \<in> set (block y x)" for a b
    using that assms(2,3) block_field [of y a] block_field [of x b] by (auto simp: set_block)
  have "inj_on ?f (set (block y x))"
  proof (rule inj_onI, clarify)
    fix a b c d assume *: "(a, b) \<in> set (block y x)" "(c, d) \<in> set (block y x)" "cell_at z a b = cell_at z c d"
    then show "a = c \<and> b = d"
      using solution_differs [OF assms(1), of a b c d] B [OF *(1)] B [OF *(2)] by (auto simp: sees_def)
  qed
  moreover have "card (set (block y x)) = 9"
    by (simp add: block_def card_cartesian_product)
  ultimately have "card (?f ` set (block y x)) = 9" by (simp add: card_image)
  moreover have "?f ` set (block y x) \<subseteq> {1..9}" using solution_cell [OF assms(1)] B by force
  ultimately have "?f ` set (block y x) = {1..9}" by (intro card_subset_eq) simp_all
  then have "k \<in> ?f ` set (block y x)" using assms(4,5) by simp
  then show ?thesis using B by force
qed

lemma others_blocked_cells:
  "others_blocked t k y x n cs \<Longrightarrow> (a, b) \<in> set cs \<Longrightarrow>
    0 < cell_at t a b \<or> (a, b) = (y, x) \<or> (a \<noteq> y \<and> is_blocked_horizontally t k a) \<or>
    (b \<noteq> x \<and> is_blocked_vertically t k b)"
  by (induction t k y x n cs rule: others_blocked.induct) (auto split: if_splits)

lemma blocked_elsewhere:
  assumes "is_blocked_elsewhere t k y x" "y < 9" "x < 9" "cell_at t y x = 0" "1 \<le> k" "k \<le> 9"
    "solution z" "extends t z"
  shows "cell_at z y x = k"
proof -
  obtain a b where ab: "a < 9" "b < 9" "a div 3 = y div 3" "b div 3 = x div 3" "cell_at z a b = k"
    using block_has [OF assms(7,2,3,5,6)] by blast
  have i: "(a, b) \<in> set (block y x)" using ab by (simp add: set_block)
  have n: "cell_at t a b \<noteq> k" "others_blocked t k y x 0 (block y x)"
    using assms(1) i by (auto simp: is_blocked_elsewhere_def list_ex_iff split: if_splits)
  then have e: "cell_at t a b = 0" using assms(8) ab unfolding extends_iff by metis
  have "\<not> is_blocked_horizontally t k a"
    using seen_not [OF assms(7,8) ab(1,2) ab(1) _ e] ab(5) assms(5)
    by (fastforce simp: is_blocked_horizontally_def list_ex_iff)
  moreover have "\<not> is_blocked_vertically t k b"
    using seen_not [OF assms(7,8) ab(1,2) _ ab(2) e] ab(5) assms(5)
    by (fastforce simp: is_blocked_vertically_def list_ex_iff)
  ultimately have "(a, b) = (y, x)" using others_blocked_cells [OF n(2) i] e by auto
  then show ?thesis using ab(5) by simp
qed

text \<open>One field of either algorithm, and all of them: a field that is filled is counted.\<close>

definition progress :: "table \<times> nat \<Rightarrow> table \<times> nat \<Rightarrow> bool" where
  "progress r r' = (deduces (fst r) (fst r') \<and> empties (fst r') + snd r' = empties (fst r) + snd r \<and>
     (snd r' = snd r \<longrightarrow> fst r' = fst r) \<and> snd r \<le> snd r')"

lemma progress_refl: "wf_table t \<Longrightarrow> progress (t, n) (t, n)"
  by (simp add: progress_def deduces_refl)

lemma progress_trans: "progress p q \<Longrightarrow> progress q r \<Longrightarrow> progress p r"
  unfolding progress_def using deduces_trans by auto

lemma progress_put: "wf_table t \<Longrightarrow> y < 9 \<Longrightarrow> x < 9 \<Longrightarrow> cell_at t y x = 0 \<Longrightarrow> 0 < v \<Longrightarrow>
    deduces t (put_at t y x v) \<Longrightarrow> progress (t, n) (put_at t y x v, Suc n)"
  using empties_put [of t y x v] by (simp add: progress_def)

lemma field_1: "wf_table t \<Longrightarrow> p \<in> set squares \<Longrightarrow> progress (t, n) (algorithm_1_field p (t, n))"
  by (cases p) (auto simp: algorithm_1_field_def Let_def progress_refl intro!: progress_put only_solution)

lemma field_2: "wf_table t \<Longrightarrow> p \<in> set squares \<Longrightarrow> progress (t, n) (algorithm_2_field p (t, n))"
proof (cases p)
  case (Pair y x)
  assume a: "wf_table t" "p \<in> set squares"
  show ?thesis
  proof (cases "find (\<lambda>i. is_blocked_elsewhere t i y x) [1..<10]")
    case None
    then show ?thesis using a by (simp add: algorithm_2_field_def Pair progress_refl)
  next
    case (Some i)
    then have i: "is_blocked_elsewhere t i y x" "1 \<le> i" "i \<le> 9" by (auto simp: find_Some_iff)
    show ?thesis
    proof (cases "cell_at t y x = 0")
      case True
      then have "deduces t (put_at t y x i)"
        using a i Pair by (intro deduces_put) (simp_all add: blocked_elsewhere)
      then have "progress (t, n) (put_at t y x i, Suc n)" using a i Pair True by (intro progress_put) simp_all
      then show ?thesis using True Some by (simp add: algorithm_2_field_def Pair)
    qed (use a in \<open>simp add: algorithm_2_field_def Pair progress_refl\<close>)
  qed
qed

lemma progress_fold:
  assumes "\<And>t n p. wf_table t \<Longrightarrow> p \<in> set ps \<Longrightarrow> progress (t, n) (f p (t, n))" "wf_table t"
  shows "progress (t, n) (fold f ps (t, n))"
  using assms
proof (induction ps arbitrary: t n)
  case Nil
  then show ?case by (simp add: progress_refl)
next
  case (Cons p ps)
  obtain u m where u: "f p (t, n) = (u, m)" by fastforce
  have p: "progress (t, n) (u, m)" using Cons.prems u by (metis list.set_intros(1))
  then have "wf_table u" by (simp add: progress_def deduces_def)
  then have "progress (u, m) (fold f ps (u, m))" using Cons by auto
  then show ?case using progress_trans [OF p] u by simp
qed

lemma sweep_1: "wf_table t \<Longrightarrow> progress (t, 0) (fold algorithm_1_field squares (t, 0))"
  by (intro progress_fold field_1)

lemma sweep_2: "wf_table t \<Longrightarrow> progress (t, 0) (solve_sudoku_algorithm_2 t)"
  unfolding solve_sudoku_algorithm_2_def by (intro progress_fold field_2)

lemma algorithm_1_ends:
  "wf_table t \<Longrightarrow> \<exists>k t'. solve_sudoku_algorithm_1 t = Some (k, t') \<and> deduces t t' \<and> empties t' \<le> empties t \<and>
    (if table_full t' then k = 0 else k = - 1)"
proof (induction "empties t" arbitrary: t rule: less_induct)
  case less
  obtain u n where u: "fold algorithm_1_field squares (t, 0) = (u, n)" by fastforce
  then have p: "deduces t u" "empties u + n = empties t" using sweep_1 [OF less.prems] by (auto simp: progress_def)
  show ?case
  proof (cases "table_full u \<or> n = 0")
    case True
    then show ?thesis using p u by (subst solve_sudoku_algorithm_1.simps) auto
  next
    case False
    then obtain k t' where "solve_sudoku_algorithm_1 u = Some (k, t')" "deduces u t'" "empties t' \<le> empties u"
      "if table_full t' then k = 0 else k = - 1" using less.hyps [of u] p by (auto simp: deduces_def)
    moreover have "solve_sudoku_algorithm_1 t = solve_sudoku_algorithm_1 u"
      using False u by (subst solve_sudoku_algorithm_1.simps) simp
    ultimately show ?thesis using deduces_trans [OF p(1)] p(2) by auto
  qed
qed

lemma fold_consistent:
  "wf_table (fst r) \<Longrightarrow> consistent (fst r) \<Longrightarrow> set ps \<subseteq> set squares \<Longrightarrow> consistent (fst (fold algorithm_1_field ps r))"
proof (induction ps arbitrary: r)
  case Nil
  then show ?case by simp
next
  case (Cons p ps)
  obtain t n y x where e: "r = (t, n)" "p = (y, x)" by fastforce
  have "consistent (fst (algorithm_1_field p r))"
    using Cons.prems by (auto simp: e algorithm_1_field_def Let_def intro: only_consistent)
  moreover have "wf_table (fst (algorithm_1_field p r))"
    using field_1 [of t p n] Cons.prems by (simp add: e progress_def deduces_def)
  ultimately show ?case using Cons by simp
qed

lemma algorithm_1_consistent:
  "wf_table t \<Longrightarrow> consistent t \<Longrightarrow> solve_sudoku_algorithm_1 t = Some (k, t') \<Longrightarrow> consistent t'"
proof (induction "empties t" arbitrary: t rule: less_induct)
  case less
  obtain u n where u: "fold algorithm_1_field squares (t, 0) = (u, n)" by fastforce
  then have p: "wf_table u" "empties u + n = empties t"
    using sweep_1 [OF less.prems(1)] by (auto simp: progress_def deduces_def)
  have c: "consistent u" using fold_consistent [of "(t, 0)" squares] less.prems(1,2) u by simp
  show ?case
  proof (cases "table_full u \<or> n = 0")
    case True
    then show ?thesis using c u less.prems(3)
      by (subst (asm) solve_sudoku_algorithm_1.simps) (auto split: if_splits)
  next
    case False
    then have "solve_sudoku_algorithm_1 t = solve_sudoku_algorithm_1 u"
      using u by (subst solve_sudoku_algorithm_1.simps) simp
    then show ?thesis using less.hyps [of u] False p c less.prems(3) by simp
  qed
qed

subsection \<open>Guesses\<close>

text \<open>Searching for the next empty field ends behind the last row, or at one that is empty; only the former reads behind the table.\<close>

lemma next_empty_cases:
  "y < 9 \<Longrightarrow> x < 9 \<Longrightarrow>
    (\<forall>b. next_empty b t y x = (if b = None then None else Some (9, 0))) \<or>
    (\<exists>y' x'. (\<forall>b. next_empty b t y x = Some (y', x')) \<and> y' < 9 \<and> x' < 9 \<and> cell_at t y' x' = 0 \<and> 9 * y + x < 9 * y' + x')"
proof (induction "81 - (9 * y + x)" arbitrary: y x rule: less_induct)
  case less
  obtain v w where f: "next_field y x = (v, w)" by fastforce
  have lt: "9 * y + x < 9 * v + w" "w < 9" "v \<le> 9" "v = 9 \<Longrightarrow> w = 0"
    using f less.prems by (auto simp: next_field_def split: if_splits)
  have eq: "next_empty b t y x = (case guess_cell b t v w of None \<Rightarrow> None
      | Some c \<Rightarrow> if 0 < c \<and> v < 9 then next_empty b t v w else Some (v, w))" for b
    by (subst next_empty.simps) (simp add: f)
  show ?case
  proof (cases "v = 9")
    case True
    then show ?thesis using lt by (auto simp: eq guess_cell_def split: option.splits)
  next
    case False
    then have v: "v < 9" using lt(3) by simp
    show ?thesis
    proof (cases "cell_at t v w = 0")
      case True
      then show ?thesis using v lt by (auto simp: eq guess_cell_def)
    next
      case False
      then have "next_empty b t y x = next_empty b t v w" for b using v lt by (simp add: eq guess_cell_def)
      then show ?thesis using less.hyps [of v w] v lt less.prems by force
    qed
  qed
qed

lemma first_empty_cases:
  "y < 9 \<Longrightarrow> x < 9 \<Longrightarrow>
    (first_empty t y x = None \<longrightarrow> (\<forall>a < 9. \<forall>b < 9. 9 * y + x \<le> 9 * a + b \<longrightarrow> cell_at t a b \<noteq> 0)) \<and>
    (\<forall>a b. first_empty t y x = Some (a, b) \<longrightarrow> a < 9 \<and> b < 9 \<and> cell_at t a b = 0)"
proof (induction "81 - (9 * y + x)" arbitrary: y x rule: less_induct)
  case less
  obtain v w where f: "next_field y x = (v, w)" by fastforce
  have lt: "9 * v + w = 9 * y + x + 1" "w < 9" "v \<le> 9"
    using f less.prems by (auto simp: next_field_def split: if_splits)
  have eq: "first_empty t y x = (if 0 < cell_at t y x then if v = 9 \<and> w = 0 then None else first_empty t v w else Some (y, x))"
    using less.prems by (subst first_empty.simps) (simp add: f guess_cell_def)
  have same: "a = y \<and> b = x" if "9 * y + x \<le> 9 * a + b" "\<not> 9 * v + w \<le> 9 * a + b" "b < 9" for a b
  proof -
    have e: "9 * a + b = 9 * y + x" using that lt(1) by linarith
    moreover have "(9 * a + b) div 9 = a" "(9 * y + x) div 9 = y" using that(3) less.prems(2) by simp_all
    ultimately have "a = y" by simp
    then show ?thesis using e by simp
  qed
  show ?case
  proof (cases "0 < cell_at t y x \<and> v < 9")
    case True
    then have "(first_empty t v w = None \<longrightarrow> (\<forall>a < 9. \<forall>b < 9. 9 * v + w \<le> 9 * a + b \<longrightarrow> cell_at t a b \<noteq> 0)) \<and>
        (\<forall>a b. first_empty t v w = Some (a, b) \<longrightarrow> a < 9 \<and> b < 9 \<and> cell_at t a b = 0)"
      by (intro less.hyps diff_less_mono2) (use lt less.prems True in auto)
    moreover have e: "first_empty t y x = first_empty t v w" using True eq by auto
    moreover have "cell_at t a b \<noteq> 0"
      if "\<forall>a < 9. \<forall>b < 9. 9 * v + w \<le> 9 * a + b \<longrightarrow> cell_at t a b \<noteq> 0" "9 * y + x \<le> 9 * a + b" "a < 9" "b < 9" for a b
    proof (cases "9 * v + w \<le> 9 * a + b")
      case True
      then show ?thesis using that(1) [rule_format, OF that(3,4)] by simp
    qed (use same [OF that(2) _ that(4)] True in simp)
    ultimately show ?thesis unfolding e by blast
  next
    case False
    then have "v = 9 \<and> w = 0" if "0 < cell_at t y x" using that lt less.prems by simp
    moreover have "cell_at t a b \<noteq> 0" if "0 < cell_at t y x" "v = 9" "9 * y + x \<le> 9 * a + b" "a < 9" "b < 9" for a b
      using same [OF that(3) _ that(5)] that lt(1) by auto
    ultimately show ?thesis using eq less.prems by (auto split: if_splits)
  qed
qed

lemma tens: "p < q \<Longrightarrow> n \<le> 9 \<Longrightarrow> 10 * q + 0 < r \<Longrightarrow> 10 * p + n < (r :: nat)"
  by arith

lemma next_guess_cases:
  "y < 9 \<Longrightarrow> x < 9 \<Longrightarrow> cell_at t y x = 0 \<Longrightarrow>
    (\<forall>b. next_guess b t y x n = (if b = None then None else Some (False, 9, 0, 1))) \<or>
    (\<exists>y' x' k. (\<forall>b. next_guess b t y x n = Some (True, y', x', k)) \<and> y' < 9 \<and> x' < 9 \<and> cell_at t y' x' = 0 \<and>
       1 \<le> k \<and> k \<le> 9 \<and> \<not> guess_is_not_possible t y' x' k \<and> (n \<le> 9 \<longrightarrow> 10 * (9 * y + x) + n < 10 * (9 * y' + x') + k))"
proof (induction "81 - (9 * y + x)" arbitrary: y x n rule: less_induct)
  case less
  show ?case
  proof (cases "find (\<lambda>k. \<not> guess_is_not_possible t y x k) [n + 1..<10]")
    case (Some k)
    then have "next_guess b t y x n = Some (True, y, x, k)" for b by (subst next_guess.simps) simp
    moreover have "n < k" "k \<le> 9" "\<not> guess_is_not_possible t y x k"
      using Some by (auto simp: find_Some_iff)
    ultimately show ?thesis using less.prems by auto
  next
    case None
    then have eq: "next_guess b t y x n = (case next_empty b t y x of None \<Rightarrow> None
        | Some (y, x) \<Rightarrow> if y = 9 then Some (False, y, x, 1) else next_guess b t y x 0)" for b
      by (subst next_guess.simps) simp
    from next_empty_cases [OF less.prems(1,2), of t] show ?thesis
    proof (elim disjE exE conjE)
      assume "\<forall>b. next_empty b t y x = (if b = None then None else Some (9, 0))"
      then show ?thesis by (simp add: eq)
    next
      fix v w
      assume e: "\<forall>b. next_empty b t y x = Some (v, w)" "v < 9" "w < 9" "cell_at t v w = 0" "9 * y + x < 9 * v + w"
      then have g: "next_guess b t y x n = next_guess b t v w 0" for b by (simp add: eq)
      have p: "n \<le> 9 \<longrightarrow> 10 * (9 * y + x) + n < 10 * (9 * a + c) + k"
        if "10 * (9 * v + w) + 0 < 10 * (9 * a + c) + k" for a c k using tens [OF e(5) _ that] by blast
      have "81 - (9 * v + w) < 81 - (9 * y + x)"
        by (rule diff_less_mono2 [OF e(5)]) (use less.prems in linarith)
      from less.hyps [OF this e(2-4), of 0] show ?thesis unfolding g
      proof (elim disjE exE conjE)
        fix y' x' k
        assume h: "\<forall>b. next_guess b t v w 0 = Some (True, y', x', k)" "y' < 9" "x' < 9" "cell_at t y' x' = 0"
          "1 \<le> k" "k \<le> 9" "\<not> guess_is_not_possible t y' x' k"
          "0 \<le> (9 :: nat) \<longrightarrow> 10 * (9 * v + w) + 0 < 10 * (9 * y' + x') + k"
        show "(\<forall>b. next_guess b t v w 0 = (if b = None then None else Some (False, 9, 0, 1))) \<or>
          (\<exists>y' x' k. (\<forall>b. next_guess b t v w 0 = Some (True, y', x', k)) \<and> y' < 9 \<and> x' < 9 \<and> cell_at t y' x' = 0 \<and>
            1 \<le> k \<and> k \<le> 9 \<and> \<not> guess_is_not_possible t y' x' k \<and>
            (n \<le> 9 \<longrightarrow> 10 * (9 * y + x) + n < 10 * (9 * y' + x') + k))"
          by (intro disjI2 exI [of _ y'] exI [of _ x'] exI [of _ k] conjI h p) (use h(8) in simp)
      qed (rule disjI1)
    qed
  qed
qed

text \<open>The variables of the guess are at their start, or at a field that was empty when the table was copied.\<close>

definition guess_ok :: "solver \<Rightarrow> bool" where
  "guess_ok s = (wf_table (sudoku_copy s) \<and> \<not> table_full (sudoku_copy s) \<and>
     (guess_number s = 0 \<and> guess_y s = 0 \<and> guess_x s = 0 \<or>
      1 \<le> guess_number s \<and> guess_number s \<le> 9 \<and> guess_y s < 9 \<and> guess_x s < 9 \<and>
      cell_at (sudoku_copy s) (guess_y s) (guess_x s) = 0))"

definition guess_pos :: "solver \<Rightarrow> nat" where
  "guess_pos s = 10 * (9 * guess_y s + guess_x s) + guess_number s"

definition guessed :: "solver \<Rightarrow> table" where
  "guessed s = put_at (sudoku_copy s) (guess_y s) (guess_x s) (guess_number s)"

lemma guess_pos_less: "guess_ok s \<Longrightarrow> guess_pos s < 810"
  by (auto simp: guess_ok_def guess_pos_def)

lemma apply_next_guess_cases:
  assumes "guess_ok s"
  shows "(\<exists>s'. \<forall>b. apply_next_guess b s = (if b = None then None else Some (False, s')) \<and>
      sudoku s' = sudoku_copy s \<and> sudoku_copy s' = sudoku_copy s) \<or>
    (\<exists>s'. (\<forall>b. apply_next_guess b s = Some (True, s')) \<and> guess_ok s' \<and> guess_pos s < guess_pos s' \<and>
      sudoku_copy s' = sudoku_copy s \<and> 1 \<le> guess_number s' \<and> sudoku s' = guessed s')"
proof -
  let ?t = "sudoku_copy s"
  note ok = assms [unfolded guess_ok_def]
  obtain y x where p: "(if guess_number s = 0 then first_empty ?t (guess_y s) (guess_x s) else Some (guess_y s, guess_x s)) = Some (y, x)"
    "y < 9" "x < 9" "cell_at ?t y x = 0" "9 * guess_y s + guess_x s \<le> 9 * y + x"
  proof (cases "guess_number s = 0")
    case True
    then have z: "guess_y s = 0" "guess_x s = 0" using ok by auto
    have "first_empty ?t 0 0 \<noteq> None"
    proof
      assume "first_empty ?t 0 0 = None"
      then have "\<forall>a < 9. \<forall>b < 9. cell_at ?t a b \<noteq> 0" using first_empty_cases [of 0 0 ?t] by simp
      then show False using ok by (simp add: full_iff)
    qed
    then obtain y x where "first_empty ?t 0 0 = Some (y, x)" by auto
    then show ?thesis using that first_empty_cases [of 0 0 ?t] True z by auto
  qed (use that ok in auto)
  have eq: "apply_next_guess b s = do {
      (found, y, x, k) \<leftarrow> next_guess b ?t y x (guess_number s);
      let s = s\<lparr>sudoku := ?t, guess_y := y, guess_x := x, guess_number := k\<rparr>;
      Some (if found then (True, s\<lparr>sudoku := put_at ?t y x k\<rparr>) else (False, s))
    }" for b
    using p(1) by (cases "guess_number s = 0") (simp_all add: apply_next_guess_def Let_def)
  from next_guess_cases [OF p(2-4), of "guess_number s"] show ?thesis
  proof (elim disjE exE conjE)
    assume "\<forall>b. next_guess b ?t y x (guess_number s) = (if b = None then None else Some (False, 9, 0, 1))"
    then show ?thesis
      by (intro disjI1 exI [of _ "s\<lparr>sudoku := ?t, guess_y := 9, guess_x := 0, guess_number := 1\<rparr>"]) (simp add: eq)
  next
    fix y' x' k
    assume g: "\<forall>b. next_guess b ?t y x (guess_number s) = Some (True, y', x', k)" "y' < 9" "x' < 9"
      "cell_at ?t y' x' = 0" "1 \<le> k" "k \<le> 9"
      "guess_number s \<le> 9 \<longrightarrow> 10 * (9 * y + x) + guess_number s < 10 * (9 * y' + x') + k"
    let ?s = "s\<lparr>sudoku := put_at ?t y' x' k, guess_y := y', guess_x := x', guess_number := k\<rparr>"
    have "apply_next_guess b s = Some (True, ?s)" for b using g(1) by (simp add: eq)
    moreover have "guess_ok ?s" using g ok by (simp add: guess_ok_def)
    moreover have "guess_pos s < guess_pos ?s" using g(7) p(5) ok unfolding guess_pos_def by auto
    ultimately show ?thesis using g(5) by (intro disjI2 exI [of _ ?s]) (simp add: guessed_def)
  qed
qed

subsection \<open>The loop\<close>

lemma loop_step: "st \<noteq> TABLE_DONE \<Longrightarrow> st \<noteq> TABLE_FAILED \<Longrightarrow>
    solve_loop b (st, c, s) = do { r \<leftarrow> solve_step b (st, c, s); solve_loop b r }"
  by (subst solve_loop.simps) (cases st; simp)

lemma loop_done: "solve_loop b (TABLE_DONE, c, s) = Some (0, s)"
  "solve_loop b (TABLE_FAILED, c, s) = Some (1, if c then s\<lparr>sudoku := sudoku_copy s\<rparr> else s)"
  by (subst solve_loop.simps, simp)+

lemma deduction_phase:
  "wf_table (sudoku s) \<Longrightarrow> \<exists>t. deduces (sudoku s) t \<and> (\<forall>b. solve_loop b (TRY_ALGO_1, c, s) =
    solve_loop b (if table_full t then TABLE_DONE else if c then TRY_NEXT_GUESS else TABLE_COPY, c, s\<lparr>sudoku := t\<rparr>))"
proof (induction "empties (sudoku s)" arbitrary: s rule: less_induct)
  case less
  obtain k t where t: "solve_sudoku_algorithm_1 (sudoku s) = Some (k, t)" "deduces (sudoku s) t"
    "empties t \<le> empties (sudoku s)" "if table_full t then k = 0 else k = - 1"
    using algorithm_1_ends [OF less.prems] by blast
  obtain u n where u: "solve_sudoku_algorithm_2 t = (u, n)" by fastforce
  have p: "progress (t, 0) (u, n)" using sweep_2 [of t] t(2) u by (simp add: deduces_def)
  show ?case
  proof (cases "table_full t")
    case True
    then show ?thesis using t by (intro exI [of _ t]) (simp add: loop_step solve_step_def)
  next
    case False
    then have l: "solve_loop b (TRY_ALGO_1, c, s) = solve_loop b (TRY_ALGO_2, c, s\<lparr>sudoku := t\<rparr>)" for b
      using t by (simp add: loop_step [of TRY_ALGO_1] solve_step_def)
    have l2: "solve_loop b (TRY_ALGO_2, c, s\<lparr>sudoku := t\<rparr>) =
        solve_loop b (if 0 < n then TRY_ALGO_1 else if c then TRY_NEXT_GUESS else TABLE_COPY, c, s\<lparr>sudoku := u\<rparr>)" for b
      using u by (simp add: loop_step [of TRY_ALGO_2] solve_step_def)
    show ?thesis
    proof (cases "n = 0")
      case True
      then have "u = t" using p by (simp add: progress_def)
      then show ?thesis using False True t(2) by (intro exI [of _ t]) (simp add: l l2)
    next
      case n: False
      have q: "deduces (sudoku s) u" "empties u < empties (sudoku s)"
        using p n t(3) deduces_trans [OF t(2)] by (auto simp: progress_def)
      obtain w where w: "deduces u w" "\<forall>b. solve_loop b (TRY_ALGO_1, c, s\<lparr>sudoku := u\<rparr>) =
          solve_loop b (if table_full w then TABLE_DONE else if c then TRY_NEXT_GUESS else TABLE_COPY, c, s\<lparr>sudoku := w\<rparr>)"
        using less.hyps [of "s\<lparr>sudoku := u\<rparr>"] q by (auto simp: deduces_def)
      then show ?thesis using deduces_trans [OF q(1) w(1)] n by (intro exI [of _ w]) (simp add: l l2)
    qed
  qed
qed

text \<open>What the loop returns from a guess on: with a full table, or with the copy and after a read behind the table.\<close>

lemma guess_phase:
  "guess_ok s \<Longrightarrow> \<exists>r s'. (\<forall>b. solve_loop b (TRY_NEXT_GUESS, True, s) = (if b = None \<and> r = 1 then None else Some (r, s'))) \<and>
    sudoku_copy s' = sudoku_copy s \<and>
    (r = 0 \<and> guess_ok s' \<and> 1 \<le> guess_number s' \<and> table_full (sudoku s') \<and> deduces (guessed s') (sudoku s') \<or>
     r = 1 \<and> sudoku s' = sudoku_copy s)"
proof (induction "810 - guess_pos s" arbitrary: s rule: less_induct)
  case less
  from apply_next_guess_cases [OF less.prems] show ?case
  proof (elim disjE exE conjE)
    fix s'
    assume a: "\<forall>b. apply_next_guess b s = (if b = None then None else Some (False, s')) \<and>
      sudoku s' = sudoku_copy s \<and> sudoku_copy s' = sudoku_copy s"
    then have "solve_loop b (TRY_NEXT_GUESS, True, s) = (if b = None then None else Some (1, s'\<lparr>sudoku := sudoku_copy s'\<rparr>))" for b
      by (auto simp: loop_step solve_step_def loop_done)
    then show ?thesis using a by (intro exI [of _ 1] exI [of _ "s'\<lparr>sudoku := sudoku_copy s'\<rparr>"]) simp
  next
    fix s'
    assume a: "\<forall>b. apply_next_guess b s = Some (True, s')" "guess_ok s'" "guess_pos s < guess_pos s'"
      "sudoku_copy s' = sudoku_copy s" "1 \<le> guess_number s'" "sudoku s' = guessed s'"
    have "wf_table (sudoku s')" using a(2,5,6) by (auto simp: guess_ok_def guessed_def intro: wf_put)
    then obtain t where t: "deduces (sudoku s') t" "\<forall>b. solve_loop b (TRY_ALGO_1, True, s') =
        solve_loop b (if table_full t then TABLE_DONE else TRY_NEXT_GUESS, True, s'\<lparr>sudoku := t\<rparr>)"
      using deduction_phase [of s' True] by auto
    have l: "solve_loop b (TRY_NEXT_GUESS, True, s) = solve_loop b (TRY_ALGO_1, True, s')" for b
      using a(1) by (simp add: loop_step [of TRY_NEXT_GUESS] solve_step_def)
    have ok: "guess_ok (s'\<lparr>sudoku := t\<rparr>)" using a(2) by (simp add: guess_ok_def)
    show ?thesis
    proof (cases "table_full t")
      case True
      then show ?thesis using l t a ok
        by (intro exI [of _ 0] exI [of _ "s'\<lparr>sudoku := t\<rparr>"]) (simp add: loop_done guessed_def)
    next
      case False
      have "810 - guess_pos (s'\<lparr>sudoku := t\<rparr>) < 810 - guess_pos s"
        using a(3) guess_pos_less [OF a(2)] by (simp add: guess_pos_def)
      then show ?thesis using less.hyps [OF _ ok] l t(2) False a(4) by simp
    qed
  qed
qed

lemma solve_result:
  assumes "wf_table (sudoku s)"
  shows "\<exists>r s'. (\<forall>b. solve_sudoku b s = (if b = None \<and> r = 1 then None else Some (r, s'))) \<and>
    (r = 0 \<and> table_full (sudoku s') \<and>
       (guess_number s' = 0 \<and> deduces (sudoku s) (sudoku s') \<or>
        guess_ok s' \<and> 1 \<le> guess_number s' \<and> deduces (sudoku s) (sudoku_copy s') \<and> deduces (guessed s') (sudoku s')) \<or>
     r = 1 \<and> deduces (sudoku s) (sudoku s') \<and> \<not> table_full (sudoku s'))"
proof -
  let ?s = "s\<lparr>guess_y := 0, guess_x := 0, guess_number := 0\<rparr>"
  obtain t where t: "deduces (sudoku s) t" "\<forall>b. solve_loop b (TRY_ALGO_1, False, ?s) =
      solve_loop b (if table_full t then TABLE_DONE else TABLE_COPY, False, ?s\<lparr>sudoku := t\<rparr>)"
    using deduction_phase [of ?s False] assms by auto
  show ?thesis
  proof (cases "table_full t")
    case True
    then show ?thesis using t
      by (intro exI [of _ 0] exI [of _ "?s\<lparr>sudoku := t\<rparr>"]) (simp add: solve_sudoku_def loop_done)
  next
    case False
    let ?c = "?s\<lparr>sudoku := t, sudoku_copy := t\<rparr>"
    have l: "solve_sudoku b s = solve_loop b (TRY_NEXT_GUESS, True, ?c)" for b
      using False t(2) by (simp add: solve_sudoku_def loop_step [of TABLE_COPY] solve_step_def)
    have "guess_ok ?c" using False t(1) by (simp add: guess_ok_def deduces_def)
    then obtain r s' where r: "\<forall>b. solve_loop b (TRY_NEXT_GUESS, True, ?c) = (if b = None \<and> r = 1 then None else Some (r, s'))"
      "sudoku_copy s' = t" "r = 0 \<and> guess_ok s' \<and> 1 \<le> guess_number s' \<and> table_full (sudoku s') \<and>
        deduces (guessed s') (sudoku s') \<or> r = 1 \<and> sudoku s' = t"
      using guess_phase [of ?c] by auto
    show ?thesis by (rule exI [of _ r], rule exI [of _ s']) (use r l t(1) False in auto)
  qed
qed

subsection \<open>Tables and sessions\<close>

lemma full_determines:
  assumes "wf_table t" "wf_table z" "table_full t" "extends t z"
  shows "t = z"
proof (rule nth_equalityI)
  show "length t = length z" using assms(1,2) by (simp add: wf_table_def)
  fix y assume "y < length t"
  then have y: "y < 9" using assms(1) by (simp add: wf_table_def)
  then have "length (t ! y) = 9" "length (z ! y) = 9" using assms(1,2) by (auto simp: wf_table_def)
  moreover have "t ! y ! x = z ! y ! x" if "x < 9" for x
    using assms(3,4) y that by (auto simp: full_iff extends_iff cell_at_def)
  ultimately show "t ! y = z ! y" by (intro nth_equalityI) auto
qed

lemma solve_cases:
  assumes "wf_table (sudoku s)" "solve_sudoku (Some v) s = Some (r, s')"
  shows "(r = 0 \<or> r = 1) \<and> solve_sudoku None s = (if r = 1 then None else Some (r, s')) \<and>
    (r = 0 \<and> table_full (sudoku s') \<and>
       (guess_number s' = 0 \<and> deduces (sudoku s) (sudoku s') \<or>
        guess_ok s' \<and> 1 \<le> guess_number s' \<and> deduces (sudoku s) (sudoku_copy s') \<and> deduces (guessed s') (sudoku s')) \<or>
     r = 1 \<and> deduces (sudoku s) (sudoku s') \<and> \<not> table_full (sudoku s'))"
  using solve_result [OF assms(1)] assms(2) by auto

lemma guessed_extends:
  assumes "guess_ok s" "1 \<le> guess_number s"
  shows "wf_table (guessed s)" "extends (sudoku_copy s) (guessed s)"
    "extends (sudoku_copy s) z \<Longrightarrow> cell_at z (guess_y s) (guess_x s) = guess_number s \<Longrightarrow> extends (guessed s) z"
  using assms by (auto simp: guess_ok_def guessed_def intro: wf_put extends_put put_extends)

lemma solve_extends: "wf_table (sudoku s) \<Longrightarrow> solve_sudoku (Some v) s = Some (r, s') \<Longrightarrow>
    wf_table (sudoku s') \<and> extends (sudoku s) (sudoku s') \<and> table_full (sudoku s') = (r = 0)"
  using solve_cases [of s v r s'] guessed_extends(1,2) [of s']
  by (auto simp: deduces_def elim!: extends_trans)

definition session_ok :: "session \<Rightarrow> bool" where
  "session_ok g = (wf_table (sudoku (puzzle g)) \<and> current_y g < 9 \<and> current_x g < 9)"

lemma put_number_ok: "session_ok g \<Longrightarrow> v \<le> 9 \<Longrightarrow> session_ok (put_number v g)"
  by (simp add: session_ok_def put_number_def wf_put)

lemma enter_ok: "session_ok g \<Longrightarrow> \<exists>g'. enter (Some v) g = Some g' \<and> session_ok g'"
proof -
  assume g: "session_ok g"
  then obtain r s where s: "solve_sudoku (Some v) (puzzle g) = Some (r, s)"
    using solve_result [of "puzzle g"] by (auto simp: session_ok_def)
  then show ?thesis using solve_extends [OF _ s] g by (simp add: enter_def session_ok_def)
qed

lemma digit_value: "isdigit c \<Longrightarrow> of_char c - 48 \<le> (9 :: nat)"
  by (auto simp: isdigit_def)

lemma press_ok: "session_ok g \<Longrightarrow> \<exists>g'. press (Some v) k g = Some g' \<and> session_ok g'"
proof (cases k)
  case (KEY_CHAR c)
  assume "session_ok g"
  moreover note digit_value [of c]
  ultimately show ?thesis using KEY_CHAR enter_ok [of g v] put_number_ok [of g]
    by (auto simp: press_def session_ok_def)
next
  case KEY_ENTER
  assume "session_ok g"
  then show ?thesis using KEY_ENTER enter_ok [of g v] by (simp add: press_def)
qed (auto simp: press_def session_ok_def)

lemma scan_digits_bounds: "length (scan_digits k s) \<le> k \<and> (\<forall>v \<in> set (scan_digits k s). v \<le> 9)"
proof (induction k arbitrary: s)
  case (Suc k)
  show ?case
  proof (cases "dropWhile isspace s")
    case Nil
    then show ?thesis by (simp del: dropWhile_eq_Nil_conv)
  next
    case (Cons c cs)
    then show ?thesis using digit_value [of c] Suc [of cs] by simp
  qed
qed simp

lemma store_row_wf: "wf_table t \<Longrightarrow> y < 9 \<Longrightarrow> \<forall>v \<in> set ds. v \<le> 9 \<Longrightarrow> wf_table (store_row t y ds)"
proof -
  have "wf_table t \<Longrightarrow> y < 9 \<Longrightarrow> \<forall>(x, v) \<in> set ps. v \<le> 9 \<Longrightarrow> wf_table (fold (\<lambda>(x, v) t. put_at t y x v) ps t)" for ps
    by (induction ps arbitrary: t) (auto intro: wf_put)
  moreover have "(x, v) \<in> set (enumerate 0 ds) \<Longrightarrow> v \<in> set ds" for x v by (auto simp: in_set_enumerate_eq)
  ultimately show "wf_table t \<Longrightarrow> y < 9 \<Longrightarrow> \<forall>v \<in> set ds. v \<le> 9 \<Longrightarrow> ?thesis" unfolding store_row_def by blast
qed

lemma read_lines_ok: "0 \<le> n \<Longrightarrow> n < 9 \<Longrightarrow> wf_table t \<Longrightarrow> \<exists>t'. read_lines n s t = Some t' \<and> wf_table t'"
proof (induction n s t rule: read_lines.induct)
  case (1 n s t)
  obtain line rest where f: "fgets 31 s = (line, rest)" by fastforce
  let ?ds = "scan_digits 9 (cstring line)"
  have w: "wf_table (store_row t (nat n) ?ds)"
    using 1(3-5) scan_digits_bounds [of 9 "cstring line"] by (intro store_row_wf) auto
  show ?case
  proof (cases "s = [] \<or> (length ?ds = 9 \<and> n + 1 = 9)")
    case True
    then show ?thesis using 1(3-5) w f by (subst read_lines.simps) (auto simp: Let_def)
  next
    case False
    then have "read_lines n s t = read_lines (if length ?ds = 9 then n + 1 else n) rest (store_row t (nat n) ?ds)"
      using f 1(3,4) by (subst read_lines.simps) (simp add: Let_def)
    moreover have "\<exists>t'. read_lines (if length ?ds = 9 then n + 1 else n) rest (store_row t (nat n) ?ds) = Some t' \<and> wf_table t'"
      using 1(1) [OF _ f [symmetric] refl _ refl] 1(2) [OF _ f [symmetric] refl _ refl] 1(3,4) False w
      by (cases "length ?ds = 9") auto
    ultimately show ?thesis by simp
  qed
qed

lemma session_invariant: "session_of (Some v) g \<Longrightarrow> session_ok g"
proof (induction rule: session_of.induct)
  case no_file
  then show ?case by (simp add: session_ok_def start_with_def empty_table_def wf_table_def)
next
  case (with_file contents r t)
  have "wf_table empty_table" by (simp add: empty_table_def wf_table_def)
  then have "wf_table t" using with_file read_lines_ok [of 0 empty_table "the contents"]
    by (auto simp: read_from_file_def bind_eq_Some_conv split: option.splits)
  then show ?case by (simp add: session_ok_def start_with_def)
next
  case (pressed g k g')
  then show ?case using press_ok [of g v k] by auto
qed

section \<open>Properties\<close>

text \<open>
  C16. The solver returns on every table of numbers up to 9, whatever lies behind the table in memory. The table that it leaves has
  all the numbers of the input; the result is 0 exactly when it is full.
\<close>

theorem solver_returns:
  assumes "wf_table (sudoku s)"
  shows "\<exists>r s'. (\<forall>v. solve_sudoku (Some v) s = Some (r, s')) \<and> (r = 0 \<or> r = 1) \<and>
    wf_table (sudoku s') \<and> extends (sudoku s) (sudoku s') \<and> table_full (sudoku s') = (r = 0)"
proof -
  obtain r s' where r: "\<forall>b. solve_sudoku b s = (if b = None \<and> r = 1 then None else Some (r, s'))"
    using solve_result [OF assms] by blast
  then show ?thesis using solve_cases [OF assms, of undefined r s'] solve_extends [OF assms, of undefined r s'] by auto
qed

text \<open>
  C15. The solver writes nothing that a solution of the input does not have, except for its guess and what follows from it:
  when it fails, every solution has the numbers of the table that is left; when it succeeds without a guess, or with the
  number that a solution has at that field, the table is that solution, which is then the only one.
\<close>

theorem solver_keeps_solutions:
  assumes "wf_table (sudoku s)" "solve_sudoku (Some v) s = Some (r, s')" "solution z" "extends (sudoku s) z"
  shows "(r = 1 \<longrightarrow> extends (sudoku s') z) \<and>
    (r = 0 \<longrightarrow> guess_number s' = 0 \<or> cell_at z (guess_y s') (guess_x s') = guess_number s' \<longrightarrow> sudoku s' = z)"
proof -
  have w: "wf_table (sudoku s')" "wf_table z"
    using solve_extends [OF assms(1,2)] assms(3) by (auto simp: solution_def)
  show ?thesis
    using solve_cases [OF assms(1,2)] guessed_extends(3) [of s' z] full_determines [OF w] assms(3,4)
    by (auto simp: deduces_def)
qed

text \<open>
  C17. Algorithm 1 keeps to the rules of the game: from a table without a conflict it ends with one, and if that is full it is
  the only solution of the input.
\<close>

theorem algorithm_1_solves:
  assumes "wf_table t" "consistent t"
  shows "\<exists>k t'. solve_sudoku_algorithm_1 t = Some (k, t') \<and> consistent t' \<and> extends t t' \<and>
    (k = 0 \<longrightarrow> solution t' \<and> (\<forall>z. solution z \<and> extends t z \<longrightarrow> z = t')) \<and> (k \<noteq> 0 \<longrightarrow> \<not> table_full t')"
proof -
  obtain k t' where t: "solve_sudoku_algorithm_1 t = Some (k, t')" "deduces t t'" "if table_full t' then k = 0 else k = - 1"
    using algorithm_1_ends [OF assms(1)] by blast
  have w: "wf_table t'" "extends t t'" "table_full t' \<longleftrightarrow> k = 0" using t(2,3) by (auto simp: deduces_def split: if_splits)
  have "z = t'" if "k = 0" "solution z" "extends t z" for z
  proof -
    have "wf_table z" "extends t' z" using that t(2) by (auto simp: deduces_def solution_def)
    then show ?thesis using full_determines [of t' z] w that(1) by simp
  qed
  then show ?thesis
    using t(1) w algorithm_1_consistent [OF assms t(1)] by (intro exI [of _ k] exI [of _ t']) (simp add: solution_def)
qed

text \<open>
  C19. When the solver gives up it has read the field behind the last row of the table, which is not in the array: with a
  table that ends at its last row the program stops there, and only there.
\<close>

theorem failure_reads_behind_table:
  assumes "wf_table (sudoku s)"
  shows "solve_sudoku None s = None \<longleftrightarrow> (\<exists>s'. solve_sudoku (Some v) s = Some (1, s'))"
  using solve_result [OF assms] by auto

text \<open>
  In every session each key is handled: the cursor stays on the table, its numbers stay below ten, and the solver returns.
\<close>

theorem sudoku_keys_handled:
  assumes "session_of (Some v) g"
  shows "wf_table (sudoku (puzzle g)) \<and> current_y g < 9 \<and> current_x g < 9 \<and> (\<exists>g'. press (Some v) k g = Some g')"
  using session_invariant [OF assms] press_ok [of g v k] by (auto simp: session_ok_def)

text \<open>A puzzle, and its solution.\<close>

definition tricky :: table where
  "tricky =
    [[0, 7, 0, 0, 2, 5, 0, 9, 6],
     [5, 0, 2, 6, 0, 0, 0, 0, 0],
     [0, 6, 0, 0, 3, 4, 0, 2, 0],
     [0, 0, 4, 2, 5, 6, 7, 1, 0],
     [7, 9, 1, 3, 4, 8, 6, 5, 2],
     [6, 2, 5, 0, 0, 0, 8, 0, 0],
     [0, 1, 7, 4, 8, 2, 0, 6, 0],
     [0, 5, 6, 0, 0, 3, 2, 0, 0],
     [2, 0, 0, 5, 6, 9, 0, 0, 0]]"

definition tricky_solution :: table where
  "tricky_solution =
    [[4, 7, 3, 8, 2, 5, 1, 9, 6],
     [5, 8, 2, 6, 9, 1, 4, 3, 7],
     [1, 6, 9, 7, 3, 4, 5, 2, 8],
     [8, 3, 4, 2, 5, 6, 7, 1, 9],
     [7, 9, 1, 3, 4, 8, 6, 5, 2],
     [6, 2, 5, 9, 1, 7, 8, 4, 3],
     [3, 1, 7, 4, 8, 2, 9, 6, 5],
     [9, 5, 6, 1, 7, 3, 2, 8, 4],
     [2, 4, 8, 5, 6, 9, 3, 7, 1]]"

lemma tricky_result: "map_option (\<lambda>(r, s). (r, sudoku s ! 6)) (solve_sudoku None (puzzle (start_with tricky))) =
    Some (0, [9, 1, 7, 4, 8, 2, 9, 6, 3])"
  by code_simp

lemma tricky_has_solution: "wf_table tricky_solution \<and> table_full tricky_solution \<and> consistent tricky_solution \<and>
    extends tricky tricky_solution"
  by code_simp

text \<open>
  C18. The answer can be wrong. This puzzle has a solution, and the solver reports one, but what it leaves breaks the rules: after a
  wrong guess, algorithm 2 writes a number that its row already has, and a full table counts as solved.
\<close>

theorem solved_can_be_wrong:
  "\<exists>s. solve_sudoku None (puzzle (start_with tricky)) = Some (0, s) \<and> \<not> solution (sudoku s) \<and>
    solution tricky_solution \<and> extends tricky tricky_solution"
proof -
  obtain s where s: "solve_sudoku None (puzzle (start_with tricky)) = Some (0, s)" "sudoku s ! 6 = [9, 1, 7, 4, 8, 2, 9, 6, 3]"
    using tricky_result by auto
  have "cell_at (sudoku s) 6 0 = 9" "cell_at (sudoku s) 6 6 = 9" using s(2) by (simp_all add: cell_at_def)
  then have "\<not> solution (sudoku s)" using solution_differs [of "sudoku s" 6 0 6 6] by (auto simp: sees_def)
  then show ?thesis using s(1) tricky_has_solution by (auto simp: solution_def)
qed

text \<open>The solution without its first and last number.\<close>

definition nearly_full :: table where
  "nearly_full = put_at (put_at tricky_solution 0 0 0) 8 8 0"

lemma nearly_full_ok: "wf_table nearly_full \<and> consistent nearly_full \<and> extends nearly_full tricky_solution"
  by code_simp

theorem solver_returns_witness:
  "\<exists>r s'. (\<forall>v. solve_sudoku (Some v) (puzzle (start_with nearly_full)) = Some (r, s')) \<and> (r = 0 \<or> r = 1) \<and>
    wf_table (sudoku s') \<and> extends nearly_full (sudoku s') \<and> table_full (sudoku s') = (r = 0)"
  using solver_returns [of "puzzle (start_with nearly_full)"] nearly_full_ok by (simp add: start_with_def)

lemma nearly_full_solved: "map_option (\<lambda>(r, s). (r, sudoku s, guess_number s)) (solve_sudoku (Some 0) (puzzle (start_with nearly_full))) =
    Some (0, tricky_solution, 0)"
  by code_simp

theorem solver_keeps_solutions_witness:
  "\<exists>s'. solve_sudoku (Some 0) (puzzle (start_with nearly_full)) = Some (0, s') \<and> sudoku s' = tricky_solution"
proof -
  obtain s' where s: "solve_sudoku (Some 0) (puzzle (start_with nearly_full)) = Some (0, s')" "guess_number s' = 0"
    using nearly_full_solved by auto
  then show ?thesis
    using solver_keeps_solutions [OF _ s(1), of tricky_solution] nearly_full_ok tricky_has_solution
    by (simp add: start_with_def solution_def)
qed

theorem algorithm_1_solves_witness:
  "\<exists>k t'. solve_sudoku_algorithm_1 nearly_full = Some (k, t') \<and> consistent t' \<and> extends nearly_full t' \<and>
    (k = 0 \<longrightarrow> solution t' \<and> (\<forall>z. solution z \<and> extends nearly_full z \<longrightarrow> z = t')) \<and> (k \<noteq> 0 \<longrightarrow> \<not> table_full t')"
  using algorithm_1_solves [of nearly_full] nearly_full_ok by simp

text \<open>The first field is empty, and the number that it lacks is in its block.\<close>

definition stuck_table :: table where
  "stuck_table = put_at (put_at tricky_solution 0 0 0) 1 1 4"

lemma stuck_fails: "wf_table stuck_table \<and> map_option fst (solve_sudoku (Some 0) (puzzle (start_with stuck_table))) = Some 1"
  by code_simp

theorem failure_reads_behind_table_witness: "solve_sudoku None (puzzle (start_with stuck_table)) = None"
  using failure_reads_behind_table [of "puzzle (start_with stuck_table)" 0] stuck_fails by (auto simp: start_with_def)

theorem sudoku_keys_handled_witness:
  "wf_table (sudoku (puzzle (start_with empty_table))) \<and> current_y (start_with empty_table) < 9 \<and>
    current_x (start_with empty_table) < 9 \<and> (\<exists>g'. press (Some 7) KEY_ENTER (start_with empty_table) = Some g')"
  by (rule sudoku_keys_handled) (rule no_file)

text \<open>A row number that happens to be 9 makes the reading of a file write behind the table.\<close>

theorem uninitialised_row_writes_outside: "read_from_file 9 (Some ''530070000'') empty_table = None"
  by code_simp

end
