(* ===== verification/Atto.thy ===== *)
theory Atto
  imports Prelude "HOL-Library.Char_ord"
begin

text \<open>
  The buffer of the editor \<open>editors/atto\<close> and its commands (\<open>gap.c\<close>, \<open>command.c\<close>, \<open>search.c\<close>,
  \<open>replace.c\<close> and the line scanning of \<open>display.c\<close>). Pointers into a buffer are offsets from \<open>b_buf\<close>,
  and \<open>b_ebuf\<close> is the length of the array. \<open>None\<close> and \<open>Stray\<close> stand for a failed assertion or an
  access outside the array. Several loops read the byte at \<open>b_ebuf\<close> before they test for the end of
  the buffer; the value of that byte is a parameter, as are the bytes of fresh memory and the sizes
  that the allocator refuses.
\<close>

section \<open>Definitions\<close>

record env =
  alloc :: "nat \<Rightarrow> bool"
  junk :: "nat \<Rightarrow> u8"
  behind :: u8

record buffer =
  b_buf :: "u8 list"
  b_gap :: nat
  b_egap :: nat
  b_point :: int
  b_mark :: int
  b_page :: int
  b_epage :: int
  b_row :: int
  b_col :: int
  b_modified :: bool
  b_overwrite :: bool
  b_ubuf :: "(int \<times> nat \<times> nat) option"

abbreviation b_ebuf :: "buffer \<Rightarrow> nat" where
  "b_ebuf b \<equiv> length (b_buf b)"

definition NOMARK :: int where "NOMARK = - 1"
definition CHUNK :: nat where "CHUNK = 8096"
definition MIN_GAP_EXPAND :: nat where "MIN_GAP_EXPAND = 512"
definition NL :: u8 where "NL = 10"
definition CR :: u8 where "CR = 13"
definition TAB :: u8 where "TAB = 9"

text \<open>A new buffer; the undo record is not initialised.\<close>

definition buffer_init :: buffer where
  "buffer_init = \<lparr>b_buf = [], b_gap = 0, b_egap = 0, b_point = 0, b_mark = 0, b_page = 0, b_epage = 0,
     b_row = 0, b_col = 0, b_modified = False, b_overwrite = False, b_ubuf = None\<rparr>"

subsection \<open>The gap\<close>

definition ptr :: "buffer \<Rightarrow> int \<Rightarrow> nat" where
  "ptr b off = (if off < 0 then 0 else nat off + (if nat off < b_gap b then 0 else b_egap b - b_gap b))"

definition pos :: "buffer \<Rightarrow> nat \<Rightarrow> int option" where
  "pos b cp = (if cp \<le> b_ebuf b then Some (int cp - (if cp < b_egap b then 0 else int (b_egap b - b_gap b))) else None)"

text \<open>The byte that \<open>*(ptr(bp, off))\<close> reads.\<close>

definition getc :: "env \<Rightarrow> buffer \<Rightarrow> int \<Rightarrow> u8 option" where
  "getc e b off =
     (if ptr b off < b_ebuf b then Some (b_buf b ! ptr b off)
      else if ptr b off = b_ebuf b \<and> b_buf b \<noteq> [] then Some (behind e) else None)"

datatype grow = Grown buffer | Refused | Fatal | Lost

text \<open>The loop \<open>*--b_egap = *--b_ebuf\<close> over \<open>k\<close> bytes.\<close>

fun shift_up :: "nat \<Rightarrow> u8 list \<Rightarrow> nat \<Rightarrow> nat \<Rightarrow> u8 list option" where
  "shift_up 0 m dst src = Some m"
| "shift_up (Suc k) m dst src =
     do {
       c \<leftarrow> rd m (src - 1);
       m \<leftarrow> wr m (dst - 1) c;
       shift_up k m (dst - 1) (src - 1)
     }"

definition growgap :: "env \<Rightarrow> buffer \<Rightarrow> nat \<Rightarrow> grow" where
  "growgap e b n =
     (if \<not> (b_gap b \<le> b_egap b \<and> b_egap b \<le> b_ebuf b) then Lost
      else
        (let buflen = b_ebuf b;
             n = (if n < MIN_GAP_EXPAND then MIN_GAP_EXPAND else n);
             newlen = buflen + n
         in if 2 ^ 63 \<le> int newlen \<or> \<not> alloc e newlen then (if buflen = 0 then Fatal else Refused)
            else
              (case shift_up (buflen - b_egap b) (b_buf b @ map (junk e) [buflen..<newlen]) newlen buflen of
                 None \<Rightarrow> Lost
               | Some m \<Rightarrow> Grown (b\<lparr>b_buf := m, b_egap := newlen - (buflen - b_egap b)\<rparr>))))"

function gap_down :: "u8 list \<Rightarrow> nat \<Rightarrow> nat \<Rightarrow> nat \<Rightarrow> (u8 list \<times> nat \<times> nat) option" where
  "gap_down m g e p =
     (if p < g then
        (if e = 0 then None
         else do {
           c \<leftarrow> rd m (g - 1);
           m \<leftarrow> wr m (e - 1) c;
           gap_down m (g - 1) (e - 1) p
         })
      else Some (m, g, e))"
  by auto
termination by (relation "measure (\<lambda>(m, g, e, p). g)") auto

function gap_up :: "u8 list \<Rightarrow> nat \<Rightarrow> nat \<Rightarrow> nat \<Rightarrow> (u8 list \<times> nat \<times> nat) option" where
  "gap_up m g e p =
     (if e < p then
        do {
          c \<leftarrow> rd m e;
          m \<leftarrow> wr m g c;
          gap_up m (Suc g) (Suc e) p
        }
      else Some (m, g, e))"
  by auto
termination by (relation "measure (\<lambda>(m, g, e, p). p - e)") auto

declare gap_down.simps [simp del] gap_up.simps [simp del]

definition movegap :: "buffer \<Rightarrow> int \<Rightarrow> (buffer \<times> int) option" where
  "movegap b off =
     do {
       let p = ptr b off;
       (m, g, e) \<leftarrow> gap_down (b_buf b) (b_gap b) (b_egap b) p;
       (m, g, e) \<leftarrow> gap_up m g e p;
       let b = b\<lparr>b_buf := m, b_gap := g, b_egap := e\<rparr>;
       if g \<le> e \<and> e \<le> b_ebuf b then do { q \<leftarrow> pos b e; Some (b, q) } else None
     }"

definition undoset :: "buffer \<Rightarrow> buffer" where
  "undoset b = b\<lparr>b_ubuf := Some (b_point b, b_gap b, b_egap b)\<rparr>"

definition undo :: "buffer \<Rightarrow> buffer option" where
  "undo b =
     do {
       (p, g, e) \<leftarrow> b_ubuf b;
       Some ((undoset b)\<lparr>b_point := p, b_gap := g, b_egap := e, b_modified := True\<rparr>)
     }"

subsection \<open>Files\<close>

definition posix_file :: "string \<Rightarrow> bool" where
  "posix_file fn = (case fn of
     [] \<Rightarrow> True
   | c # _ \<Rightarrow> c \<noteq> CHR ''_'' \<and> list_all (\<lambda>c. (CHR ''a'' \<le> c \<and> c \<le> CHR ''z'') \<or> (CHR ''A'' \<le> c \<and> c \<le> CHR ''Z'') \<or>
       (CHR ''0'' \<le> c \<and> c \<le> CHR ''9'') \<or> c \<in> {CHR ''.'', CHR ''_'', CHR ''-'', CHR ''/''}) fn)"

datatype 'r outcome = Done 'r | Exit | Stray

definition outcome_of :: "'r option \<Rightarrow> 'r outcome" where
  "outcome_of r = (case r of None \<Rightarrow> Stray | Some b \<Rightarrow> Done b)"

text \<open>\<open>memcpy\<close> into and out of an array.\<close>

definition put_block :: "u8 list \<Rightarrow> nat \<Rightarrow> u8 list \<Rightarrow> u8 list option" where
  "put_block m i xs =
     (if i + length xs \<le> length m then Some (take i m @ xs @ drop (i + length xs) m) else None)"

definition get_block :: "u8 list \<Rightarrow> nat \<Rightarrow> nat \<Rightarrow> u8 list option" where
  "get_block m i n = (if i + n \<le> length m then Some (take n (drop i m)) else None)"

text \<open>
  The calls of the C library on a file: whether \<open>fopen\<close>, \<open>fwrite\<close> and \<open>fclose\<close> succeed, the size
  that \<open>stat\<close> reports, and the bytes of the file.
\<close>

record io =
  can_open :: bool
  can_write :: bool
  can_close :: bool
  st_size :: "nat option"
  contents :: "u8 list"

text \<open>\<open>save\<close> gives its result, the buffer and what the file holds when the writing was complete.\<close>

definition save :: "io \<Rightarrow> string \<Rightarrow> buffer \<Rightarrow> (bool \<times> buffer \<times> u8 list option) option" where
  "save f fn b =
     (if \<not> posix_file fn \<or> \<not> can_open f then Some (False, b, None)
      else do {
        (b, _) \<leftarrow> movegap b 0;
        xs \<leftarrow> get_block (b_buf b) (b_egap b) (b_ebuf b - b_egap b);
        if \<not> can_write f then Some (False, b, None)
        else if \<not> can_close f then Some (False, b, Some xs)
        else Some (True, b\<lparr>b_modified := False\<rparr>, Some xs)
      })"

definition read_into_gap :: "io \<Rightarrow> nat \<Rightarrow> bool \<Rightarrow> buffer \<Rightarrow> (bool \<times> buffer) option" where
  "read_into_gap f sz modflag b =
     do {
       (b, p) \<leftarrow> movegap b (b_point b);
       let b = undoset (b\<lparr>b_point := p\<rparr>);
       let xs = take sz (contents f);
       m \<leftarrow> put_block (b_buf b) (b_gap b) xs;
       let b = b\<lparr>b_buf := m, b_gap := b_gap b + length xs\<rparr>;
       if \<not> can_close f then Some (False, b)
       else Some (True, if modflag then b\<lparr>b_overwrite := False\<rparr> else b\<lparr>b_modified := False\<rparr>)
     }"

definition insert_file :: "env \<Rightarrow> io \<Rightarrow> bool \<Rightarrow> buffer \<Rightarrow> (bool \<times> buffer) outcome" where
  "insert_file e f modflag b =
     (case st_size f of
        None \<Rightarrow> Done (False, b)
      | Some sz \<Rightarrow>
          (case (if b_egap b - b_gap b < sz then growgap e b sz else Grown b) of
             Refused \<Rightarrow> Done (False, b)
           | Fatal \<Rightarrow> Exit
           | Lost \<Rightarrow> Stray
           | Grown b \<Rightarrow>
               if \<not> can_open f then Done (False, b) else outcome_of (read_into_gap f sz modflag b)))"

definition load_file :: "env \<Rightarrow> io \<Rightarrow> buffer \<Rightarrow> (bool \<times> buffer) outcome" where
  "load_file e f b = insert_file e f False (b\<lparr>b_gap := 0, b_egap := b_ebuf b, b_point := 0\<rparr>)"

subsection \<open>Lines\<close>

definition end_pos :: "buffer \<Rightarrow> int option" where
  "end_pos b = pos b (b_ebuf b)"

function line_scan :: "env \<Rightarrow> buffer \<Rightarrow> int \<Rightarrow> int \<Rightarrow> int \<Rightarrow> int \<Rightarrow> int option" where
  "line_scan e b end_p p start ln =
     (if p < end_p then
        do {
          c \<leftarrow> getc e b p;
          if c = NL then
            (if ln - 1 = 0 then Some start
             else line_scan e b end_p (p + 1) (if p + 1 < end_p then p + 1 else start) (ln - 1))
          else line_scan e b end_p (p + 1) start ln
        }
      else Some (- 1))"
  by auto
termination by (relation "measure (\<lambda>(e, b, end_p, p, start, ln). nat (end_p - p))") auto

definition line_to_point :: "env \<Rightarrow> buffer \<Rightarrow> int \<Rightarrow> int option" where
  "line_to_point e b ln = do { end_p \<leftarrow> end_pos b; line_scan e b end_p 0 0 ln }"

text \<open>The loop of \<open>get_line_stats\<close>, with \<open>*curline\<close>, \<open>*lastline\<close> (unset at first) and \<open>line\<close>.\<close>

function stats_scan :: "env \<Rightarrow> buffer \<Rightarrow> int \<Rightarrow> int \<Rightarrow> int \<Rightarrow> int option \<Rightarrow> int \<Rightarrow> (int \<times> int option) option" where
  "stats_scan e b end_p p curline lastline line =
     (if p < end_p then
        do {
          c \<leftarrow> getc e b p;
          let line = line + (if c = NL then 1 else 0);
          stats_scan e b end_p (p + 1)
            (if curline = - 1 \<and> p = b_point b then (if c = NL then line else line + 1) else curline)
            (Some line) line
        }
      else Some (curline, lastline))"
  by auto
termination by (relation "measure (\<lambda>(e, b, end_p, p, _). nat (end_p - p))") auto

definition get_line_stats :: "env \<Rightarrow> buffer \<Rightarrow> (int \<times> int) option" where
  "get_line_stats e b =
     do {
       end_p \<leftarrow> end_pos b;
       (curline, lastline) \<leftarrow> stats_scan e b end_p 0 (- 1) None 0;
       l \<leftarrow> lastline;
       Some (if b_point b = end_p then l + 1 else curline, l + 1)
     }"

text \<open>The scanning of \<open>display.c\<close>; \<open>COLS\<close> is the width of the screen.\<close>

function lnstart :: "env \<Rightarrow> buffer \<Rightarrow> int \<Rightarrow> int option" where
  "lnstart e b off =
     (let off = off - 1; p = ptr b off in
      if 0 < p then
        do {
          c \<leftarrow> getc e b off;
          if c = NL then Some (off + 1) else lnstart e b off
        }
      else Some 0)"
  by auto
termination by (relation "measure (\<lambda>(e, b, off). nat off)") (auto simp: ptr_def split: if_splits)

definition advance :: "u8 \<Rightarrow> int \<Rightarrow> int" where
  "advance ch c = c + (if ch = TAB then 8 - c mod 8 else 1)"

function segscan :: "env \<Rightarrow> int \<Rightarrow> buffer \<Rightarrow> int \<Rightarrow> int \<Rightarrow> int \<Rightarrow> int \<Rightarrow> int option" where
  "segscan e COLS b start finish scan c =
     (if scan < finish then
        do {
          ch \<leftarrow> getc e b scan;
          let (c, start) = (if ch = NL then (0, scan + 1) else if COLS \<le> c then (0, scan) else (c, start));
          segscan e COLS b start finish (scan + 1) (advance ch c)
        }
      else Some (if c < COLS then start else finish))"
  by auto
termination by (relation "measure (\<lambda>(e, cols, b, start, finish, scan, c). nat (finish - scan))") auto

definition segstart :: "env \<Rightarrow> int \<Rightarrow> buffer \<Rightarrow> int \<Rightarrow> int \<Rightarrow> int option" where
  "segstart e COLS b start finish = segscan e COLS b start finish start 0"

function segend :: "env \<Rightarrow> int \<Rightarrow> buffer \<Rightarrow> int \<Rightarrow> int \<Rightarrow> int option" where
  "segend e COLS b scan c =
     (let p = ptr b scan in
      if b_ebuf b \<le> p then end_pos b
      else if COLS \<le> c then Some scan
      else do {
        ch \<leftarrow> getc e b scan;
        if ch = NL then Some (scan + 1) else segend e COLS b (scan + 1) (advance ch c)
      })"
  by auto
termination
  by (relation "measure (\<lambda>(e, cols, b, scan, c). nat (int (b_ebuf b) - scan))")
    (auto simp: ptr_def split: if_splits)

definition segnext :: "env \<Rightarrow> int \<Rightarrow> buffer \<Rightarrow> int \<Rightarrow> int \<Rightarrow> int option" where
  "segnext e COLS b start finish = do { scan \<leftarrow> segstart e COLS b start finish; segend e COLS b scan 0 }"

definition upup :: "env \<Rightarrow> int \<Rightarrow> buffer \<Rightarrow> int \<Rightarrow> int option" where
  "upup e COLS b off =
     do {
       curr \<leftarrow> lnstart e b off;
       seg \<leftarrow> segstart e COLS b curr off;
       if curr < seg then segstart e COLS b curr (seg - 1)
       else do { l \<leftarrow> lnstart e b (curr - 1); segstart e COLS b l (curr - 1) }
     }"

definition dndn :: "env \<Rightarrow> int \<Rightarrow> buffer \<Rightarrow> int \<Rightarrow> int option" where
  "dndn e COLS b off = do { l \<leftarrow> lnstart e b off; segnext e COLS b l off }"

function lncolumn :: "env \<Rightarrow> buffer \<Rightarrow> int \<Rightarrow> int \<Rightarrow> int \<Rightarrow> int option" where
  "lncolumn e b offset column c =
     (if ptr b offset < b_ebuf b then
        do {
          ch \<leftarrow> getc e b offset;
          if ch \<noteq> NL \<and> c < column then lncolumn e b (offset + 1) column (advance ch c) else Some offset
        }
      else Some offset)"
  by auto
termination
  by (relation "measure (\<lambda>(e, b, offset, column, c). nat (int (b_ebuf b) - offset))")
    (auto simp: ptr_def split: if_splits)

declare line_scan.simps [simp del] stats_scan.simps [simp del] lnstart.simps [simp del] segscan.simps [simp del]
  segend.simps [simp del] lncolumn.simps [simp del]

subsection \<open>Commands\<close>

definition at_point :: "int option \<Rightarrow> buffer \<Rightarrow> buffer option" where
  "at_point p b = do { p \<leftarrow> p; Some (b\<lparr>b_point := p\<rparr>) }"

definition top_cmd :: "buffer \<Rightarrow> buffer" where
  "top_cmd b = b\<lparr>b_point := 0\<rparr>"

definition bottom :: "buffer \<Rightarrow> buffer option" where
  "bottom b = do { q \<leftarrow> end_pos b; Some (b\<lparr>b_point := q, b_epage := q\<rparr>) }"

definition left :: "buffer \<Rightarrow> buffer" where
  "left b = (if 0 < b_point b then b\<lparr>b_point := b_point b - 1\<rparr> else b)"

definition right :: "buffer \<Rightarrow> buffer option" where
  "right b = do { q \<leftarrow> end_pos b; Some (if b_point b < q then b\<lparr>b_point := b_point b + 1\<rparr> else b) }"

definition up :: "env \<Rightarrow> int \<Rightarrow> buffer \<Rightarrow> buffer option" where
  "up e COLS b = do { q \<leftarrow> upup e COLS b (b_point b); at_point (lncolumn e b q (b_col b) 0) b }"

definition down :: "env \<Rightarrow> int \<Rightarrow> buffer \<Rightarrow> buffer option" where
  "down e COLS b = do { q \<leftarrow> dndn e COLS b (b_point b); at_point (lncolumn e b q (b_col b) 0) b }"

definition lnbegin :: "env \<Rightarrow> int \<Rightarrow> buffer \<Rightarrow> buffer option" where
  "lnbegin e COLS b = do { l \<leftarrow> lnstart e b (b_point b); at_point (segstart e COLS b l (b_point b)) b }"

definition lnend :: "env \<Rightarrow> int \<Rightarrow> buffer \<Rightarrow> buffer option" where
  "lnend e COLS b = do { b \<leftarrow> at_point (dndn e COLS b (b_point b)) b; Some (left b) }"

fun down_n :: "nat \<Rightarrow> env \<Rightarrow> int \<Rightarrow> buffer \<Rightarrow> buffer option" where
  "down_n 0 e COLS b = Some b"
| "down_n (Suc n) e COLS b = do { b \<leftarrow> down e COLS b; down_n n e COLS b }"

definition pgdown :: "env \<Rightarrow> int \<Rightarrow> buffer \<Rightarrow> buffer option" where
  "pgdown e COLS b =
     do {
       q \<leftarrow> upup e COLS b (b_epage b);
       b \<leftarrow> down_n (nat (b_row b)) e COLS (b\<lparr>b_point := q, b_page := q\<rparr>);
       q \<leftarrow> end_pos b;
       Some (b\<lparr>b_row := min (b_row b) 0 - 1, b_epage := q\<rparr>)
     }"

fun pgup_n :: "nat \<Rightarrow> env \<Rightarrow> int \<Rightarrow> buffer \<Rightarrow> buffer option" where
  "pgup_n 0 e COLS b = Some b"
| "pgup_n (Suc n) e COLS b =
     do {
       q \<leftarrow> upup e COLS b (b_page b);
       b \<leftarrow> up e COLS (b\<lparr>b_page := q\<rparr>);
       pgup_n n e COLS b
     }"

definition pgup :: "env \<Rightarrow> int \<Rightarrow> int \<Rightarrow> buffer \<Rightarrow> buffer option" where
  "pgup e COLS w_rows b = pgup_n (nat (w_rows - 1)) e COLS b"

definition isspace_byte :: "u8 \<Rightarrow> bool" where
  "isspace_byte c = (c \<in> {32, 9, 10, 11, 12, 13})"

text \<open>One loop of \<open>wleft\<close> and of \<open>wright\<close>: over blanks or over the other bytes.\<close>

function word_left :: "env \<Rightarrow> buffer \<Rightarrow> bool \<Rightarrow> int \<Rightarrow> int option" where
  "word_left e b blanks off =
     do {
       c \<leftarrow> getc e b off;
       if isspace_byte c = blanks \<and> 0 < ptr b off then word_left e b blanks (off - 1) else Some off
     }"
  by auto
termination by (relation "measure (\<lambda>(e, b, blanks, off). nat (off + 1))") (auto simp: ptr_def split: if_splits)

function word_right :: "env \<Rightarrow> buffer \<Rightarrow> bool \<Rightarrow> int \<Rightarrow> int option" where
  "word_right e b blanks off =
     do {
       c \<leftarrow> getc e b off;
       if isspace_byte c = blanks \<and> ptr b off < b_ebuf b then word_right e b blanks (off + 1) else Some off
     }"
  by auto
termination
  by (relation "measure (\<lambda>(e, b, blanks, off). nat (int (b_ebuf b) - off))") (auto simp: ptr_def split: if_splits)

declare word_left.simps [simp del] word_right.simps [simp del]

definition wleft :: "env \<Rightarrow> buffer \<Rightarrow> buffer option" where
  "wleft e b = do { p \<leftarrow> word_left e b False (b_point b); at_point (word_left e b True p) b }"

definition wright :: "env \<Rightarrow> buffer \<Rightarrow> buffer option" where
  "wright e b = do { p \<leftarrow> word_right e b False (b_point b); at_point (word_right e b True p) b }"

definition overwrites :: "env \<Rightarrow> u8 \<Rightarrow> buffer \<Rightarrow> bool option" where
  "overwrites e input b =
     (if b_overwrite b \<and> input \<noteq> CR then
        do { c \<leftarrow> getc e b (b_point b); q \<leftarrow> end_pos b; Some (c \<noteq> NL \<and> b_point b < q) }
      else Some False)"

definition put_key :: "env \<Rightarrow> u8 \<Rightarrow> buffer \<Rightarrow> buffer option" where
  "put_key e input b =
     do {
       (b, p) \<leftarrow> movegap b (b_point b);
       let b = b\<lparr>b_point := p\<rparr>;
       over \<leftarrow> overwrites e input b;
       if over then
         do {
           m \<leftarrow> wr (b_buf b) (ptr b (b_point b)) input;
           let b = b\<lparr>b_buf := m\<rparr>;
           q \<leftarrow> end_pos b;
           Some (b\<lparr>b_point := (if b_point b < q then b_point b + 1 else b_point b), b_modified := True\<rparr>)
         }
       else
         do {
           m \<leftarrow> wr (b_buf b) (b_gap b) (if input = CR then NL else input);
           let b = b\<lparr>b_buf := m, b_gap := b_gap b + 1\<rparr>;
           q \<leftarrow> pos b (b_egap b);
           Some (b\<lparr>b_point := q, b_modified := True\<rparr>)
         }
     }"

definition insert_cmd :: "env \<Rightarrow> u8 \<Rightarrow> buffer \<Rightarrow> buffer outcome" where
  "insert_cmd e input b =
     (if \<not> b_gap b \<le> b_egap b then Stray
      else
        (case (if b_gap b = b_egap b then growgap e b CHUNK else Grown b) of
           Grown b \<Rightarrow> outcome_of (put_key e input b)
         | Refused \<Rightarrow> Done b
         | Fatal \<Rightarrow> Exit
         | Lost \<Rightarrow> Stray))"

definition backsp :: "buffer \<Rightarrow> buffer option" where
  "backsp b =
     do {
       (b, p) \<leftarrow> movegap b (b_point b);
       let b = undoset (b\<lparr>b_point := p\<rparr>);
       let b = (if 0 < b_gap b then b\<lparr>b_gap := b_gap b - 1, b_modified := True\<rparr> else b);
       q \<leftarrow> pos b (b_egap b);
       Some (b\<lparr>b_point := q\<rparr>)
     }"

definition delete_cmd :: "buffer \<Rightarrow> buffer option" where
  "delete_cmd b =
     do {
       (b, p) \<leftarrow> movegap b (b_point b);
       let b = undoset (b\<lparr>b_point := p\<rparr>);
       if b_egap b < b_ebuf b then
         do {
           let b = b\<lparr>b_egap := b_egap b + 1\<rparr>;
           q \<leftarrow> pos b (b_egap b);
           Some (b\<lparr>b_point := q, b_modified := True\<rparr>)
         }
       else Some b
     }"

definition gotoline :: "env \<Rightarrow> int \<Rightarrow> buffer \<Rightarrow> buffer option" where
  "gotoline e line b = do { p \<leftarrow> line_to_point e b line; Some (if p \<noteq> - 1 then b\<lparr>b_point := p\<rparr> else b) }"

definition block :: "buffer \<Rightarrow> buffer" where
  "block b = b\<lparr>b_mark := (if b_mark b = NOMARK then b_point b else NOMARK)\<rparr>"

definition toggle_overwrite_mode :: "buffer \<Rightarrow> buffer" where
  "toggle_overwrite_mode b = b\<lparr>b_overwrite := \<not> b_overwrite b\<rparr>"

subsection \<open>The scrap buffer\<close>

record editor =
  curbp :: buffer
  scrap :: "u8 list option"
  nscrap :: int

definition copy_cut :: "env \<Rightarrow> bool \<Rightarrow> editor \<Rightarrow> editor option" where
  "copy_cut e do_cut ed =
     (let b = curbp ed in
      if b_mark b = NOMARK \<or> b_point b = b_mark b then Some ed
      else
        do {
          let from = (if b_point b < b_mark b then b_point b else b_mark b);
          let n = (if b_point b < b_mark b then b_mark b - b_point b else b_point b - b_mark b);
          let p = ptr b from;
          (b, _) \<leftarrow> movegap b from;
          let ed = ed\<lparr>curbp := b, scrap := None, nscrap := n\<rparr>;
          if \<not> alloc e (nat n) then Some ed
          else do {
            let b = undoset b;
            xs \<leftarrow> get_block (b_buf b) p (nat n);
            let ed = ed\<lparr>scrap := Some xs\<rparr>;
            if do_cut then
              do {
                let b = block (b\<lparr>b_egap := b_egap b + nat n\<rparr>);
                q \<leftarrow> pos b (b_egap b);
                Some (ed\<lparr>curbp := b\<lparr>b_point := q, b_modified := True\<rparr>\<rparr>)
              }
            else Some (ed\<lparr>curbp := block b\<rparr>)
          }
        })"

definition paste_at :: "u8 list \<Rightarrow> buffer \<Rightarrow> buffer option" where
  "paste_at xs b =
     do {
       (b, p) \<leftarrow> movegap b (b_point b);
       let b = undoset (b\<lparr>b_point := p\<rparr>);
       m \<leftarrow> put_block (b_buf b) (b_gap b) xs;
       let b = b\<lparr>b_buf := m, b_gap := b_gap b + length xs\<rparr>;
       q \<leftarrow> pos b (b_egap b);
       Some (b\<lparr>b_point := q, b_modified := True\<rparr>)
     }"

text \<open>The bytes that \<open>paste\<close> copies: \<open>nscrap\<close> of them from \<open>scrap\<close>, which may be \<open>NULL\<close>.\<close>

definition scrap_block :: "editor \<Rightarrow> u8 list option" where
  "scrap_block ed = do { xs \<leftarrow> scrap ed; get_block xs 0 (nat (nscrap ed)) }"

definition paste :: "env \<Rightarrow> editor \<Rightarrow> editor outcome" where
  "paste e ed =
     (let b = curbp ed in
      if b_overwrite b \<or> nscrap ed \<le> 0 then Done ed
      else
        (case (if nscrap ed < int (b_egap b) - int (b_gap b) then Grown b else growgap e b (nat (nscrap ed))) of
           Refused \<Rightarrow> Done ed
         | Fatal \<Rightarrow> Exit
         | Lost \<Rightarrow> Stray
         | Grown b \<Rightarrow>
             outcome_of (do { xs \<leftarrow> scrap_block ed; b \<leftarrow> paste_at xs b; Some (ed\<lparr>curbp := b\<rparr>) })))"

definition killtoeol :: "env \<Rightarrow> int \<Rightarrow> editor \<Rightarrow> editor option" where
  "killtoeol e COLS ed =
     (let b = curbp ed in
      do {
        c \<leftarrow> getc e b (b_point b);
        if c = NL \<or> b_point b + 1 = int (b_ebuf b) - (int (b_egap b) - int (b_gap b)) then
          do { b \<leftarrow> delete_cmd b; Some (ed\<lparr>curbp := b\<rparr>) }
        else do {
          b \<leftarrow> lnend e COLS (b\<lparr>b_mark := b_point b\<rparr>);
          copy_cut e True (ed\<lparr>curbp := b\<rparr>)
        }
      })"

subsection \<open>Search and replace\<close>

text \<open>
  The inner loop of both searches: the search text is a string of \<open>char\<close>, which is signed, the buffer
  holds \<open>unsigned char\<close>. The result tells whether the whole text was found, and where the scan stopped.
\<close>

fun match_at :: "env \<Rightarrow> buffer \<Rightarrow> (int \<Rightarrow> bool) \<Rightarrow> u8 list \<Rightarrow> int \<Rightarrow> (bool \<times> int) option" where
  "match_at e b inside [] pp = do { c \<leftarrow> getc e b pp; Some (True, pp) }"
| "match_at e b inside (x # s) pp =
     do {
       c \<leftarrow> getc e b pp;
       if sint x = uint c \<and> inside pp then match_at e b inside s (pp + 1) else Some (False, pp)
     }"

function search_up :: "env \<Rightarrow> u8 list \<Rightarrow> buffer \<Rightarrow> int \<Rightarrow> int \<Rightarrow> int option" where
  "search_up e stext b end_p p =
     (if p < end_p then
        do {
          (found, pp) \<leftarrow> match_at e b (\<lambda>pp. pp < end_p) stext p;
          if found then Some pp else search_up e stext b end_p (p + 1)
        }
      else Some (- 1))"
  by auto
termination by (relation "measure (\<lambda>(e, stext, b, end_p, p). nat (end_p - p))") auto

definition search_forward :: "env \<Rightarrow> u8 list \<Rightarrow> buffer \<Rightarrow> int option" where
  "search_forward e stext b =
     do {
       end_p \<leftarrow> end_pos b;
       if stext = [] then Some (b_point b) else search_up e stext b end_p (b_point b)
     }"

function search_down :: "env \<Rightarrow> u8 list \<Rightarrow> buffer \<Rightarrow> int \<Rightarrow> int option" where
  "search_down e stext b p =
     (if 0 < p then
        do {
          (found, pp) \<leftarrow> match_at e b (\<lambda>pp. 0 < pp) stext p;
          if found then Some (if 0 < p then p - 1 else p) else search_down e stext b (p - 1)
        }
      else Some (- 1))"
  by auto
termination by (relation "measure (\<lambda>(e, stext, b, p). nat p)") auto

declare search_up.simps [simp del] search_down.simps [simp del]

definition search_backwards :: "env \<Rightarrow> u8 list \<Rightarrow> buffer \<Rightarrow> int option" where
  "search_backwards e stext b = (if stext = [] then Some (b_point b) else search_down e stext b (b_point b))"

text \<open>What the search command does with a result of either search.\<close>

definition goto_found :: "bool \<Rightarrow> int \<Rightarrow> buffer \<Rightarrow> buffer option" where
  "goto_found fwd found b =
     (if found \<noteq> - 1 then Some (b\<lparr>b_point := found\<rparr>)
      else if fwd then Some (b\<lparr>b_point := 0\<rparr>) else at_point (end_pos b) b)"

text \<open>One substitution of \<open>query_replace\<close>: the point is at the start of the match that ends at \<open>found\<close>.\<close>

definition make_room :: "env \<Rightarrow> nat \<Rightarrow> nat \<Rightarrow> int \<Rightarrow> buffer \<Rightarrow> buffer outcome" where
  "make_room e slen rlen found b =
     (if slen < rlen then
        (case movegap b found of
           None \<Rightarrow> Stray
         | Some (b, _) \<Rightarrow>
             (case (if rlen - slen < b_egap b - b_gap b then growgap e b (rlen - slen) else Refused) of
                Grown b \<Rightarrow> Done (b\<lparr>b_gap := b_gap b + (rlen - slen)\<rparr>)
              | Refused \<Rightarrow> Done (b\<lparr>b_gap := b_gap b + (rlen - slen)\<rparr>)
              | Fatal \<Rightarrow> Exit
              | Lost \<Rightarrow> Stray))
      else if rlen < slen then
        (case movegap b found of
           None \<Rightarrow> Stray
         | Some (b, _) \<Rightarrow> if b_gap b < slen - rlen then Stray else Done (b\<lparr>b_gap := b_gap b - (slen - rlen)\<rparr>))
      else Done b)"

definition substitute :: "env \<Rightarrow> u8 list \<Rightarrow> u8 list \<Rightarrow> int \<Rightarrow> buffer \<Rightarrow> buffer outcome" where
  "substitute e stext rtext found b =
     (case make_room e (length stext) (length rtext) found b of
        Exit \<Rightarrow> Exit
      | Stray \<Rightarrow> Stray
      | Done b \<Rightarrow>
          (case put_block (b_buf b) (ptr b (b_point b)) rtext of
             None \<Rightarrow> Stray
           | Some m \<Rightarrow> Done (b\<lparr>b_buf := m, b_modified := True,
                              b_point := found - (int (length stext) - int (length rtext))\<rparr>)))"

text \<open>
  The loop of \<open>query_replace\<close> on the answers that the user types; \<open>Help\<close> stands for every key that
  shows the help text and asks again. The result has the buffer and the number of substitutions; it is
  \<open>None\<close> when the loop still waits for a key, or when the fuel, which bounds the searches, is used up.
\<close>

datatype answer = Yes | No | All | Quit | Help

fun query_loop :: "nat \<Rightarrow> env \<Rightarrow> u8 list \<Rightarrow> u8 list \<Rightarrow> answer list \<Rightarrow> bool \<Rightarrow> int \<Rightarrow> int \<Rightarrow> nat \<Rightarrow> buffer \<Rightarrow>
    (buffer \<times> nat) outcome option" where
  "query_loop 0 e stext rtext keys ask o_point l_point numsub b = None"
| "query_loop (Suc fuel) e stext rtext keys ask o_point l_point numsub b =
     (case search_forward e stext b of
        None \<Rightarrow> Some Stray
      | Some found \<Rightarrow>
          if found = - 1 then
            Some (Done (b\<lparr>b_point := (if l_point = - 1 then o_point else l_point)\<rparr>, numsub))
          else
            (let b = b\<lparr>b_point := found - int (length stext)\<rparr>;
                 subst = (\<lambda>keys ask.
                   (case substitute e stext rtext found b of
                      Exit \<Rightarrow> Some Exit
                    | Stray \<Rightarrow> Some Stray
                    | Done b' \<Rightarrow>
                        query_loop fuel e stext rtext keys ask o_point (b_point b) (Suc numsub) b'))
             in if \<not> ask then subst keys False
                else
                  (case dropWhile (\<lambda>k. k = Help) keys of
                     [] \<Rightarrow> None
                   | Yes # keys \<Rightarrow> subst keys True
                   | All # keys \<Rightarrow> subst keys False
                   | No # keys \<Rightarrow>
                       query_loop fuel e stext rtext keys True o_point l_point numsub (b\<lparr>b_point := found\<rparr>)
                   | _ # _ \<Rightarrow> Some (Done (b, numsub)))))"

end
