(* ===== verification/Atto_Proofs.thy ===== *)
theory Atto_Proofs
  imports Atto
begin

text \<open>
  The buffer of \<open>atto\<close> as a text with a position: moving and enlarging the gap does not change the
  text, the editing commands do to it what their names say, undo takes them back, cut and paste,
  search, replace, load and save are characterised, with the cases in which the commands fail.
\<close>

section \<open>Definitions\<close>

text \<open>The text of a buffer is what lies outside the gap.\<close>

definition gap_wf :: "buffer \<Rightarrow> bool" where
  "gap_wf b = (b_gap b \<le> b_egap b \<and> b_egap b \<le> b_ebuf b)"

definition text_of :: "buffer \<Rightarrow> u8 list" where
  "text_of b = take (b_gap b) (b_buf b) @ drop (b_egap b) (b_buf b)"

definition point_ok :: "buffer \<Rightarrow> bool" where
  "point_ok b = (0 \<le> b_point b \<and> b_point b \<le> int (length (text_of b)))"

text \<open>The gap was moved to \<open>off\<close>: nothing else changes.\<close>

definition gap_moved :: "buffer \<Rightarrow> nat \<Rightarrow> buffer \<Rightarrow> bool" where
  "gap_moved b k b' =
     (\<exists>m. b' = b\<lparr>b_buf := m, b_gap := k, b_egap := k + (b_egap b - b_gap b)\<rparr> \<and> length m = b_ebuf b \<and>
       take k m = take k (text_of b) \<and> drop (k + (b_egap b - b_gap b)) m = drop k (text_of b) \<and>
       (k < b_gap b \<longrightarrow> take (k + (b_egap b - b_gap b)) m = take (k + (b_egap b - b_gap b)) (b_buf b)))"

text \<open>The abstract editor: a text and a position in it.\<close>

definition type_at :: "bool \<Rightarrow> u8 \<Rightarrow> u8 list \<Rightarrow> nat \<Rightarrow> u8 list" where
  "type_at over c t k =
     (if over \<and> c \<noteq> CR \<and> k < length t \<and> t ! k \<noteq> NL then t[k := c]
      else take k t @ (if c = CR then NL else c) # drop k t)"

text \<open>The region between the mark and the point: its start and its length.\<close>

definition region :: "buffer \<Rightarrow> nat \<times> nat" where
  "region b = (let p = nat (b_point b); k = nat (b_mark b) in if p < k then (p, k - p) else (k, p - k))"

definition mark_set :: "buffer \<Rightarrow> bool" where
  "mark_set b = (0 \<le> b_mark b \<and> b_mark b \<le> int (length (text_of b)) \<and> b_mark b \<noteq> b_point b)"

text \<open>The region is saved right when the gap is not in the way.\<close>

definition gap_clear :: "buffer \<Rightarrow> bool" where
  "gap_clear b = (case region b of (s, n) \<Rightarrow> b_gap b \<le> s \<or> (s + n \<le> b_gap b \<and> n \<le> b_egap b - b_gap b))"

text \<open>The text \<open>abcd\<close> with a gap of three bytes in the middle.\<close>

definition sample_buffer :: buffer where
  "sample_buffer = buffer_init\<lparr>b_buf := [97, 98, 0, 0, 0, 99, 100], b_gap := 2, b_egap := 5, b_point := 2, b_mark := 4\<rparr>"

definition sample_env :: env where
  "sample_env = \<lparr>alloc = (\<lambda>n. True), junk = (\<lambda>i. 0), behind = 0\<rparr>"

definition sample_editor :: editor where
  "sample_editor = \<lparr>curbp = sample_buffer, scrap = None, nscrap = 0\<rparr>"

text \<open>The keys that edit or move by one character, and what they mean for a text and a position.\<close>

datatype edit = Type u8 | Backspace | Delete | Left | Right | Top | Bottom

fun run_edit :: "env \<Rightarrow> edit \<Rightarrow> buffer \<Rightarrow> buffer outcome" where
  "run_edit e (Type c) b = insert_cmd e c b"
| "run_edit e Backspace b = outcome_of (backsp b)"
| "run_edit e Delete b = outcome_of (delete_cmd b)"
| "run_edit e Left b = Done (left b)"
| "run_edit e Right b = outcome_of (right b)"
| "run_edit e Top b = Done (top_cmd b)"
| "run_edit e Bottom b = outcome_of (bottom b)"

fun edit_text :: "bool \<Rightarrow> edit \<Rightarrow> u8 list \<times> nat \<Rightarrow> u8 list \<times> nat" where
  "edit_text over (Type c) (t, k) = (type_at over c t k, Suc k)"
| "edit_text over Backspace (t, k) = (take (k - 1) t @ drop k t, k - 1)"
| "edit_text over Delete (t, k) = (take k t @ drop (Suc k) t, k)"
| "edit_text over Left (t, k) = (t, k - 1)"
| "edit_text over Right (t, k) = (t, min (Suc k) (length t))"
| "edit_text over Top (t, k) = (t, 0)"
| "edit_text over Bottom (t, k) = (t, length t)"

fun run_all :: "('c \<Rightarrow> 's \<Rightarrow> 's outcome) \<Rightarrow> 'c list \<Rightarrow> 's \<Rightarrow> 's outcome" where
  "run_all run [] b = Done b"
| "run_all run (c # cs) b = (case run c b of Done b \<Rightarrow> run_all run cs b | r \<Rightarrow> r)"

definition editable :: "env \<Rightarrow> bool \<Rightarrow> nat \<Rightarrow> buffer \<Rightarrow> bool" where
  "editable e over n b = (gap_wf b \<and> point_ok b \<and> b_overwrite b = over \<and> (\<forall>k. alloc e k) \<and>
     length (text_of b) + n + CHUNK < 2 ^ 63)"

definition view :: "buffer \<Rightarrow> u8 list \<times> nat" where
  "view b = (text_of b, nat (b_point b))"



text \<open>What one substitution relies on: a gap that is wide enough, and not inside the match.\<close>

definition replace_fits :: "nat \<Rightarrow> nat \<Rightarrow> nat \<Rightarrow> buffer \<Rightarrow> bool" where
  "replace_fits slen rlen found b =
     (if slen < rlen then rlen - slen < b_egap b - b_gap b
      else if rlen < slen then True else b_gap b + slen \<le> found \<or> found \<le> b_gap b)"

section \<open>Lemmas\<close>

subsection \<open>The gap\<close>

lemma text_length: "gap_wf b \<Longrightarrow> length (text_of b) = b_ebuf b - (b_egap b - b_gap b)"
  by (simp add: gap_wf_def text_of_def)

lemma gap_down_spec:
  "p \<le> g \<Longrightarrow> g \<le> e \<Longrightarrow> e \<le> length m \<Longrightarrow> \<exists>m'. gap_down m g e p = Some (m', p, e - (g - p)) \<and>
     length m' = length m \<and> take (e - (g - p)) m' = take (e - (g - p)) m \<and> drop (e - (g - p)) m' = drop p (take g m) @ drop e m"
proof (induction "g - p" arbitrary: m g e)
  case 0
  then show ?case by (simp add: gap_down.simps)
next
  case (Suc k)
  then have g: "p < g" "0 < e" "k = (g - 1) - p" by auto
  let ?m = "m[e - 1 := m ! (g - 1)]"
  have step: "gap_down m g e p = gap_down ?m (g - 1) (e - 1) p"
    using g Suc.prems by (subst gap_down.simps) simp
  have pr: "p \<le> g - 1" "g - 1 \<le> e - 1" "e - 1 \<le> length ?m" using g Suc.prems by simp_all
  obtain m' where m': "gap_down ?m (g - 1) (e - 1) p = Some (m', p, e - 1 - (g - 1 - p))"
    "length m' = length ?m" "take (e - 1 - (g - 1 - p)) m' = take (e - 1 - (g - 1 - p)) ?m"
    "drop (e - 1 - (g - 1 - p)) m' = drop p (take (g - 1) ?m) @ drop (e - 1) ?m"
    using Suc.hyps(1) [OF g(3) pr] by blast
  have e: "e - 1 - (g - 1 - p) = e - (g - p)" using g by simp
  have "take (e - (g - p)) ?m = take (e - (g - p)) m" using g Suc.prems by simp
  moreover have "drop p (take (g - 1) ?m) @ drop (e - 1) ?m = drop p (take g m) @ drop e m"
  proof -
    have "take (g - 1) ?m = take (g - 1) m" using Suc.prems g by simp
    moreover have "drop (e - 1) ?m = m ! (g - 1) # drop e m"
      using g Suc.prems by (simp add: drop_update_swap Cons_nth_drop_Suc [symmetric])
    moreover have "take g m = take (g - 1) m @ [m ! (g - 1)]"
      using g Suc.prems take_Suc_conv_app_nth [of "g - 1" m] by simp
    ultimately show ?thesis using g Suc.prems by simp
  qed
  ultimately show ?case unfolding step using m' [unfolded e] by (intro exI [of _ m'] conjI) simp_all
qed

lemma gap_up_spec:
  "g \<le> e \<Longrightarrow> e \<le> p \<Longrightarrow> p \<le> length m \<Longrightarrow> \<exists>m'. gap_up m g e p = Some (m', g + (p - e), p) \<and>
     length m' = length m \<and> take (g + (p - e)) m' = take g m @ take (p - e) (drop e m) \<and> drop p m' = drop p m"
proof (induction "p - e" arbitrary: m g e)
  case 0
  then show ?case by (simp add: gap_up.simps)
next
  case (Suc k)
  then have e: "e < p" "k = p - Suc e" by auto
  let ?m = "m[g := m ! e]"
  have step: "gap_up m g e p = gap_up ?m (Suc g) (Suc e) p"
    using e Suc.prems by (subst gap_up.simps) simp
  have pr: "Suc g \<le> Suc e" "Suc e \<le> p" "p \<le> length ?m" using e Suc.prems by simp_all
  obtain m' where m': "gap_up ?m (Suc g) (Suc e) p = Some (m', Suc g + (p - Suc e), p)"
    "length m' = length ?m" "take (Suc g + (p - Suc e)) m' = take (Suc g) ?m @ take (p - Suc e) (drop (Suc e) ?m)"
    "drop p m' = drop p ?m"
    using Suc.hyps(1) [OF e(2) pr] by blast
  have i: "Suc g + (p - Suc e) = g + (p - e)" using e by simp
  have "take (Suc g) ?m = take g m @ [m ! e]"
    using e Suc.prems by (simp add: take_Suc_conv_app_nth)
  moreover have "drop (Suc e) ?m = drop (Suc e) m" "drop p ?m = drop p m" using e Suc.prems by simp_all
  moreover have "take (p - e) (drop e m) = m ! e # take (p - Suc e) (drop (Suc e) m)"
    using e Suc.prems by (simp add: Cons_nth_drop_Suc [symmetric] take_Suc_conv_app_nth Suc_diff_Suc [symmetric])
  ultimately show ?case unfolding step using m' [unfolded i] by (intro exI [of _ m'] conjI) simp_all
qed

lemma movegap_spec:
  assumes wf: "gap_wf b" and off: "0 \<le> off" "off \<le> int (length (text_of b))"
  obtains m where "movegap b off =
      Some (b\<lparr>b_buf := m, b_gap := nat off, b_egap := nat off + (b_egap b - b_gap b)\<rparr>, off)"
    "length m = b_ebuf b" "take (nat off) m = take (nat off) (text_of b)"
    "drop (nat off + (b_egap b - b_gap b)) m = drop (nat off) (text_of b)"
    "nat off < b_gap b \<longrightarrow> take (nat off + (b_egap b - b_gap b)) m = take (nat off + (b_egap b - b_gap b)) (b_buf b)"
proof -
  let ?g = "b_gap b" and ?e = "b_egap b" and ?k = "nat off"
  let ?d = "?e - ?g"
  have w: "?g \<le> ?e" "?e \<le> b_ebuf b" using wf by (simp_all add: gap_wf_def)
  have k: "?k \<le> b_ebuf b - ?d" "int ?k = off" using off text_length [OF wf] by auto
  have bd: "?k \<le> ?k + ?d \<and> ?k + ?d \<le> b_ebuf b" using k w by auto
  have pos: "pos (b\<lparr>b_buf := m, b_gap := ?k, b_egap := ?k + ?d\<rparr>) (?k + ?d) = Some off" if "length m = b_ebuf b" for m
    using k w that by (simp add: pos_def)
  show thesis
  proof (cases "?k < ?g")
    case True
    then have p: "ptr b off = ?k" using off by (simp add: ptr_def)
    obtain m where m: "gap_down (b_buf b) ?g ?e ?k = Some (m, ?k, ?e - (?g - ?k))" "length m = b_ebuf b"
      "take (?e - (?g - ?k)) m = take (?e - (?g - ?k)) (b_buf b)" "drop (?e - (?g - ?k)) m = drop ?k (take ?g (b_buf b)) @ drop ?e (b_buf b)"
      using gap_down_spec [of ?k ?g ?e "b_buf b"] True w by auto
    have e: "?e - (?g - ?k) = ?k + ?d" using True w by simp
    have "gap_up m ?k (?k + ?d) ?k = Some (m, ?k, ?k + ?d)" by (simp add: gap_up.simps)
    then have "movegap b off = Some (b\<lparr>b_buf := m, b_gap := ?k, b_egap := ?k + ?d\<rparr>, off)"
      using p m e bd pos [OF m(2)] by (simp add: movegap_def Let_def)
    moreover have "take ?k (text_of b) = take ?k (b_buf b)" "drop ?k (text_of b) = drop ?k (take ?g (b_buf b)) @ drop ?e (b_buf b)"
      using True w by (simp_all add: text_of_def min_def)
    moreover have "take ?k m = take ?k (b_buf b)"
      using arg_cong [where f = "take ?k", OF m(3)] unfolding e by simp
    ultimately show thesis using that m(2-4) e by simp
  next
    case False
    then have p: "ptr b off = ?k + ?d" using off by (simp add: ptr_def)
    have dn: "gap_down (b_buf b) ?g ?e (?k + ?d) = Some (b_buf b, ?g, ?e)"
      using False by (subst gap_down.simps) simp
    have le: "?e \<le> ?k + ?d" "?k + ?d \<le> b_ebuf b" using False w k by auto
    obtain m where m: "gap_up (b_buf b) ?g ?e (?k + ?d) = Some (m, ?g + (?k + ?d - ?e), ?k + ?d)"
      "length m = b_ebuf b" "take (?g + (?k + ?d - ?e)) m = take ?g (b_buf b) @ take (?k + ?d - ?e) (drop ?e (b_buf b))"
      "drop (?k + ?d) m = drop (?k + ?d) (b_buf b)"
      using gap_up_spec [OF w(1) le] by blast
    have g: "?g + (?k + ?d - ?e) = ?k" using False w by simp
    have "movegap b off = Some (b\<lparr>b_buf := m, b_gap := ?k, b_egap := ?k + ?d\<rparr>, off)"
      using p dn m g bd pos [OF m(2)] by (simp add: movegap_def Let_def)
    moreover have "take ?k (text_of b) = take ?g (b_buf b) @ take (?k + ?d - ?e) (drop ?e (b_buf b))"
      using False w by (simp add: text_of_def) 
    moreover have "drop ?k (text_of b) = drop (?k + ?d) (b_buf b)"
      using False w by (simp add: text_of_def)
    ultimately show thesis using that m(2-4) g False by simp
  qed
qed

lemma movegap_moved:
  assumes "gap_wf b" "0 \<le> off" "off \<le> int (length (text_of b))"
  obtains b' where "movegap b off = Some (b', off)" "gap_moved b (nat off) b'"
  using movegap_spec [OF assms] unfolding gap_moved_def by blast

lemma gap_movedD:
  assumes "gap_moved b k b'" "gap_wf b" "k \<le> length (text_of b)"
  shows "gap_wf b'" "text_of b' = text_of b" "b_gap b' = k" "b_egap b' = k + (b_egap b - b_gap b)"
    "b_ebuf b' = b_ebuf b" "take k (b_buf b') = take k (text_of b)"
    "drop (k + (b_egap b - b_gap b)) (b_buf b') = drop k (text_of b)"
    "b_point b' = b_point b" "b_mark b' = b_mark b" "b_overwrite b' = b_overwrite b" "b_modified b' = b_modified b"
    "b_ubuf b' = b_ubuf b" "b_col b' = b_col b" "b_page b' = b_page b" "b_epage b' = b_epage b" "b_row b' = b_row b"
    "k < b_gap b \<Longrightarrow> take (k + (b_egap b - b_gap b)) (b_buf b') = take (k + (b_egap b - b_gap b)) (b_buf b)"
proof -
  obtain m where m: "b' = b\<lparr>b_buf := m, b_gap := k, b_egap := k + (b_egap b - b_gap b)\<rparr>" "length m = b_ebuf b"
    "take k m = take k (text_of b)" "drop (k + (b_egap b - b_gap b)) m = drop k (text_of b)"
    using assms(1) unfolding gap_moved_def by blast
  show "gap_wf b'" using m(1,2) assms(2,3) text_length [OF assms(2)] by (auto simp: gap_wf_def)
  have "text_of b' = take k m @ drop (k + (b_egap b - b_gap b)) m" using m(1) by (simp add: text_of_def)
  then show "text_of b' = text_of b" unfolding m(3,4) by simp
qed (use assms(1) in \<open>auto simp: gap_moved_def\<close>)

lemma shift_up_spec:
  "k \<le> src \<Longrightarrow> src \<le> dst \<Longrightarrow> dst \<le> length m \<Longrightarrow> \<exists>m'. shift_up k m dst src = Some m' \<and> length m' = length m \<and>
     take (dst - k) m' = take (dst - k) m \<and> drop (dst - k) m' = take k (drop (src - k) m) @ drop dst m"
proof (induction k arbitrary: m dst src)
  case (Suc k)
  let ?m = "m[dst - 1 := m ! (src - 1)]"
  have i: "0 < src" "0 < dst" "src - 1 < length m" "dst - 1 < length m" using Suc.prems by auto
  have pr: "k \<le> src - 1" "src - 1 \<le> dst - 1" "dst - 1 \<le> length ?m" using Suc.prems by auto
  obtain m' where m': "shift_up k ?m (dst - 1) (src - 1) = Some m'" "length m' = length ?m"
    "take (dst - 1 - k) m' = take (dst - 1 - k) ?m"
    "drop (dst - 1 - k) m' = take k (drop (src - 1 - k) ?m) @ drop (dst - 1) ?m"
    using Suc.IH [OF pr] by blast
  have e: "dst - 1 - k = dst - Suc k" "src - 1 - k = src - Suc k" by simp_all
  have "take (dst - Suc k) ?m = take (dst - Suc k) m" by simp
  moreover have "take k (drop (src - Suc k) ?m) @ drop (dst - 1) ?m = take (Suc k) (drop (src - Suc k) m) @ drop dst m"
  proof -
    have "take k (drop (src - Suc k) ?m) = take k (drop (src - Suc k) m)"
      using Suc.prems by (simp add: take_drop [symmetric] del: take_drop) (simp add: take_drop)
    moreover have "drop (dst - 1) ?m = m ! (src - 1) # drop dst m"
      using i by (simp add: drop_update_swap Cons_nth_drop_Suc [symmetric])
    moreover have "take (Suc k) (drop (src - Suc k) m) = take k (drop (src - Suc k) m) @ [m ! (src - 1)]"
      using Suc.prems i by (simp add: take_Suc_conv_app_nth)
    ultimately show ?thesis by simp
  qed
  moreover have "shift_up (Suc k) m dst src = Some m'" using m'(1) i by simp
  ultimately show ?case using m' [unfolded e] by (intro exI [of _ m'] conjI) simp_all
qed simp

lemma growgap_spec:
  assumes wf: "gap_wf b"
  shows "growgap e b n \<noteq> Lost"
    and "growgap e b n = Grown b' \<Longrightarrow> gap_wf b' \<and> text_of b' = text_of b \<and> b_gap b' = b_gap b \<and>
      b_egap b' = b_egap b + max n 512 \<and> b_ebuf b' = b_ebuf b + max n 512 \<and>
      b_point b' = b_point b \<and> b_mark b' = b_mark b \<and> b_overwrite b' = b_overwrite b \<and>
      b_modified b' = b_modified b \<and> b_ubuf b' = b_ubuf b \<and> b_col b' = b_col b"
    and "alloc e (b_ebuf b + max n 512) \<Longrightarrow> b_ebuf b + max n 512 < 2 ^ 63 \<Longrightarrow> \<exists>b'. growgap e b n = Grown b'"
    and "growgap e b n = Fatal \<Longrightarrow> b_buf b = []"
proof -
  define k where "k = max n 512"
  have w: "b_gap b \<le> b_egap b" "b_egap b \<le> b_ebuf b" using wf by (simp_all add: gap_wf_def)
  have mx: "(if n < MIN_GAP_EXPAND then MIN_GAP_EXPAND else n) = k" by (simp add: MIN_GAP_EXPAND_def k_def)
  let ?m = "b_buf b @ map (junk e) [b_ebuf b..<b_ebuf b + k]"
  obtain m where m: "shift_up (b_ebuf b - b_egap b) ?m (b_ebuf b + k) (b_ebuf b) = Some m" "length m = length ?m"
    "take (b_ebuf b + k - (b_ebuf b - b_egap b)) m = take (b_ebuf b + k - (b_ebuf b - b_egap b)) ?m"
    "drop (b_ebuf b + k - (b_ebuf b - b_egap b)) m
      = take (b_ebuf b - b_egap b) (drop (b_ebuf b - (b_ebuf b - b_egap b)) ?m) @ drop (b_ebuf b + k) ?m"
    using shift_up_spec [of "b_ebuf b - b_egap b" "b_ebuf b" "b_ebuf b + k" ?m] by auto
  have i: "b_ebuf b + k - (b_ebuf b - b_egap b) = b_egap b + k" "b_ebuf b - (b_ebuf b - b_egap b) = b_egap b"
    using w by simp_all
  have t: "take (b_gap b) m = take (b_gap b) (b_buf b)"
  proof -
    have "take (b_gap b) (take (b_egap b + k) m) = take (b_gap b) (take (b_egap b + k) ?m)" using m(3) i by simp
    then show ?thesis using w by (simp add: min_def)
  qed
  have d: "drop (b_egap b + k) m = drop (b_egap b) (b_buf b)" using m(4) w unfolding i by simp
  let ?b = "b\<lparr>b_buf := m, b_egap := b_egap b + k\<rparr>"
  have g: "growgap e b n = (if 2 ^ 63 \<le> int (b_ebuf b + k) \<or> \<not> alloc e (b_ebuf b + k)
      then (if b_ebuf b = 0 then Fatal else Refused) else Grown ?b)"
    unfolding growgap_def mx Let_def using w m(1) i(1) by simp
  show "growgap e b n \<noteq> Lost" using g by simp
  show "growgap e b n = Fatal \<Longrightarrow> b_buf b = []" using g by (simp split: if_splits)
  show "\<exists>b'. growgap e b n = Grown b'" if "alloc e (b_ebuf b + max n 512)" "b_ebuf b + max n 512 < 2 ^ 63"
  proof -
    have "int (b_ebuf b + k) < int (2 ^ 63)" using that(2) unfolding k_def of_nat_less_iff .
    then have "int (b_ebuf b + k) < 2 ^ 63" by simp
    then show ?thesis using g that(1) by (simp add: k_def)
  qed
  have "gap_wf ?b" "text_of ?b = text_of b" "b_ebuf ?b = b_ebuf b + k"
    using w m(2) t d by (simp_all add: gap_wf_def text_of_def)
  then show "growgap e b n = Grown b' \<Longrightarrow> gap_wf b' \<and> text_of b' = text_of b \<and> b_gap b' = b_gap b \<and>
      b_egap b' = b_egap b + max n 512 \<and> b_ebuf b' = b_ebuf b + max n 512 \<and>
      b_point b' = b_point b \<and> b_mark b' = b_mark b \<and> b_overwrite b' = b_overwrite b \<and>
      b_modified b' = b_modified b \<and> b_ubuf b' = b_ubuf b \<and> b_col b' = b_col b"
    using g by (auto simp: k_def split: if_splits)
qed

lemma end_pos_text: "gap_wf b \<Longrightarrow> end_pos b = Some (int (length (text_of b)))"
  by (auto simp: end_pos_def pos_def text_length gap_wf_def)

lemma pos_egap: "gap_wf b \<Longrightarrow> pos b (b_egap b) = Some (int (b_gap b))"
  by (auto simp: pos_def gap_wf_def)

lemma ptr_text: "gap_wf b \<Longrightarrow> k < length (text_of b) \<Longrightarrow> ptr b (int k) < b_ebuf b \<and> b_buf b ! ptr b (int k) = text_of b ! k"
  by (auto simp: ptr_def gap_wf_def text_of_def nth_append ac_simps)

lemma ptr_end: "gap_wf b \<Longrightarrow> ptr b (int (length (text_of b))) = b_ebuf b"
  by (auto simp: ptr_def gap_wf_def text_of_def)

lemma getc_text: "gap_wf b \<Longrightarrow> 0 \<le> off \<Longrightarrow> off < int (length (text_of b)) \<Longrightarrow> getc e b off = Some (text_of b ! nat off)"
  using ptr_text [of b "nat off"] by (simp add: getc_def)

lemma getc_end: "gap_wf b \<Longrightarrow> b_buf b \<noteq> [] \<Longrightarrow> getc e b (int (length (text_of b))) = Some (behind e)"
  by (simp add: getc_def ptr_end)

lemma gap_wf_frame [simp]:
  "gap_wf (b\<lparr>b_point := p\<rparr>) = gap_wf b" "gap_wf (b\<lparr>b_mark := p\<rparr>) = gap_wf b" "gap_wf (b\<lparr>b_modified := v\<rparr>) = gap_wf b"
  "gap_wf (b\<lparr>b_overwrite := v\<rparr>) = gap_wf b" "gap_wf (b\<lparr>b_ubuf := u\<rparr>) = gap_wf b" "gap_wf (b\<lparr>b_epage := p\<rparr>) = gap_wf b"
  "gap_wf (undoset b) = gap_wf b"
  by (simp_all add: gap_wf_def undoset_def)

lemma text_of_frame [simp]:
  "text_of (b\<lparr>b_point := p\<rparr>) = text_of b" "text_of (b\<lparr>b_mark := p\<rparr>) = text_of b"
  "text_of (b\<lparr>b_modified := v\<rparr>) = text_of b" "text_of (b\<lparr>b_overwrite := v\<rparr>) = text_of b"
  "text_of (b\<lparr>b_ubuf := u\<rparr>) = text_of b" "text_of (b\<lparr>b_epage := p\<rparr>) = text_of b" "text_of (undoset b) = text_of b"
  by (simp_all add: text_of_def undoset_def)

lemma undoset_fields [simp]:
  "b_buf (undoset b) = b_buf b" "b_gap (undoset b) = b_gap b" "b_egap (undoset b) = b_egap b"
  "b_point (undoset b) = b_point b" "b_mark (undoset b) = b_mark b" "b_overwrite (undoset b) = b_overwrite b"
  "b_modified (undoset b) = b_modified b" "b_ubuf (undoset b) = Some (b_point b, b_gap b, b_egap b)"
  by (simp_all add: undoset_def)

text \<open>A gap of some width at \<open>k\<close>, in terms of the text.\<close>

lemma gap_at_text:
  assumes "gap_wf b" "b_gap b = k"
  shows "take k (b_buf b) = take k (text_of b)" "drop (b_egap b) (b_buf b) = drop k (text_of b)" "k \<le> length (text_of b)"
  using assms by (auto simp: gap_wf_def text_of_def)

lemma text_of_gap: "text_of (b\<lparr>b_buf := m, b_gap := g, b_egap := e\<rparr>) = take g m @ drop e m"
  by (simp add: text_of_def)

subsection \<open>Editing\<close>

lemma overwrites_spec:
  assumes "gap_wf b" "point_ok b" "b_buf b \<noteq> []"
  shows "overwrites e c b = Some (b_overwrite b \<and> c \<noteq> CR \<and> nat (b_point b) < length (text_of b) \<and>
    text_of b ! nat (b_point b) \<noteq> NL)"
proof (cases "b_point b < int (length (text_of b))")
  case True
  then have "getc e b (b_point b) = Some (text_of b ! nat (b_point b))"
    using assms by (simp add: point_ok_def getc_text)
  then show ?thesis using True assms(1,2) by (auto simp: overwrites_def end_pos_text point_ok_def nat_less_iff)
next
  case False
  then have "b_point b = int (length (text_of b))" using assms(2) by (simp add: point_ok_def)
  then show ?thesis using assms(1,3) by (auto simp: overwrites_def end_pos_text getc_end)
qed

lemma put_key_spec:
  assumes wf: "gap_wf b" and pt: "point_ok b" and room: "b_gap b < b_egap b"
  obtains b' where "put_key e c b = Some b'" "gap_wf b'"
    "text_of b' = type_at (b_overwrite b) c (text_of b) (nat (b_point b))" "b_point b' = b_point b + 1"
    "b_overwrite b' = b_overwrite b" "b_modified b'" "b_mark b' = b_mark b"
proof -
  define k where "k = nat (b_point b)"
  have k: "b_point b = int k" "k \<le> length (text_of b)" using pt by (auto simp: point_ok_def k_def)
  obtain b1 where mv: "movegap b (b_point b) = Some (b1, b_point b)" and gm: "gap_moved b k b1"
    using movegap_moved [OF wf, of "b_point b"] pt unfolding point_ok_def k_def by blast
  note b1 = gap_movedD [OF gm wf k(2)]
  define d where "d = b_egap b - b_gap b"
  have d: "0 < d" "b_egap b1 = k + d" using room b1(4) by (simp_all add: d_def)
  have len: "k + d \<le> length (b_buf b1)" using b1(1) d(2) by (simp add: gap_wf_def)
  have nb: "b_buf b1 \<noteq> []" using len d by auto
  let ?b = "b1\<lparr>b_point := int k\<rparr>"
  have pk: "point_ok ?b" using k b1(2) by (simp add: point_ok_def)
  have ov: "overwrites e c ?b = Some (b_overwrite b \<and> c \<noteq> CR \<and> k < length (text_of b) \<and> text_of b ! k \<noteq> NL)"
    using overwrites_spec [OF _ pk, of e c] b1(1,2,10) nb by simp
  have tk: "take k (b_buf b1) = take k (text_of b)" "drop (k + d) (b_buf b1) = drop k (text_of b)"
    using b1(6,7) by (simp_all add: d_def)
  show thesis
  proof (cases "b_overwrite b \<and> c \<noteq> CR \<and> k < length (text_of b) \<and> text_of b ! k \<noteq> NL")
    case True
    have pe: "ptr ?b (int k) = k + d" using b1(3) d(2) by (simp add: ptr_def)
    have lt: "k + d < length (b_buf b1)"
    proof -
      have "drop (k + d) (b_buf b1) \<noteq> []" using tk(2) True by auto
      then show ?thesis by (simp add: not_le [symmetric])
    qed
    let ?c = "b1\<lparr>b_point := int k, b_buf := (b_buf b1)[k + d := c]\<rparr>"
    have wfc: "gap_wf ?c" using b1(1,3) d(2) by (simp add: gap_wf_def)
    have t: "text_of ?c = (text_of b)[k := c]"
    proof -
      have "text_of ?c = take k (b_buf b1) @ (drop (k + d) (b_buf b1))[0 := c]"
        using b1(3) d lt by (simp add: text_of_def drop_update_swap)
      also have "\<dots> = take k (text_of b) @ (drop k (text_of b))[0 := c]" by (simp only: tk)
      also have "\<dots> = (take k (text_of b) @ drop k (text_of b))[k := c]" using k(2) by (simp add: list_update_append del: append_take_drop_id)
      finally show ?thesis by simp
    qed
    have ep: "end_pos ?c = Some (int (length (text_of b)))" using end_pos_text [OF wfc] t by simp
    show thesis
    proof (rule that)
      show "put_key e c b = Some (?c\<lparr>b_point := int k + 1, b_modified := True\<rparr>)"
        unfolding put_key_def mv using ov True pe lt ep k(1) by (simp add: Let_def)
      show "gap_wf (?c\<lparr>b_point := int k + 1, b_modified := True\<rparr>)" using wfc by (simp add: gap_wf_def)
      show "text_of (?c\<lparr>b_point := int k + 1, b_modified := True\<rparr>) = type_at (b_overwrite b) c (text_of b) (nat (b_point b))"
        using t True by (simp add: type_at_def k_def [symmetric] text_of_frame(1,3) del: text_of_frame)
          (simp add: text_of_def)
    qed (use k(1) b1(9,10) in simp_all)
  next
    case False
    let ?x = "if c = CR then NL else c"
    let ?c = "b1\<lparr>b_point := int k, b_buf := (b_buf b1)[k := ?x], b_gap := k + 1\<rparr>"
    have wfc: "gap_wf ?c" using b1(1,3) d by (simp add: gap_wf_def)
    have t: "text_of ?c = take k (text_of b) @ ?x # drop k (text_of b)"
    proof -
      have "take (k + 1) ((b_buf b1)[k := ?x]) = take k (b_buf b1) @ [?x]"
        using len d by (simp add: take_Suc_conv_app_nth)
      then show ?thesis using d tk by (simp add: text_of_def)
    qed
    have pe: "pos ?c (k + d) = Some (int k + 1)" using pos_egap [OF wfc] d(2) by simp
    have lt: "k < length (b_buf b1)" using len d by simp
    show thesis
    proof (rule that)
      show "put_key e c b = Some (?c\<lparr>b_point := int k + 1, b_modified := True\<rparr>)"
        unfolding put_key_def mv using ov False pe lt b1(3) d(2) k(1) by (auto simp add: Let_def)
      show "text_of (?c\<lparr>b_point := int k + 1, b_modified := True\<rparr>) = type_at (b_overwrite b) c (text_of b) (nat (b_point b))"
        using t False by (auto simp: type_at_def k_def [symmetric] text_of_def)
      show "gap_wf (?c\<lparr>b_point := int k + 1, b_modified := True\<rparr>)" using wfc by (simp add: gap_wf_def)
    qed (use k(1) b1(9,10) in simp_all)
  qed
qed

lemma insert_cmd_spec:
  assumes wf: "gap_wf b" and pt: "point_ok b" and room: "b_gap b < b_egap b \<or> growgap e b CHUNK = Grown bg"
  obtains b' where "insert_cmd e c b = Done b'" "gap_wf b'"
    "text_of b' = type_at (b_overwrite b) c (text_of b) (nat (b_point b))" "b_point b' = b_point b + 1"
    "b_overwrite b' = b_overwrite b" "b_modified b'" "b_mark b' = b_mark b"
proof (cases "b_gap b = b_egap b")
  case True
  then have g: "growgap e b CHUNK = Grown bg" using room by simp
  note bg = growgap_spec(2) [OF wf g]
  have f: "b_point bg = b_point b" "b_overwrite bg = b_overwrite b" "b_mark bg = b_mark b"
    using bg by simp_all
  have "gap_wf bg" "b_gap bg < b_egap bg" using bg True by auto
  have "point_ok bg" using pt bg f by (simp add: point_ok_def)
  note put_key_spec [OF \<open>gap_wf bg\<close> \<open>point_ok bg\<close> \<open>b_gap bg < b_egap bg\<close>, of e c]
  then obtain b' where "put_key e c bg = Some b'" "gap_wf b'"
    "text_of b' = type_at (b_overwrite bg) c (text_of bg) (nat (b_point bg))" "b_point b' = b_point bg + 1"
    "b_overwrite b' = b_overwrite bg" "b_modified b'" "b_mark b' = b_mark bg"
    by blast
  then show thesis using that [of b'] f bg g True by (simp add: insert_cmd_def outcome_of_def)
next
  case False
  then have lt: "b_gap b < b_egap b" using wf by (simp add: gap_wf_def)
  obtain b' where "put_key e c b = Some b'" "gap_wf b'"
    "text_of b' = type_at (b_overwrite b) c (text_of b) (nat (b_point b))" "b_point b' = b_point b + 1"
    "b_overwrite b' = b_overwrite b" "b_modified b'" "b_mark b' = b_mark b"
    by (rule put_key_spec [OF wf pt lt])
  then show thesis using that [of b'] lt by (simp add: insert_cmd_def outcome_of_def)
qed

text \<open>Every editing command first moves the gap to the point.\<close>

lemma gap_to_point:
  assumes wf: "gap_wf b" and pt: "point_ok b"
  obtains b1 k where "movegap b (b_point b) = Some (b1, int k)" "b_point b = int k" "k \<le> length (text_of b)"
    "gap_wf b1" "text_of b1 = text_of b" "b_gap b1 = k" "b_egap b1 = k + (b_egap b - b_gap b)" "b_ebuf b1 = b_ebuf b"
    "take k (b_buf b1) = take k (text_of b)" "drop (b_egap b1) (b_buf b1) = drop k (text_of b)"
    "b_mark b1 = b_mark b" "b_overwrite b1 = b_overwrite b" "b_modified b1 = b_modified b"
proof -
  define k where "k = nat (b_point b)"
  have k: "b_point b = int k" "k \<le> length (text_of b)" using pt by (auto simp: point_ok_def k_def)
  obtain b1 where mv: "movegap b (b_point b) = Some (b1, b_point b)" and gm: "gap_moved b k b1"
    using movegap_moved [OF wf, of "b_point b"] pt unfolding point_ok_def k_def by blast
  show thesis
    by (rule that [of b1 k]) (use mv k gap_movedD [OF gm wf k(2)] in simp_all)
qed

lemma text_of_fields: "b_gap c = g \<Longrightarrow> b_egap c = x \<Longrightarrow> take g (b_buf c) = t \<Longrightarrow> drop x (b_buf c) = u \<Longrightarrow> text_of c = t @ u"
  by (simp add: text_of_def)

lemma undo_restores:
  assumes "b_ubuf c = Some (p, g, x)" "take g (b_buf c) @ drop x (b_buf c) = t" "g \<le> x" "x \<le> b_ebuf c"
  shows "\<exists>b. undo c = Some b \<and> text_of b = t \<and> b_point b = p \<and> gap_wf b"
  using assms by (simp add: undo_def text_of_def gap_wf_def)

lemma backsp_spec:
  assumes wf: "gap_wf b" and pt: "point_ok b"
  obtains b' where "backsp b = Some b'" "gap_wf b'"
    "text_of b' = take (nat (b_point b) - 1) (text_of b) @ drop (nat (b_point b)) (text_of b)"
    "b_point b' = max 0 (b_point b - 1)" "b_overwrite b' = b_overwrite b" "b_mark b' = b_mark b"
    "\<exists>b''. undo b' = Some b'' \<and> text_of b'' = text_of b \<and> b_point b'' = b_point b \<and> gap_wf b''"
proof -
  obtain b1 k where mv: "movegap b (b_point b) = Some (b1, int k)" and k: "b_point b = int k" "k \<le> length (text_of b)"
    and b1: "gap_wf b1" "text_of b1 = text_of b" "b_gap b1 = k" "b_egap b1 = k + (b_egap b - b_gap b)" "b_ebuf b1 = b_ebuf b"
    and tk: "take k (b_buf b1) = take k (text_of b)" "drop (b_egap b1) (b_buf b1) = drop k (text_of b)"
    and f: "b_mark b1 = b_mark b" "b_overwrite b1 = b_overwrite b"
    by (rule gap_to_point [OF wf pt])
  let ?b = "undoset (b1\<lparr>b_point := int k\<rparr>)"
  show thesis
  proof (cases k)
    case 0
    have un: "take k (b_buf b1) @ drop (b_egap b1) (b_buf b1) = text_of b" using tk by simp
    have "pos ?b (b_egap b1) = Some 0" using pos_egap [of ?b] b1(1,3) 0 by simp
    then have e: "backsp b = Some (?b\<lparr>b_point := 0\<rparr>)" unfolding backsp_def mv using b1(3) 0 by (simp add: Let_def)
    show thesis
    proof (rule that [OF e])
      show "\<exists>b''. undo (?b\<lparr>b_point := 0\<rparr>) = Some b'' \<and> text_of b'' = text_of b \<and> b_point b'' = b_point b \<and> gap_wf b''"
        by (rule undo_restores [where g = k and x = "b_egap b1"]) (use b1 un k in \<open>simp_all add: gap_wf_def\<close>)
    qed (use b1 k f 0 in simp_all)
  next
    case (Suc n)
    let ?c = "?b\<lparr>b_gap := n, b_modified := True\<rparr>"
    have wfc: "gap_wf ?c" using b1(1,3) Suc by (simp add: gap_wf_def)
    have e: "backsp b = Some (?c\<lparr>b_point := int n\<rparr>)"
      unfolding backsp_def mv using b1(3) Suc pos_egap [OF wfc] by (simp add: Let_def)
    have nk: "nat (b_point b) = Suc n" using k Suc by simp
    have tn: "take n (b_buf b1) = take n (text_of b)"
      using arg_cong [where f = "take n", OF tk(1)] Suc by simp
    show thesis
    proof (rule that [OF e])
      show "text_of (?c\<lparr>b_point := int n\<rparr>) = take (nat (b_point b) - 1) (text_of b) @ drop (nat (b_point b)) (text_of b)"
        unfolding nk by (rule text_of_fields) (use tn tk(2) Suc k in simp_all)
      show "\<exists>b''. undo (?c\<lparr>b_point := int n\<rparr>) = Some b'' \<and> text_of b'' = text_of b \<and> b_point b'' = b_point b \<and> gap_wf b''"
        by (rule undo_restores [where g = k and x = "b_egap b1"]) (use b1 tk k in \<open>simp_all add: gap_wf_def\<close>)
    qed (use wfc k f Suc in \<open>simp_all add: gap_wf_def\<close>)
  qed
qed

lemma delete_cmd_spec:
  assumes wf: "gap_wf b" and pt: "point_ok b"
  obtains b' where "delete_cmd b = Some b'" "gap_wf b'"
    "text_of b' = take (nat (b_point b)) (text_of b) @ drop (Suc (nat (b_point b))) (text_of b)"
    "b_point b' = b_point b" "b_overwrite b' = b_overwrite b" "b_mark b' = b_mark b"
    "\<exists>b''. undo b' = Some b'' \<and> text_of b'' = text_of b \<and> b_point b'' = b_point b \<and> gap_wf b''"
proof -
  obtain b1 k where mv: "movegap b (b_point b) = Some (b1, int k)" and k: "b_point b = int k" "k \<le> length (text_of b)"
    and b1: "gap_wf b1" "text_of b1 = text_of b" "b_gap b1 = k" "b_egap b1 = k + (b_egap b - b_gap b)" "b_ebuf b1 = b_ebuf b"
    and tk: "take k (b_buf b1) = take k (text_of b)" "drop (b_egap b1) (b_buf b1) = drop k (text_of b)"
    and f: "b_mark b1 = b_mark b" "b_overwrite b1 = b_overwrite b"
    by (rule gap_to_point [OF wf pt])
  let ?b = "undoset (b1\<lparr>b_point := int k\<rparr>)"
  show thesis
  proof (cases "b_egap b1 < b_ebuf b1")
    case False
    then have e: "delete_cmd b = Some ?b" unfolding delete_cmd_def mv by (simp add: Let_def)
    have "drop k (text_of b) = []" using False tk(2) [symmetric] by simp
    then have d: "drop (Suc k) (text_of b) = []" "take k (text_of b) = text_of b" by auto
    show thesis
    proof (rule that [OF e])
      show "\<exists>b''. undo ?b = Some b'' \<and> text_of b'' = text_of b \<and> b_point b'' = b_point b \<and> gap_wf b''"
        by (rule undo_restores [where g = k and x = "b_egap b1"]) (use b1 tk k in \<open>simp_all add: gap_wf_def\<close>)
    qed (use b1 k f d in simp_all)
  next
    case True
    let ?c = "?b\<lparr>b_egap := b_egap b1 + 1\<rparr>"
    have wfc: "gap_wf ?c" using b1(1,3) True by (simp add: gap_wf_def)
    have e: "delete_cmd b = Some (?c\<lparr>b_point := int k, b_modified := True\<rparr>)"
      unfolding delete_cmd_def mv using b1(3) True pos_egap [OF wfc] by (simp add: Let_def)
    have dn: "drop (Suc (b_egap b1)) (b_buf b1) = drop (Suc k) (text_of b)"
      using arg_cong [where f = tl, OF tk(2)] by (simp add: drop_Suc tl_drop)
    show thesis
    proof (rule that [OF e])
      show "text_of (?c\<lparr>b_point := int k, b_modified := True\<rparr>)
          = take (nat (b_point b)) (text_of b) @ drop (Suc (nat (b_point b))) (text_of b)"
        by (rule text_of_fields) (use tk(1) dn b1(3) k in simp_all)
      show "\<exists>b''. undo (?c\<lparr>b_point := int k, b_modified := True\<rparr>) = Some b'' \<and> text_of b'' = text_of b \<and> b_point b'' = b_point b \<and> gap_wf b''"
        by (rule undo_restores [where g = k and x = "b_egap b1"]) (use b1 tk k in \<open>simp_all add: gap_wf_def\<close>)
    qed (use wfc k f in \<open>simp_all add: gap_wf_def\<close>)
  qed
qed

subsection \<open>Cut and paste\<close>

lemma put_block_spec:
  assumes "i + length xs \<le> length m"
  obtains m' where "put_block m i xs = Some m'" "length m' = length m" "take i m' = take i m"
    "take (i + length xs) m' = take i m @ xs" "drop (i + length xs) m' = drop (i + length xs) m"
proof -
  let ?m = "take i m @ xs @ drop (i + length xs) m"
  have mi: "min (length m) i = i" using assms by simp
  have "put_block m i xs = Some ?m" using assms by (simp add: put_block_def)
  moreover have "take i ?m = take i m" "take (i + length xs) ?m = take i m @ xs"
    "drop (i + length xs) ?m = drop (i + length xs) m" "length ?m = length m"
    using assms mi by simp_all
  ultimately show thesis using that [of ?m] by blast
qed

lemma paste_at_spec:
  assumes wf: "gap_wf b" and pt: "point_ok b" and room: "length xs \<le> b_egap b - b_gap b"
  obtains b' where "paste_at xs b = Some b'" "gap_wf b'"
    "text_of b' = take (nat (b_point b)) (text_of b) @ xs @ drop (nat (b_point b)) (text_of b)"
    "b_point b' = b_point b + int (length xs)" "b_mark b' = b_mark b"
    "\<exists>b''. undo b' = Some b'' \<and> text_of b'' = text_of b \<and> b_point b'' = b_point b \<and> gap_wf b''"
proof -
  obtain b1 k where mv: "movegap b (b_point b) = Some (b1, int k)" and k: "b_point b = int k" "k \<le> length (text_of b)"
    and b1: "gap_wf b1" "text_of b1 = text_of b" "b_gap b1 = k" "b_egap b1 = k + (b_egap b - b_gap b)" "b_ebuf b1 = b_ebuf b"
    and tk: "take k (b_buf b1) = take k (text_of b)" "drop (b_egap b1) (b_buf b1) = drop k (text_of b)"
    and f: "b_mark b1 = b_mark b"
    by (rule gap_to_point [OF wf pt])
  let ?n = "k + length xs"
  have n: "?n \<le> b_egap b1" "b_egap b1 \<le> length (b_buf b1)" using room b1(1,3,4) by (auto simp: gap_wf_def)
  then have "?n \<le> length (b_buf b1)" by simp
  then obtain m where m: "put_block (b_buf b1) k xs = Some m" "length m = b_ebuf b1" "take k m = take k (b_buf b1)"
    "take ?n m = take k (b_buf b1) @ xs" "drop ?n m = drop ?n (b_buf b1)"
    by (rule put_block_spec)
  have de: "drop (b_egap b1) m = drop (b_egap b1) (b_buf b1)"
    using arg_cong [where f = "drop (b_egap b1 - ?n)", OF m(5)] n(1) by simp
  let ?b = "undoset (b1\<lparr>b_point := int k\<rparr>)"
  let ?c = "?b\<lparr>b_buf := m, b_gap := ?n\<rparr>"
  have wfc: "gap_wf ?c" using n m(2) by (simp add: gap_wf_def)
  have e: "paste_at xs b = Some (?c\<lparr>b_point := int ?n, b_modified := True\<rparr>)"
    unfolding paste_at_def mv using b1(3) m(1) pos_egap [OF wfc] by (simp add: Let_def)
  show thesis
  proof (rule that [OF e])
    show "text_of (?c\<lparr>b_point := int ?n, b_modified := True\<rparr>)
        = take (nat (b_point b)) (text_of b) @ xs @ drop (nat (b_point b)) (text_of b)"
      unfolding append_assoc [symmetric]
      by (rule text_of_fields) (use m(4) de tk k in simp_all)
    show "\<exists>b''. undo (?c\<lparr>b_point := int ?n, b_modified := True\<rparr>) = Some b'' \<and> text_of b'' = text_of b \<and>
        b_point b'' = b_point b \<and> gap_wf b''"
      by (rule undo_restores [where g = k and x = "b_egap b1"])
        (use b1(3) n m(2,3) de tk k in simp_all)
  qed (use wfc k f in \<open>simp_all add: gap_wf_def\<close>)
qed

lemma copy_cut_spec:
  assumes wf: "gap_wf (curbp ed)" and pt: "point_ok (curbp ed)" and mk: "mark_set (curbp ed)"
    and r: "region (curbp ed) = (s, n)" and al: "alloc e n"
    and xs: "movegap (curbp ed) (int s) = Some (b1, int s)" "get_block (b_buf b1) (ptr (curbp ed) (int s)) n = Some xs"
  obtains ed' where "copy_cut e do_cut ed = Some ed'" "scrap ed' = Some xs" "nscrap ed' = int n" "gap_wf (curbp ed')"
    "text_of (curbp ed') = (if do_cut then take s (text_of (curbp ed)) @ drop (s + n) (text_of (curbp ed)) else text_of (curbp ed))"
    "b_point (curbp ed') = (if do_cut then int s else b_point (curbp ed))" "b_overwrite (curbp ed') = b_overwrite (curbp ed)"
    "b_ebuf (curbp ed') = b_ebuf (curbp ed)"
    "\<exists>b''. undo (curbp ed') = Some b'' \<and> text_of b'' = text_of (curbp ed) \<and> b_point b'' = b_point (curbp ed) \<and> gap_wf b''"
proof -
  define b where "b = curbp ed"
  have rg: "s + n \<le> length (text_of b)" "0 < n" "int s = (if b_point b < b_mark b then b_point b else b_mark b)"
    "int n = (if b_point b < b_mark b then b_mark b - b_point b else b_point b - b_mark b)"
    using r pt mk unfolding b_def [symmetric] by (auto simp: region_def mark_set_def point_ok_def Let_def split: if_splits)
  have nm: "b_mark b \<noteq> NOMARK" "b_point b \<noteq> b_mark b" using mk unfolding b_def [symmetric] by (auto simp: mark_set_def NOMARK_def)
  have gm: "gap_moved b s b1"
    using movegap_moved [OF wf, of "int s"] rg(1) xs(1) unfolding b_def [symmetric] by fastforce
  have wfb: "gap_wf b" using wf by (simp add: b_def)
  have sl: "s \<le> length (text_of b)" using rg(1) by simp
  note b1 = gap_movedD [OF gm wfb sl]
  have un: "take s (b_buf b1) @ drop (b_egap b1) (b_buf b1) = text_of b" using b1(4,6,7) by simp
  have cb: "curbp ed = b" by (simp add: b_def)
  let ?u = "undoset b1"
  let ?ed = "ed\<lparr>nscrap := int n, scrap := Some xs, curbp := b1\<rparr>"
  have mv: "movegap b (int s) = Some (b1, int s)" and gb: "get_block (b_buf b1) (ptr b (int s)) n = Some xs"
    using xs by (simp_all add: b_def)
  have start: "copy_cut e do_cut ed =
      (if do_cut then do {
         let c = block (?u\<lparr>b_egap := b_egap b1 + n\<rparr>);
         q \<leftarrow> pos c (b_egap c);
         Some (?ed\<lparr>curbp := c\<lparr>b_point := q, b_modified := True\<rparr>\<rparr>)
       } else Some (?ed\<lparr>curbp := block ?u\<rparr>))"
    unfolding copy_cut_def cb Let_def rg(3,4) [symmetric] using nm mv gb al by simp
  show thesis
  proof (cases do_cut)
    case False
    have e: "copy_cut e do_cut ed = Some (?ed\<lparr>curbp := block ?u\<rparr>)" using start False by simp
    show thesis
    proof (rule that [OF e])
      show "\<exists>b''. undo (curbp (?ed\<lparr>curbp := block ?u\<rparr>)) = Some b'' \<and> text_of b'' = text_of (curbp ed) \<and>
          b_point b'' = b_point (curbp ed) \<and> gap_wf b''"
        by (rule undo_restores [where g = s and x = "b_egap b1"])
          (use b1 un in \<open>simp_all add: block_def cb gap_wf_def\<close>)
    qed (use False b1 in \<open>simp_all add: block_def cb\<close>)
  next
    case True
    let ?c = "block (?u\<lparr>b_egap := b_egap b1 + n\<rparr>)"
    have le: "b_egap b1 + n \<le> b_ebuf b1"
      using rg(1) b1(1-4) text_length [OF b1(1)] by (auto simp: gap_wf_def)
    have wfc: "gap_wf ?c" using b1(1) le by (simp add: gap_wf_def block_def)
    have gc: "b_gap ?c = s" "b_egap ?c = b_egap b1 + n" "b_buf ?c = b_buf b1" using b1(3) by (simp_all add: block_def)
    have e: "copy_cut e do_cut ed = Some (?ed\<lparr>curbp := ?c\<lparr>b_point := int s, b_modified := True\<rparr>\<rparr>)"
      unfolding start Let_def pos_egap [OF wfc] gc(1) using True by simp
    have dn: "drop (b_egap b1 + n) (b_buf b1) = drop (s + n) (text_of b)"
      using arg_cong [where f = "drop n", OF b1(7)] b1(4) by (simp add: ac_simps)
    have t: "text_of ?c = take s (text_of b) @ drop (s + n) (text_of b)"
      by (rule text_of_fields [OF gc(1,2)]) (use b1(6) dn gc(3) in simp_all)
    show thesis
    proof (rule that [OF e])
      show "\<exists>b''. undo (curbp (?ed\<lparr>curbp := ?c\<lparr>b_point := int s, b_modified := True\<rparr>\<rparr>)) = Some b'' \<and>
          text_of b'' = text_of (curbp ed) \<and> b_point b'' = b_point (curbp ed) \<and> gap_wf b''"
        by (rule undo_restores [where g = s and x = "b_egap b1"])
          (use b1 un in \<open>simp_all add: block_def cb gap_wf_def\<close>)
    qed (use True b1(10) t wfc in \<open>simp_all add: cb\<close>, simp_all add: block_def b1(5,10))
  qed
qed

text \<open>The bytes that \<open>copy_cut\<close> saves.\<close>

lemma saved_after_gap:
  assumes gm: "gap_moved b s b1" and wf: "gap_wf b" and r: "s + n \<le> length (text_of b)" and g: "b_gap b \<le> s"
  shows "get_block (b_buf b1) (ptr b (int s)) n = Some (take n (drop s (text_of b)))"
proof -
  have s: "s \<le> length (text_of b)" using r by simp
  note b1 = gap_movedD [OF gm wf s]
  have "ptr b (int s) = s + (b_egap b - b_gap b)" using g by (simp add: ptr_def)
  moreover have "s + (b_egap b - b_gap b) + n \<le> b_ebuf b" using r text_length [OF wf] wf by (auto simp: gap_wf_def)
  ultimately show ?thesis using b1(5,7) by (simp add: get_block_def)
qed

lemma saved_before_gap:
  assumes gm: "gap_moved b s b1" and wf: "gap_wf b" and r: "s + n \<le> length (text_of b)" and g: "s < b_gap b"
    and n: "n \<le> b_egap b - b_gap b"
  shows "get_block (b_buf b1) (ptr b (int s)) n = Some (take n (drop s (b_buf b)))"
proof -
  have s: "s \<le> length (text_of b)" using r by simp
  note b1 = gap_movedD [OF gm wf s]
  let ?d = "b_egap b - b_gap b"
  have "take n (drop s (b_buf b1)) = take n (drop s (take (s + ?d) (b_buf b1)))" using n by (simp add: drop_take)
  also have "\<dots> = take n (drop s (b_buf b))" unfolding b1(17) [OF g] using n by (simp add: drop_take)
  finally have "take n (drop s (b_buf b1)) = take n (drop s (b_buf b))" .
  moreover have "s + n \<le> b_ebuf b" using r text_length [OF wf] by simp
  ultimately show ?thesis using g b1(5) by (simp add: get_block_def ptr_def)
qed

lemma region_bounds:
  assumes "point_ok b" "mark_set b" "region b = (s, n)"
  shows "s + n \<le> length (text_of b)" "0 < n"
  using assms by (auto simp: region_def mark_set_def point_ok_def Let_def split: if_splits)

lemma saved_region:
  assumes "gap_moved b s b1" "gap_wf b" "s + n \<le> length (text_of b)" "region b = (s, n)" "gap_clear b"
  shows "get_block (b_buf b1) (ptr b (int s)) n = Some (take n (drop s (text_of b)))"
proof (cases "b_gap b \<le> s")
  case False
  then have c: "s + n \<le> b_gap b" "n \<le> b_egap b - b_gap b" using assms(4,5) by (auto simp: gap_clear_def)
  have "take n (drop s (b_buf b)) = take n (drop s (text_of b))"
  proof -
    have "drop s (text_of b) = drop s (take (b_gap b) (b_buf b)) @ drop (b_egap b) (b_buf b)"
      using False assms(2) by (simp add: text_of_def gap_wf_def)
    moreover have "n \<le> length (drop s (take (b_gap b) (b_buf b)))" using c assms(2) by (simp add: gap_wf_def)
    ultimately show ?thesis using c by (simp add: drop_take)
  qed
  then show ?thesis using saved_before_gap [OF assms(1-3) _ c(2)] False by simp
qed (rule saved_after_gap [OF assms(1-3)])

lemma cut_spec:
  assumes wf: "gap_wf (curbp ed)" and pt: "point_ok (curbp ed)" and mk: "mark_set (curbp ed)"
    and r: "region (curbp ed) = (s, n)" and al: "alloc e n" and cl: "gap_clear (curbp ed)"
  obtains ed' where "copy_cut e do_cut ed = Some ed'" "scrap ed' = Some (take n (drop s (text_of (curbp ed))))"
    "nscrap ed' = int n" "gap_wf (curbp ed')"
    "text_of (curbp ed') = (if do_cut then take s (text_of (curbp ed)) @ drop (s + n) (text_of (curbp ed)) else text_of (curbp ed))"
    "b_point (curbp ed') = (if do_cut then int s else b_point (curbp ed))" "b_overwrite (curbp ed') = b_overwrite (curbp ed)"
    "b_ebuf (curbp ed') = b_ebuf (curbp ed)"
    "\<exists>b''. undo (curbp ed') = Some b'' \<and> text_of b'' = text_of (curbp ed) \<and> b_point b'' = b_point (curbp ed) \<and> gap_wf b''"
proof -
  note b = region_bounds [OF pt mk r]
  have "0 \<le> int s" "int s \<le> int (length (text_of (curbp ed)))" using b by simp_all
  from movegap_moved [OF wf this] obtain b1 where mv: "movegap (curbp ed) (int s) = Some (b1, int s)" "gap_moved (curbp ed) (nat (int s)) b1"
    by blast
  have "get_block (b_buf b1) (ptr (curbp ed) (int s)) n = Some (take n (drop s (text_of (curbp ed))))"
    using saved_region [OF _ wf b(1) r cl] mv(2) by simp
  then show thesis by (rule copy_cut_spec [OF wf pt mk r al mv(1)]) (rule that)
qed

text \<open>
  Killing a region and yanking it back restores the text, with the point behind the region, when
  the gap of the buffer does not lie inside the region, or further behind it than the gap is wide.
\<close>

theorem cut_paste_roundtrip:
  assumes "gap_wf (curbp ed)" "point_ok (curbp ed)" "mark_set (curbp ed)" "region (curbp ed) = (s, n)"
    and "gap_clear (curbp ed)" "alloc e n" "\<not> b_overwrite (curbp ed)" "b_gap (curbp ed) < b_egap (curbp ed)"
  shows "\<exists>ed1 ed2. copy_cut e True ed = Some ed1 \<and>
    text_of (curbp ed1) = take s (text_of (curbp ed)) @ drop (s + n) (text_of (curbp ed)) \<and>
    paste e ed1 = Done ed2 \<and> text_of (curbp ed2) = text_of (curbp ed) \<and> b_point (curbp ed2) = int (s + n)"
proof -
  let ?t = "text_of (curbp ed)"
  obtain ed1 where c: "copy_cut e True ed = Some ed1" "scrap ed1 = Some (take n (drop s ?t))"
    "nscrap ed1 = int n" "gap_wf (curbp ed1)" "text_of (curbp ed1) = take s ?t @ drop (s + n) ?t"
    "b_point (curbp ed1) = int s" "\<not> b_overwrite (curbp ed1)"
    using cut_spec [OF assms(1-4,6,5), of True] assms(7) by auto
  have e: "b_ebuf (curbp ed1) = b_ebuf (curbp ed)"
    using cut_spec [OF assms(1-4,6,5), of True] c(1) by auto
  note b = region_bounds [OF assms(2-4)]
  have w: "b_egap (curbp ed1) - b_gap (curbp ed1) = n + (b_egap (curbp ed) - b_gap (curbp ed))"
    using text_length [OF assms(1)] text_length [OF c(4)] assms(1) c(4,5) e b by (auto simp: gap_wf_def)
  have p1: "point_ok (curbp ed1)" using b c(5,6) by (simp add: point_ok_def)
  have room: "length (take n (drop s ?t)) \<le> b_egap (curbp ed1) - b_gap (curbp ed1)" using w b by simp
  obtain b2 where b2: "paste_at (take n (drop s ?t)) (curbp ed1) = Some b2"
    "text_of b2 = take (nat (b_point (curbp ed1))) (text_of (curbp ed1)) @ take n (drop s ?t)
       @ drop (nat (b_point (curbp ed1))) (text_of (curbp ed1))"
    "b_point b2 = b_point (curbp ed1) + int (length (take n (drop s ?t)))"
    by (rule paste_at_spec [OF c(4) p1 room])
  have sb: "scrap_block ed1 = Some (take n (drop s ?t))" using c(2,3) b by (simp add: scrap_block_def get_block_def)
  have "int n < int (b_egap (curbp ed1)) - int (b_gap (curbp ed1))" using w assms(8) by linarith
  then have "paste e ed1 = Done (ed1\<lparr>curbp := b2\<rparr>)"
    using c(3,7) b(2) sb b2(1) by (simp add: paste_def outcome_of_def)
  moreover have "text_of b2 = ?t"
  proof -
    have "take s ?t @ take n (drop s ?t) @ drop (s + n) ?t = ?t"
      by (metis append_take_drop_id add.commute drop_drop)
    then show ?thesis using b2(2) b unfolding c(5,6) by simp
  qed
  ultimately show ?thesis using c(1,5,6) b2(3) b by simp
qed

lemmas samples = sample_buffer_def sample_env_def sample_editor_def buffer_init_def

lemma sample_facts:
  "gap_wf sample_buffer" "point_ok sample_buffer" "text_of sample_buffer = [97, 98, 99, 100]" "b_point sample_buffer = 2"
  "\<not> b_overwrite sample_buffer" "\<forall>k. alloc sample_env k"
  by (simp_all add: samples gap_wf_def point_ok_def text_of_def)

theorem cut_paste_roundtrip_witness:
  "\<exists>ed1 ed2. copy_cut sample_env True sample_editor = Some ed1 \<and> text_of (curbp ed1) = [97, 98] \<and>
    paste sample_env ed1 = Done ed2 \<and> text_of (curbp ed2) = [97, 98, 99, 100] \<and> b_point (curbp ed2) = 4"
  using cut_paste_roundtrip [of sample_editor 2 2 sample_env]
  by (simp add: samples gap_wf_def point_ok_def mark_set_def region_def gap_clear_def text_of_def)

text \<open>
  Killing a region that has the gap inside loses text: the kill buffer gets, after the part of the
  region in front of the gap, bytes of the gap instead of the rest of the region, because \<open>copy_cut\<close>
  computes the address of the region before it moves the gap.
\<close>

theorem cut_loses_text:
  assumes "gap_wf (curbp ed)" "point_ok (curbp ed)" "mark_set (curbp ed)" "region (curbp ed) = (s, n)" "alloc e n"
    and "s < b_gap (curbp ed)" "b_gap (curbp ed) < s + n" "n \<le> b_egap (curbp ed) - b_gap (curbp ed)"
  shows "\<exists>ed'. copy_cut e True ed = Some ed' \<and>
    text_of (curbp ed') = take s (text_of (curbp ed)) @ drop (s + n) (text_of (curbp ed)) \<and>
    scrap ed' = Some (take (b_gap (curbp ed) - s) (drop s (text_of (curbp ed)))
      @ take (s + n - b_gap (curbp ed)) (drop (b_gap (curbp ed)) (b_buf (curbp ed))))"
proof -
  let ?b = "curbp ed"
  note b = region_bounds [OF assms(2-4)]
  have "0 \<le> int s" "int s \<le> int (length (text_of ?b))" using b by simp_all
  from movegap_moved [OF assms(1) this] obtain b1
    where mv: "movegap ?b (int s) = Some (b1, int s)" "gap_moved ?b (nat (int s)) b1" by blast
  have gb: "get_block (b_buf b1) (ptr ?b (int s)) n = Some (take n (drop s (b_buf ?b)))"
    using saved_before_gap [OF _ assms(1) b(1) assms(6,8)] mv(2) by simp
  obtain ed' where ed': "copy_cut e True ed = Some ed'" "scrap ed' = Some (take n (drop s (b_buf ?b)))"
    "text_of (curbp ed') = (if True then take s (text_of ?b) @ drop (s + n) (text_of ?b) else text_of ?b)"
    by (rule copy_cut_spec [OF assms(1-5) mv(1) gb])
  have "take n (drop s (b_buf ?b)) = take (b_gap ?b - s) (drop s (text_of ?b)) @ take (s + n - b_gap ?b) (drop (b_gap ?b) (b_buf ?b))"
  proof -
    have "n = (b_gap ?b - s) + (s + n - b_gap ?b)" using assms(6,7) by simp
    then have "take n (drop s (b_buf ?b)) = take (b_gap ?b - s) (drop s (b_buf ?b)) @ take (s + n - b_gap ?b) (drop (b_gap ?b) (b_buf ?b))"
      using take_add [of "b_gap ?b - s" "s + n - b_gap ?b" "drop s (b_buf ?b)"] assms(6) by simp
    moreover have "take (b_gap ?b - s) (drop s (text_of ?b)) = take (b_gap ?b - s) (drop s (b_buf ?b))"
      using assms(1,6) by (auto simp: text_of_def gap_wf_def drop_take min_def)
    ultimately show ?thesis by simp
  qed
  then show ?thesis using ed' by simp
qed

theorem cut_loses_text_witness:
  "\<exists>ed'. copy_cut sample_env True (sample_editor\<lparr>curbp := sample_buffer\<lparr>b_point := 1, b_mark := 3\<rparr>\<rparr>) = Some ed' \<and>
    text_of (curbp ed') = [97, 100] \<and> scrap ed' = Some [98, 0]"
  using cut_loses_text [of "sample_editor\<lparr>curbp := sample_buffer\<lparr>b_point := 1, b_mark := 3\<rparr>\<rparr>" 1 2 sample_env]
  by (simp add: samples gap_wf_def point_ok_def mark_set_def region_def text_of_def)

subsection \<open>Editing sessions\<close>

text \<open>What a session relies on: each command implements its meaning while there is memory.\<close>

locale text_editor =
  fixes ok :: "nat \<Rightarrow> 's \<Rightarrow> bool"
    and view :: "'s \<Rightarrow> 'v"
    and run :: "'c \<Rightarrow> 's \<Rightarrow> 's outcome"
    and meaning :: "'c \<Rightarrow> 'v \<Rightarrow> 'v"
  assumes step: "ok (Suc n) b \<Longrightarrow> \<exists>b'. run c b = Done b' \<and> view b' = meaning c (view b) \<and> ok n b'"
begin

lemma session: "ok (length cs + n) b \<Longrightarrow> \<exists>b'. run_all run cs b = Done b' \<and> view b' = fold meaning cs (view b) \<and> ok n b'"
proof (induction cs arbitrary: b)
  case (Cons c cs)
  then have "ok (Suc (length cs + n)) b" by simp
  then obtain b1 where b1: "run c b = Done b1" "view b1 = meaning c (view b)" "ok (length cs + n) b1"
    using step by blast
  then show ?case using Cons.IH by fastforce
qed auto

end

text \<open>Typing that can be taken back.\<close>

locale erasing_editor = text_editor +
  fixes ins :: "'x \<Rightarrow> 'c" and erase :: 'c and valid :: "'v \<Rightarrow> bool"
  assumes erase: "valid v \<Longrightarrow> meaning erase (meaning (ins x) v) = v"
    and valid: "valid v \<Longrightarrow> valid (meaning (ins x) v)"
begin

lemma erased: "valid v \<Longrightarrow> fold meaning (map ins xs @ replicate (length xs) erase) v = v"
proof (induction xs arbitrary: v rule: rev_induct)
  case (snoc x xs)
  have v: "valid (fold meaning (map ins xs) v)" using snoc.prems valid by (induction xs arbitrary: v) simp_all
  have "fold meaning (map ins (xs @ [x]) @ replicate (length (xs @ [x])) erase) v
      = fold meaning (replicate (length xs) erase) (meaning erase (meaning (ins x) (fold meaning (map ins xs) v)))"
    by simp
  also have "\<dots> = fold meaning (map ins xs @ replicate (length xs) erase) v" using erase [OF v] by simp
  finally show ?case using snoc.IH [OF snoc.prems] by simp
qed simp

end

lemma type_at_length: "k \<le> length t \<Longrightarrow> length (type_at over c t k) \<le> Suc (length t) \<and> k < length (type_at over c t k)"
  by (auto simp: type_at_def min_def)

lemma run_edit_step:
  assumes "editable e over (Suc n) b"
  shows "\<exists>b'. run_edit e c b = Done b' \<and> view b' = edit_text over c (view b) \<and> editable e over n b'"
proof -
  have wf: "gap_wf b" and pt: "point_ok b" and ov: "b_overwrite b = over" and al: "\<forall>k. alloc e k"
    and sz: "length (text_of b) + Suc n + CHUNK < 2 ^ 63"
    using assms by (simp_all add: editable_def)
  obtain k where p: "b_point b = int k" "k \<le> length (text_of b)"
    using pt by (metis point_ok_def nonneg_int_cases of_nat_le_iff)
  let ?t = "text_of b" and ?k = "nat (b_point b)"
  show ?thesis
  proof (cases c)
    case (Type x)
    have "b_gap b < b_egap b \<or> (\<exists>bg. growgap e b CHUNK = Grown bg)"
    proof (cases "b_gap b = b_egap b")
      case True
      then have "b_ebuf b + max CHUNK 512 < 2 ^ 63" using sz text_length [OF wf] by (simp add: CHUNK_def)
      then show ?thesis using growgap_spec(3) [OF wf] al by blast
    qed (use wf in \<open>auto simp: gap_wf_def\<close>)
    then obtain bg where "b_gap b < b_egap b \<or> growgap e b CHUNK = Grown bg" by blast
    then obtain b' where "insert_cmd e x b = Done b'" "gap_wf b'" "text_of b' = type_at (b_overwrite b) x ?t ?k"
      "b_point b' = b_point b + 1" "b_overwrite b' = b_overwrite b"
      by (rule insert_cmd_spec [OF wf pt])
    then show ?thesis
      using Type p sz ov al type_at_length [OF p(2), of over x]
      by (auto simp: view_def editable_def point_ok_def nat_add_distrib)
  next
    case Backspace
    obtain b' where "backsp b = Some b'" "gap_wf b'" "text_of b' = take (?k - 1) ?t @ drop ?k ?t"
      "b_point b' = max 0 (b_point b - 1)" "b_overwrite b' = b_overwrite b"
      by (rule backsp_spec [OF wf pt])
    then show ?thesis
      using Backspace p sz ov al
      by (auto simp: outcome_of_def view_def editable_def point_ok_def max_def min_def nat_diff_distrib)
  next
    case Delete
    obtain b' where "delete_cmd b = Some b'" "gap_wf b'" "text_of b' = take ?k ?t @ drop (Suc ?k) ?t"
      "b_point b' = b_point b" "b_overwrite b' = b_overwrite b"
      by (rule delete_cmd_spec [OF wf pt])
    then show ?thesis
      using Delete p sz ov al by (auto simp: outcome_of_def view_def editable_def point_ok_def)
  next
    case Left
    then show ?thesis
      using p sz ov al wf by (auto simp: left_def view_def editable_def point_ok_def nat_diff_distrib)
  next
    case Right
    then show ?thesis
      using p sz ov al wf
      by (auto simp: right_def end_pos_text outcome_of_def view_def editable_def point_ok_def nat_add_distrib)
  next
    case Top
    then show ?thesis using sz ov al wf by (auto simp: top_cmd_def view_def editable_def point_ok_def)
  next
    case Bottom
    then show ?thesis
      using sz ov al wf by (auto simp: bottom_def end_pos_text outcome_of_def view_def editable_def point_ok_def)
  qed
qed

interpretation atto: text_editor "editable e over" view "run_edit e" "edit_text over" for e over
  by unfold_locales (rule run_edit_step)

interpretation atto_insert: erasing_editor "editable e False" view "run_edit e" "edit_text False" Type Backspace
  "\<lambda>(t, k). k \<le> length t" for e
  by unfold_locales (auto simp: type_at_def min_def)

text \<open>
  C32. A session of typing, deleting and moving does to the text what the keys mean, whatever the
  position of the gap and however often it is moved and enlarged: the array behaves as a text with a
  position, in insert mode and in overwrite mode. This holds while the allocator grants memory and
  sizes stay below the range of \<open>point_t\<close>.
\<close>

theorem session_edits_text:
  assumes "gap_wf b" "point_ok b" "\<forall>k. alloc e k" "length (text_of b) + length cs + CHUNK < 2 ^ 63"
  shows "\<exists>b'. run_all (run_edit e) cs b = Done b' \<and> gap_wf b' \<and> point_ok b' \<and>
    (text_of b', nat (b_point b')) = fold (edit_text (b_overwrite b)) cs (text_of b, nat (b_point b))"
  using atto.session [of e "b_overwrite b" cs 0 b] assms by (auto simp: editable_def view_def)

theorem session_edits_text_witness:
  "\<exists>b'. run_all (run_edit sample_env) [Type 120, Top, Delete, Bottom, Type 13] sample_buffer = Done b' \<and> gap_wf b' \<and>
    point_ok b' \<and> (text_of b', nat (b_point b')) = ([98, 120, 99, 100, 10], 5)"
proof -
  let ?cs = "[Type 120, Top, Delete, Bottom, Type 13]"
  have f: "fold (edit_text (b_overwrite sample_buffer)) ?cs (text_of sample_buffer, nat (b_point sample_buffer))
      = ([98, 120, 99, 100, 10], 5)"
    using sample_facts(5) by (simp add: sample_facts(3,4) type_at_def CR_def NL_def)
  have "length (text_of sample_buffer) + length ?cs + CHUNK < 2 ^ 63" by (simp add: sample_facts(3) CHUNK_def)
  from session_edits_text [OF sample_facts(1,2,6) this] show ?thesis unfolding f .
qed

text \<open>
  Text that was typed in insert mode and taken back with as many backspaces leaves the buffer as
  it was.
\<close>

theorem typing_is_erasable:
  assumes "gap_wf b" "point_ok b" "\<not> b_overwrite b" "\<forall>k. alloc e k" "length (text_of b) + 2 * length xs + CHUNK < 2 ^ 63"
  shows "\<exists>b'. run_all (run_edit e) (map Type xs @ replicate (length xs) Backspace) b = Done b' \<and>
    text_of b' = text_of b \<and> b_point b' = b_point b"
proof -
  let ?cs = "map Type xs @ replicate (length xs) Backspace"
  have ok: "editable e False (length ?cs + 0) b" using assms by (simp add: editable_def)
  obtain b' where b': "run_all (run_edit e) ?cs b = Done b'" "view b' = fold (edit_text False) ?cs (view b)" "editable e False 0 b'"
    using atto.session [OF ok] by blast
  have "case view b of (t, k) \<Rightarrow> k \<le> length t" using assms(2) by (auto simp: view_def point_ok_def)
  from atto_insert.erased [OF this, of xs] have "view b' = view b" using b'(2) by simp
  moreover have "0 \<le> b_point b" "0 \<le> b_point b'" using assms(2) b'(3) by (simp_all add: point_ok_def editable_def)
  ultimately show ?thesis using b'(1) by (auto simp: view_def)
qed

theorem typing_is_erasable_witness:
  "\<exists>b'. run_all (run_edit sample_env) (map Type [1, 2, 3, 4] @ replicate (length [1, 2, 3, 4 :: u8]) Backspace) sample_buffer = Done b' \<and>
    text_of b' = text_of sample_buffer \<and> b_point b' = b_point sample_buffer"
  by (rule typing_is_erasable) (simp_all add: sample_facts CHUNK_def)

text \<open>
  Undo takes back a backspace and a forward delete: the text and the point are as before.
\<close>

theorem undo_takes_back:
  assumes "gap_wf b" "point_ok b"
  shows "(\<exists>b1 b2. backsp b = Some b1 \<and> undo b1 = Some b2 \<and> text_of b2 = text_of b \<and> b_point b2 = b_point b) \<and>
    (\<exists>b1 b2. delete_cmd b = Some b1 \<and> undo b1 = Some b2 \<and> text_of b2 = text_of b \<and> b_point b2 = b_point b)"
proof (rule conjI)
  obtain b1 where "backsp b = Some b1"
    "\<exists>b''. undo b1 = Some b'' \<and> text_of b'' = text_of b \<and> b_point b'' = b_point b \<and> gap_wf b''"
    by (rule backsp_spec [OF assms])
  then show "\<exists>b1 b2. backsp b = Some b1 \<and> undo b1 = Some b2 \<and> text_of b2 = text_of b \<and> b_point b2 = b_point b"
    by blast
  obtain b1 where "delete_cmd b = Some b1"
    "\<exists>b''. undo b1 = Some b'' \<and> text_of b'' = text_of b \<and> b_point b'' = b_point b \<and> gap_wf b''"
    by (rule delete_cmd_spec [OF assms])
  then show "\<exists>b1 b2. delete_cmd b = Some b1 \<and> undo b1 = Some b2 \<and> text_of b2 = text_of b \<and> b_point b2 = b_point b"
    by blast
qed

subsection \<open>Search and replace\<close>






theorem undo_takes_back_witness:
  "(\<exists>b1 b2. backsp sample_buffer = Some b1 \<and> undo b1 = Some b2 \<and> text_of b2 = [97, 98, 99, 100] \<and> b_point b2 = 2) \<and>
   (\<exists>b1 b2. delete_cmd sample_buffer = Some b1 \<and> undo b1 = Some b2 \<and> text_of b2 = [97, 98, 99, 100] \<and> b_point b2 = 2)"
  using undo_takes_back [OF sample_facts(1,2)] by (simp add: sample_facts)


lemma save_spec:
  assumes wf: "gap_wf b" and io: "posix_file fn" "can_open g" "can_write g" "can_close g"
  obtains b' where "save g fn b = Some (True, b', Some (text_of b))" "text_of b' = text_of b" "\<not> b_modified b'"
proof -
  have "0 \<le> (0::int)" "(0::int) \<le> int (length (text_of b))" by simp_all
  from movegap_moved [OF wf this] obtain b1
    where mv: "movegap b 0 = Some (b1, 0)" and gm: "gap_moved b (nat 0) b1" by blast
  have z: "nat 0 \<le> length (text_of b)" by simp
  note b1 = gap_movedD [OF gm wf z]
  have "get_block (b_buf b1) (b_egap b1) (b_ebuf b1 - b_egap b1) = Some (text_of b)"
    using b1(1) b1(7) [symmetric] by (simp add: get_block_def gap_wf_def b1(4))
  then have "save g fn b = Some (True, b1\<lparr>b_modified := False\<rparr>, Some (text_of b))"
    using mv io by (simp add: save_def)
  then show thesis by (rule that) (use b1(2) in simp_all)
qed

text \<open>
  C33. A file that is loaded and saved again keeps its bytes.
\<close>

theorem load_save_roundtrip:
  assumes "st_size f = Some (length (contents f))" "can_open f" "can_close f" "\<forall>k. alloc e k"
    and "b_ebuf b + length (contents f) + 512 < 2 ^ 63"
    and "posix_file fn" "can_open g" "can_write g" "can_close g"
  shows "\<exists>b1 b2. load_file e f b = Done (True, b1) \<and> text_of b1 = contents f \<and> b_point b1 = 0 \<and>
    save g fn b1 = Some (True, b2, Some (contents f)) \<and> text_of b2 = contents f \<and> \<not> b_modified b2"
proof -
  let ?n = "length (contents f)"
  define b0 where "b0 = b\<lparr>b_gap := 0, b_egap := b_ebuf b, b_point := 0\<rparr>"
  have b0: "gap_wf b0" "text_of b0 = []" "b_point b0 = 0" "b_gap b0 = 0" by (simp_all add: b0_def gap_wf_def text_of_def)
  obtain bg where bg: "(if b_egap b0 - b_gap b0 < ?n then growgap e b0 ?n else Grown b0) = Grown bg"
    "gap_wf bg" "text_of bg = []" "b_point bg = 0" "?n \<le> b_egap bg - b_gap bg"
  proof (cases "b_egap b0 - b_gap b0 < ?n")
    case True
    have "b_ebuf b0 + max ?n 512 < 2 ^ 63" using assms(5) by (simp add: b0_def)
    then obtain bg where g: "growgap e b0 ?n = Grown bg" using growgap_spec(3) [OF b0(1)] assms(4) by blast
    show thesis using that [of bg] True g growgap_spec(2) [OF b0(1) g] b0 by simp
  next
    case False
    then show thesis using that [of b0] b0 by simp
  qed
  have pk: "point_ok bg" using bg by (simp add: point_ok_def)
  obtain b1 k where mv: "movegap bg (b_point bg) = Some (b1, int k)" and k: "b_point bg = int k"
    and b1: "gap_wf b1" "text_of b1 = text_of bg" "b_gap b1 = k" "b_egap b1 = k + (b_egap bg - b_gap bg)" "b_ebuf b1 = b_ebuf bg"
    by (rule gap_to_point [OF bg(2) pk])
  have k0: "k = 0" using k bg(4) by simp
  have "0 + ?n \<le> length (b_buf b1)" using bg(5) b1(1,4) k0 by (simp add: gap_wf_def)
  then obtain m where m: "put_block (b_buf b1) 0 (contents f) = Some m" "length m = b_ebuf b1" "take (0 + ?n) m = take 0 (b_buf b1) @ contents f"
    "drop (0 + ?n) m = drop (0 + ?n) (b_buf b1)"
    by (rule put_block_spec)
  let ?c = "(undoset (b1\<lparr>b_point := 0\<rparr>))\<lparr>b_buf := m, b_gap := ?n, b_modified := False\<rparr>"
  have ld: "load_file e f b = Done (True, ?c)"
    unfolding load_file_def b0_def [symmetric] insert_file_def using assms(1-3) bg(1)
    by (simp add: read_into_gap_def mv k0 b1(3) m(1) outcome_of_def Let_def)
  have nle: "?n \<le> b_egap b1" using bg(5) b1(4) k0 by simp
  have wfc: "gap_wf ?c" using b1(1) nle m(2) by (simp add: gap_wf_def)
  have tc: "text_of ?c = contents f"
  proof -
    have "text_of b1 = []" using b1(2) bg(3) by simp
    then have "drop (b_egap b1) (b_buf b1) = []" by (simp add: text_of_def)
    then have "drop (b_egap b1) m = []" using m(2) by simp
    then show ?thesis using m(3) by (simp add: text_of_def)
  qed
  obtain b2 where "save g fn ?c = Some (True, b2, Some (text_of ?c))" "text_of b2 = text_of ?c" "\<not> b_modified b2"
    by (rule save_spec [OF wfc assms(6-9)])
  then show ?thesis using ld tc by (intro exI [of _ ?c] exI [of _ b2]) simp
qed

theorem load_save_roundtrip_witness:
  "\<exists>b1 b2. load_file sample_env \<lparr>can_open = True, can_write = True, can_close = True, st_size = Some 2, contents = [1, 2]\<rparr> sample_buffer
      = Done (True, b1) \<and> text_of b1 = [1, 2] \<and> b_point b1 = 0 \<and>
    save \<lparr>can_open = True, can_write = True, can_close = True, st_size = None, contents = []\<rparr> ''a.txt'' b1
      = Some (True, b2, Some [1, 2]) \<and> text_of b2 = [1, 2] \<and> \<not> b_modified b2"
proof -
  let ?f = "\<lparr>can_open = True, can_write = True, can_close = True, st_size = Some 2, contents = [1, 2]\<rparr> :: io"
  let ?g = "\<lparr>can_open = True, can_write = True, can_close = True, st_size = None, contents = []\<rparr> :: io"
  have "posix_file ''a.txt''" by code_simp
  moreover have "b_ebuf sample_buffer + length (contents ?f) + 512 < 2 ^ 63" by (simp add: samples)
  ultimately show ?thesis
    using load_save_roundtrip [of ?f sample_env sample_buffer "''a.txt''" ?g] sample_facts(6) by simp
qed

subsection \<open>Replacing\<close>

lemma write_before_gap:
  assumes "b_gap b = p + length r" "b_gap b \<le> b_egap b" "b_egap b \<le> b_ebuf b" "take p (b_buf b) = x" "drop (b_egap b) (b_buf b) = y"
  obtains m where "put_block (b_buf b) (ptr b (int p)) r = Some m" "length m = b_ebuf b"
    "take (b_gap b) m @ drop (b_egap b) m = x @ r @ y"
proof (cases "r = []")
  case True
  then have "put_block (b_buf b) (ptr b (int p)) r = Some (b_buf b)"
    using assms(1-3) by (simp add: put_block_def ptr_def)
  then show thesis using that True assms by simp
next
  case False
  then have pt: "ptr b (int p) = p" using assms(1) by (simp add: ptr_def)
  have "p + length r \<le> length (b_buf b)" using assms(1-3) by simp
  then obtain m where m: "put_block (b_buf b) p r = Some m" "length m = b_ebuf b"
    "take (p + length r) m = take p (b_buf b) @ r" "drop (p + length r) m = drop (p + length r) (b_buf b)"
    by (rule put_block_spec)
  have "drop (b_egap b) m = drop (b_egap b) (b_buf b)"
    using arg_cong [where f = "drop (b_egap b - (p + length r))", OF m(4)] assms(1,2) by simp
  then show thesis using that [of m] m pt assms by simp
qed

lemma make_room_spec:
  assumes wf: "gap_wf b" and f: "p + slen \<le> length (text_of b)" and fit: "replace_fits slen rlen (p + slen) b" and ne: "rlen \<noteq> slen"
  obtains b' where "make_room e slen rlen (int (p + slen)) b = Done b'" "b_gap b' = p + rlen" "b_gap b' \<le> b_egap b'" "b_egap b' \<le> b_ebuf b'"
    "take p (b_buf b') = take p (text_of b)" "drop (b_egap b') (b_buf b') = drop (p + slen) (text_of b)" "b_point b' = b_point b"
proof -
  have "0 \<le> int (p + slen)" "int (p + slen) \<le> int (length (text_of b))" using f by simp_all
  from movegap_moved [OF wf this] obtain b1
    where mv: "movegap b (int (p + slen)) = Some (b1, int (p + slen))" and gm': "gap_moved b (nat (int (p + slen))) b1"
    by blast
  have gm: "gap_moved b (p + slen) b1" using gm' unfolding nat_int .
  note b1 = gap_movedD [OF gm wf f]
  have tk: "take p (b_buf c) = take p (text_of b)" if "b_gap c = p + slen" "gap_wf c" "text_of c = text_of b" for c
    using arg_cong [where f = "take p", OF gap_at_text(1) [OF that(2,1)]] that(3) by simp
  have dr: "drop (b_egap c) (b_buf c) = drop (p + slen) (text_of b)" if "b_gap c = p + slen" "gap_wf c" "text_of c = text_of b" for c
    using gap_at_text(2) [OF that(2,1)] that(3) by simp
  show thesis
  proof (cases "slen < rlen")
    case True
    then have w: "rlen - slen < b_egap b1 - b_gap b1" using fit b1(3,4) by (simp add: replace_fits_def)
    define b2 where "b2 = (case growgap e b1 (rlen - slen) of Grown c \<Rightarrow> c | _ \<Rightarrow> b1)"
    have b2: "gap_wf b2" "text_of b2 = text_of b" "b_gap b2 = p + slen" "rlen - slen < b_egap b2 - b_gap b2" "b_point b2 = b_point b"
      using growgap_spec(2) [OF b1(1), of e "rlen - slen"] b1(1,2,3,8) w
      by (auto simp: b2_def split: grow.splits)
    have "growgap e b1 (rlen - slen) \<noteq> Fatal" using growgap_spec(4) [OF b1(1), of e "rlen - slen"] w b1(1) by (auto simp: gap_wf_def)
    then have mr: "make_room e slen rlen (int (p + slen)) b = Done (b2\<lparr>b_gap := b_gap b2 + (rlen - slen)\<rparr>)"
      using True mv w growgap_spec(1) [OF b1(1), of e "rlen - slen"]
      by (auto simp: make_room_def b2_def split: grow.splits)
    show thesis
      by (rule that [OF mr]) (use True b2 tk [OF b2(3,1,2)] dr [OF b2(3,1,2)] in \<open>auto simp: gap_wf_def\<close>)
  next
    case False
    then have lt: "rlen < slen" using ne by simp
    have mr: "make_room e slen rlen (int (p + slen)) b = Done (b1\<lparr>b_gap := p + slen - (slen - rlen)\<rparr>)"
      using lt mv b1(3) by (simp add: make_room_def)
    show thesis
      by (rule that [OF mr]) (use lt b1(1,3,8) tk [OF b1(3,1,2)] dr [OF b1(3,1,2)] in \<open>auto simp: gap_wf_def\<close>)
  qed
qed

lemma write_in_place:
  assumes wf: "gap_wf b" and f: "p + length r \<le> length (text_of b)"
    and g: "b_gap b \<le> p \<or> p + length r \<le> b_gap b"
  obtains m where "put_block (b_buf b) (ptr b (int p)) r = Some m" "length m = b_ebuf b"
    "take (b_gap b) m @ drop (b_egap b) m = take p (text_of b) @ r @ drop (p + length r) (text_of b)"
proof (cases "b_gap b \<le> p")
  case True
  define d where "d = b_egap b - b_gap b"
  have w: "b_egap b = b_gap b + d" "b_gap b + d \<le> b_ebuf b" using wf by (simp_all add: gap_wf_def d_def)
  have pt: "ptr b (int p) = p + d" using True by (simp add: ptr_def d_def)
  have "p + d + length r \<le> length (b_buf b)" using f text_length [OF wf] w by simp
  then obtain m where m: "put_block (b_buf b) (p + d) r = Some m" "length m = b_ebuf b"
    "take (p + d) m = take (p + d) (b_buf b)"
    "take (p + d + length r) m = take (p + d) (b_buf b) @ r" "drop (p + d + length r) m = drop (p + d + length r) (b_buf b)"
    by (rule put_block_spec)
  have g1: "take (b_gap b) m = take (b_gap b) (b_buf b)"
    using arg_cong [where f = "take (b_gap b)", OF m(3)] True by (simp add: min_def)
  have "drop (b_egap b) m = drop (b_egap b) (take (p + d + length r) m) @ drop (p + d + length r) m"
  proof -
    have "b_egap b \<le> length (take (p + d + length r) m)" using True w m(2) \<open>p + d + length r \<le> length (b_buf b)\<close> by simp
    then show ?thesis using drop_append [of "b_egap b" "take (p + d + length r) m" "drop (p + d + length r) m"] by simp
  qed
  also have "\<dots> = drop (b_egap b) (take (p + d) (b_buf b)) @ r @ drop (p + d + length r) (b_buf b)"
    unfolding m(4,5) using True w \<open>p + d + length r \<le> length (b_buf b)\<close> by simp
  finally have g2: "drop (b_egap b) m = drop (b_egap b) (take (p + d) (b_buf b)) @ r @ drop (p + d + length r) (b_buf b)" .
  have "take p (text_of b) = take (b_gap b) (b_buf b) @ drop (b_egap b) (take (p + d) (b_buf b))"
    using True w by (simp add: text_of_def drop_take min_def)
  moreover have "drop (p + length r) (text_of b) = drop (p + d + length r) (b_buf b)"
    using True w by (simp add: text_of_def ac_simps)
  ultimately show thesis using that [of m] m(1,2) pt g1 g2 by simp
next
  case False
  then have g: "p + length r \<le> b_gap b" "p < b_gap b" using g by auto
  have w: "b_gap b \<le> b_egap b" "b_egap b \<le> b_ebuf b" using wf by (simp_all add: gap_wf_def)
  have pt: "ptr b (int p) = p" using g by (simp add: ptr_def)
  have "p + length r \<le> length (b_buf b)" using g w by simp
  then obtain m where m: "put_block (b_buf b) p r = Some m" "length m = b_ebuf b"
    "take (p + length r) m = take p (b_buf b) @ r" "drop (p + length r) m = drop (p + length r) (b_buf b)"
    by (rule put_block_spec)
  have g1: "take (b_gap b) m = take p (b_buf b) @ r @ drop (p + length r) (take (b_gap b) (b_buf b))"
  proof -
    have "take (b_gap b) m = take (p + length r) m @ take (b_gap b - (p + length r)) (drop (p + length r) m)"
      using take_add [of "p + length r" "b_gap b - (p + length r)" m] g by simp
    then show ?thesis unfolding m(3,4) by (simp add: drop_take)
  qed
  have g2: "drop (b_egap b) m = drop (b_egap b) (b_buf b)"
    using arg_cong [where f = "drop (b_egap b - (p + length r))", OF m(4)] g w by simp
  have "take p (text_of b) = take p (b_buf b)" using g w by (simp add: text_of_def min_def)
  moreover have "drop (p + length r) (text_of b) = drop (p + length r) (take (b_gap b) (b_buf b)) @ drop (b_egap b) (b_buf b)"
    using g w by (simp add: text_of_def)
  ultimately show thesis using that [of m] m(1,2) pt g1 g2 by simp
qed

text \<open>
  One substitution of query-replace puts the new text in the place of the match and the point
  behind it, when the match gets shorter, when it keeps its length and the gap is not inside the match,
  and when it gets longer by less than the gap is wide.
\<close>

theorem substitute_replaces:
  assumes "gap_wf b" "p + length s \<le> length (text_of b)" "b_point b = int p"
    and "replace_fits (length s) (length r) (p + length s) b"
  shows "\<exists>b'. substitute e s r (int (p + length s)) b = Done b' \<and> gap_wf b' \<and>
    text_of b' = take p (text_of b) @ r @ drop (p + length s) (text_of b) \<and> b_point b' = int (p + length r)"
proof -
  have "\<exists>b1 m. make_room e (length s) (length r) (int (p + length s)) b = Done b1 \<and> b_point b1 = int p \<and>
    put_block (b_buf b1) (ptr b1 (int p)) r = Some m \<and> gap_wf (b1\<lparr>b_buf := m\<rparr>) \<and>
    take (b_gap b1) m @ drop (b_egap b1) m = take p (text_of b) @ r @ drop (p + length s) (text_of b)"
  proof (cases "length r = length s")
    case True
    then have g: "b_gap b \<le> p \<or> p + length r \<le> b_gap b" using assms(4) by (simp add: replace_fits_def)
    have l: "p + length r \<le> length (text_of b)" using assms(2) True by simp
    obtain m where m: "put_block (b_buf b) (ptr b (int p)) r = Some m" "length m = b_ebuf b"
      "take (b_gap b) m @ drop (b_egap b) m = take p (text_of b) @ r @ drop (p + length r) (text_of b)"
      by (rule write_in_place [OF assms(1) l g])
    moreover have "make_room e (length s) (length r) (int (p + length s)) b = Done b" using True by (simp add: make_room_def)
    ultimately show ?thesis using assms(1,3) True by (intro exI [of _ b] exI [of _ m]) (simp add: gap_wf_def)
  next
    case False
    obtain b1 where b1: "make_room e (length s) (length r) (int (p + length s)) b = Done b1"
      "b_gap b1 = p + length r" "b_gap b1 \<le> b_egap b1" "b_egap b1 \<le> b_ebuf b1"
      "take p (b_buf b1) = take p (text_of b)" "drop (b_egap b1) (b_buf b1) = drop (p + length s) (text_of b)" "b_point b1 = b_point b"
      by (rule make_room_spec [OF assms(1,2,4) False])
    obtain m where m: "put_block (b_buf b1) (ptr b1 (int p)) r = Some m" "length m = b_ebuf b1"
      "take (b_gap b1) m @ drop (b_egap b1) m = take p (text_of b) @ r @ drop (p + length s) (text_of b)"
      by (rule write_before_gap [OF b1(2-6)])
    then show ?thesis using b1 assms(3) by (intro exI [of _ b1] exI [of _ m]) (simp add: gap_wf_def)
  qed
  then obtain b1 m where b1: "make_room e (length s) (length r) (int (p + length s)) b = Done b1" "b_point b1 = int p"
    "put_block (b_buf b1) (ptr b1 (int p)) r = Some m" "gap_wf (b1\<lparr>b_buf := m\<rparr>)"
    "take (b_gap b1) m @ drop (b_egap b1) m = take p (text_of b) @ r @ drop (p + length s) (text_of b)"
    by blast
  let ?c = "b1\<lparr>b_buf := m, b_modified := True, b_point := int (p + length s) - (int (length s) - int (length r))\<rparr>"
  have "substitute e s r (int (p + length s)) b = Done ?c"
    unfolding substitute_def b1(1) outcome.case b1(2,3) by simp
  moreover have "gap_wf ?c" using b1(4) by simp
  moreover have "text_of ?c = take p (text_of b) @ r @ drop (p + length s) (text_of b)" using b1(5) by (simp add: text_of_def [of "b1\<lparr>b_buf := m\<rparr>"])
  ultimately show ?thesis by (intro exI [of _ ?c]) simp
qed

theorem substitute_replaces_witness:
  "\<exists>b'. substitute sample_env [99, 100] [120, 121, 122] (int (2 + length [99, 100 :: u8])) sample_buffer = Done b' \<and> gap_wf b' \<and>
    text_of b' = [97, 98, 120, 121, 122] \<and> b_point b' = 5"
proof -
  have "2 + length [99, 100 :: u8] \<le> length (text_of sample_buffer)" "b_point sample_buffer = int 2"
    by (simp_all add: sample_facts)
  moreover have "replace_fits (length [99, 100 :: u8]) (length [120, 121, 122 :: u8]) (2 + length [99, 100 :: u8]) sample_buffer"
    by (simp add: samples replace_fits_def)
  ultimately show ?thesis
    using substitute_replaces [OF sample_facts(1), of 2 "[99, 100]" "[120, 121, 122]" sample_env] by (simp add: sample_facts)
qed

subsection \<open>Where the commands fail\<close>

text \<open>
  The test for room in query-replace is reversed: a match that gets longer by more than the gap is wide
  does not enlarge the gap, and the start of the gap passes its end.
\<close>

theorem replace_overflows_gap:
  assumes "gap_wf b" "p + length s \<le> length (text_of b)" "length s + (b_egap b - b_gap b) < length r"
    and "substitute e s r (int (p + length s)) b = Done b'"
  shows "b_egap b' < b_gap b'"
proof -
  have "0 \<le> int (p + length s)" "int (p + length s) \<le> int (length (text_of b))" using assms(2) by simp_all
  from movegap_moved [OF assms(1) this] obtain b1
    where mv: "movegap b (int (p + length s)) = Some (b1, int (p + length s))" and gm: "gap_moved b (nat (int (p + length s))) b1"
    by blast
  note b1 = gap_movedD [OF gm [unfolded nat_int] assms(1,2)]
  have mr: "make_room e (length s) (length r) (int (p + length s)) b = Done (b1\<lparr>b_gap := b_gap b1 + (length r - length s)\<rparr>)"
  proof -
    have "\<not> length r - length s < b_egap b1 - b_gap b1" "length s < length r" using b1(3,4) assms(3) by simp_all
    then show ?thesis unfolding make_room_def mv by simp
  qed
  have "b_gap b' = b_gap b1 + (length r - length s)" "b_egap b' = b_egap b1"
    using assms(4) unfolding substitute_def mr by (auto split: option.splits)
  then show ?thesis using b1(3,4) assms(3) by simp
qed

text \<open>A replacement of the same length goes into the gap when the gap lies inside the match.\<close>

theorem replace_splits_match:
  "\<exists>b'. substitute e [98, 99] [120, 121] 3 (sample_buffer\<lparr>b_point := 1\<rparr>) = Done b' \<and> text_of b' = [97, 120, 99, 100]"
  by (simp add: substitute_def make_room_def put_block_def ptr_def samples text_of_def)

text \<open>Moving a word to the left from the first word steps in front of the text when the gap is at its start.\<close>

lemma word_left_first:
  assumes wf: "gap_wf b" "b_gap b = 0" "0 < b_egap b"
  shows "k < length (text_of b) \<Longrightarrow> \<forall>i \<le> k. \<not> isspace_byte (text_of b ! i) \<Longrightarrow> word_left e b False (int k) = Some (- 1)"
proof (induction k)
  case 0
  have "getc e b (- 1) = Some (b_buf b ! 0)" using wf by (auto simp: getc_def ptr_def gap_wf_def)
  then have l: "word_left e b False (- 1) = Some (- 1)" by (simp add: word_left.simps ptr_def)
  have c: "getc e b 0 = Some (text_of b ! 0)" using getc_text [OF wf(1), of 0 e] 0 by simp
  show ?case using c l 0 wf(2,3) by (subst word_left.simps) (simp add: ptr_def)
next
  case (Suc k)
  have "getc e b (int (Suc k)) = Some (text_of b ! Suc k)"
    using getc_text [OF wf(1), of "int (Suc k)" e] Suc.prems(1) unfolding nat_int by simp
  then have "word_left e b False (int (Suc k)) = word_left e b False (int k)"
    using Suc.prems wf(2) by (subst word_left.simps) (simp add: ptr_def)
  then show ?case using Suc by simp
qed

theorem wleft_leaves_text:
  assumes "gap_wf b" "b_gap b = 0" "0 < b_egap b" "b_point b = int k" "k < length (text_of b)"
    and "\<forall>i \<le> k. \<not> isspace_byte (text_of b ! i)"
  shows "wleft e b = Some (b\<lparr>b_point := - 1\<rparr>)"
proof -
  have "getc e b (- 1) = Some (b_buf b ! 0)" using assms(1-3) by (auto simp: getc_def ptr_def gap_wf_def)
  then have "word_left e b True (- 1) = Some (- 1)" by (simp add: word_left.simps ptr_def)
  then show ?thesis
    using word_left_first [OF assms(1-3,5,6)] assms(4) by (simp add: wleft_def at_point_def)
qed

text \<open>Inserting a file does not mark the buffer as modified.\<close>

theorem insert_file_not_marked:
  assumes "gap_wf b" "point_ok b" "insert_file e f True b = Done (True, b')"
  shows "b_modified b' = b_modified b"
proof -
  obtain sz where sz: "st_size f = Some sz" using assms(3) by (auto simp: insert_file_def split: option.splits)
  obtain bg where bg: "(if b_egap b - b_gap b < sz then growgap e b sz else Grown b) = Grown bg"
    using assms(3) sz by (auto simp: insert_file_def split: grow.splits)
  have g: "gap_wf bg" "point_ok bg" "b_modified bg = b_modified b"
    using bg assms(1,2) growgap_spec(2) [OF assms(1), of e sz] by (auto simp: point_ok_def split: if_splits)
  have "read_into_gap f sz True bg = Some (True, b')"
    using assms(3) sz bg by (auto simp: insert_file_def outcome_of_def split: if_splits option.splits)
  then obtain b1 p where mv: "movegap bg (b_point bg) = Some (b1, p)" "b_modified b' = b_modified b1"
    by (auto simp: read_into_gap_def Let_def bind_eq_Some_conv split: if_splits)
  have "b_modified b1 = b_modified bg"
  proof (rule gap_to_point [OF g(1,2)])
    fix c k assume "movegap bg (b_point bg) = Some (c, int k)" "b_modified c = b_modified bg"
    then show ?thesis using mv(1) by simp
  qed
  then show ?thesis using mv(2) g(3) by simp
qed

end
