(* ===== verification/Bigint.thy ===== *)
theory Bigint
  imports Prelude "HOL-Library.Signed_Division"
begin

text \<open>
  The integers of arbitrary size of \<open>math/bigint/bigint_int.c\<close>: a sign and components in radix
  \<open>2 ^ 31\<close>, the lowest first, kept in 64-bit signed integers. Components are \<open>int\<close>, and every
  operation on them that could leave 64 bits goes through \<open>chk\<close>: \<open>None\<close> stands for an overflow, which C
  leaves undefined, and for the signal \<open>SIGFPE\<close>, which ends the process. \<open>num_comps\<close> is the
  length of the list. Reference counts and the free list are left out: by the calling
  convention each operand is consumed by one operation, so numbers behave as values, and the
  checks of the counts are no part of the results.
\<close>

section \<open>Definitions\<close>

record bigint =
  sign :: int
  comps :: "int list"

definition bi_radix :: int where
  "bi_radix = push_bit (64 div 2 - 1) 1"

definition bi_radix_o2 :: int where
  "bi_radix_o2 = drop_bit 1 bi_radix"

definition chk :: "int \<Rightarrow> int option" where
  "chk x = (if - 9223372036854775808 \<le> x \<and> x < 9223372036854775808 then Some x else None)"

definition chk32 :: "int \<Rightarrow> int option" where
  "chk32 x = (if - 2147483648 \<le> x \<and> x < 2147483648 then Some x else None)"

definition num_comps :: "bigint \<Rightarrow> nat" where
  "num_comps bi = length (comps bi)"

text \<open>\<open>more_comps\<close> on the components.\<close>

definition more_comps :: "int list \<Rightarrow> nat \<Rightarrow> int list" where
  "more_comps cs n = cs @ replicate (n - length cs) 0"

subsection \<open>Normal form\<close>

text \<open>The four loops of \<open>normalize\<close>: borrow, switch the sign, carry, trim.\<close>

fun borrow :: "int list \<Rightarrow> int list option" where
  "borrow [] = Some []"
| "borrow [c] = Some [c]"
| "borrow (c # d # cs) =
     (if c < 0 then
        do {
          d \<leftarrow> chk (d + (c sdiv bi_radix - 1));
          let r = c smod bi_radix;
          if r \<noteq> 0 then do { cs \<leftarrow> borrow (d # cs); Some ((r + bi_radix) # cs) }
          else do { d \<leftarrow> chk (d + 1); cs \<leftarrow> borrow (d # cs); Some (r # cs) }
        }
      else do { cs \<leftarrow> borrow (d # cs); Some (c # cs) })"

fun switch_sign :: "int list \<Rightarrow> int list option" where
  "switch_sign [] = Some []"
| "switch_sign [c] = do { c \<leftarrow> chk (- c); Some [c] }"
| "switch_sign (c # d # cs) =
     do {
       c \<leftarrow> chk (bi_radix - c);
       d \<leftarrow> chk (d + 1);
       cs \<leftarrow> switch_sign (d # cs);
       Some (c # cs)
     }"

function carry :: "int list \<Rightarrow> int list option" where
  "carry [] = Some []"
| "carry (c # cs) =
     (if bi_radix \<le> c then
        (let ds = more_comps cs 1 in
         do {
           d \<leftarrow> chk (hd ds + c sdiv bi_radix);
           ds \<leftarrow> carry (d # tl ds);
           Some (c smod bi_radix # ds)
         })
      else do { cs \<leftarrow> carry cs; Some (c # cs) })"
  by pat_completeness auto
termination
  by (relation "measures [length, \<lambda>cs. nat (hd cs)]")
    (auto simp: more_comps_def chk_def bi_radix_def signed_divide_int_def int_div_less_self Suc_le_eq
      split: if_splits)

function trim :: "int list \<Rightarrow> int list" where
  "trim cs = (if 1 < length cs \<and> last cs = 0 then trim (butlast cs) else cs)"
  by pat_completeness auto
termination
  by (relation "measure length") auto

definition normalize :: "bigint \<Rightarrow> bigint option" where
  "normalize bi =
     (if comps bi = [] then None
      else
        do {
          cs \<leftarrow> borrow (comps bi);
          (s, cs) \<leftarrow>
            (if last cs < 0 then do { cs \<leftarrow> switch_sign cs; Some (- sign bi, cs) }
             else Some (sign bi, cs));
          cs \<leftarrow> carry cs;
          let cs = trim cs;
          Some \<lparr>sign = (if length cs = 1 \<and> cs ! 0 = 0 \<and> s = - 1 then 1 else s), comps = cs\<rparr>
        })"

subsection \<open>Predicates and conversions\<close>

definition bi_is_zero :: "bigint \<Rightarrow> bool" where
  "bi_is_zero bi = (sign bi = 1 \<and> num_comps bi = 1 \<and> comps bi ! 0 = 0)"

definition bi_is_one :: "bigint \<Rightarrow> bool" where
  "bi_is_one bi = (sign bi = 1 \<and> num_comps bi = 1 \<and> comps bi ! 0 = 1)"

definition bi_is_negative :: "bigint \<Rightarrow> bool" where
  "bi_is_negative bi = (sign bi = - 1)"

definition bi_is_odd :: "bigint \<Rightarrow> bool" where
  "bi_is_odd bi = (comps bi ! 0 AND 1 \<noteq> 0)"

text \<open>The loop of \<open>bi_compare\<close> from the high end, on the reversed components.\<close>

fun compare_down :: "int \<Rightarrow> int list \<Rightarrow> int list \<Rightarrow> int" where
  "compare_down s (a # as) (b # bs) =
     (if b < a then s else if a < b then - s else compare_down s as bs)"
| "compare_down s _ _ = 0"

definition bi_compare :: "bigint \<Rightarrow> bigint \<Rightarrow> int" where
  "bi_compare bia bib =
     (if sign bib < sign bia then 1
      else if sign bia < sign bib then - 1
      else if num_comps bib < num_comps bia then sign bia
      else if num_comps bia < num_comps bib then - sign bia
      else compare_down (sign bia) (rev (comps bia)) (rev (comps bib)))"

definition int_to_bi :: "int \<Rightarrow> bigint option" where
  "int_to_bi i = normalize \<lparr>sign = 1, comps = [i]\<rparr>"

definition bi_0 :: bigint where "bi_0 = \<lparr>sign = 1, comps = [0]\<rparr>"
definition bi_1 :: bigint where "bi_1 = \<lparr>sign = 1, comps = [1]\<rparr>"
definition bi_2 :: bigint where "bi_2 = \<lparr>sign = 1, comps = [2]\<rparr>"
definition bi_m1 :: bigint where "bi_m1 = \<lparr>sign = - 1, comps = [1]\<rparr>"
definition bi_maxint :: bigint where "bi_maxint = \<lparr>sign = 1, comps = [2147483647]\<rparr>"
definition bi_minint :: bigint where "bi_minint = \<lparr>sign = - 1, comps = [0, 1]\<rparr>"

fun to_int_loop :: "int \<Rightarrow> int \<Rightarrow> int list \<Rightarrow> int option" where
  "to_int_loop v m [] = Some v"
| "to_int_loop v m (c # cs) =
     do {
       p \<leftarrow> chk (c * m);
       v \<leftarrow> chk (v + p);
       m \<leftarrow> chk (m * bi_radix);
       to_int_loop v m cs
     }"

definition bi_to_int :: "bigint \<Rightarrow> int option" where
  "bi_to_int bi =
     (if 0 < bi_compare bi bi_maxint \<or> bi_compare bi bi_minint < 0 then None
      else
        do {
          v \<leftarrow> to_int_loop 0 1 (comps bi);
          r \<leftarrow> chk (sign bi * v);
          Some (signed_take_bit 31 r)
        })"

subsection \<open>Operations with an int\<close>

definition add_first :: "int \<Rightarrow> bigint \<Rightarrow> bigint option" where
  "add_first i bi =
     (case comps bi of
        [] \<Rightarrow> None
      | c # cs \<Rightarrow> do { c \<leftarrow> chk (c + i); normalize (bi\<lparr>comps := c # cs\<rparr>) })"

definition bi_int_add :: "bigint \<Rightarrow> int \<Rightarrow> bigint option" where
  "bi_int_add bi i = (if sign bi = 1 then add_first i bi else add_first (- i) bi)"

definition bi_int_subtract :: "bigint \<Rightarrow> int \<Rightarrow> bigint option" where
  "bi_int_subtract bi i = (if sign bi = 1 then add_first (- i) bi else add_first i bi)"

fun mul_comps :: "int \<Rightarrow> int list \<Rightarrow> int list option" where
  "mul_comps i [] = Some []"
| "mul_comps i (c # cs) = do { c \<leftarrow> chk (c * i); cs \<leftarrow> mul_comps i cs; Some (c # cs) }"

text \<open>A negative int operand is made positive, and the sign of the number switched.\<close>

definition int_sign :: "bigint \<Rightarrow> int \<Rightarrow> (bigint \<times> int) option" where
  "int_sign bi i =
     (if i < 0 then do { i \<leftarrow> chk32 (- i); Some (bi\<lparr>sign := - sign bi\<rparr>, i) } else Some (bi, i))"

definition bi_int_multiply :: "bigint \<Rightarrow> int \<Rightarrow> bigint option" where
  "bi_int_multiply bi i =
     do {
       (bi, i) \<leftarrow> int_sign bi i;
       cs \<leftarrow> mul_comps i (comps bi);
       normalize (bi\<lparr>comps := cs\<rparr>)
     }"

text \<open>The loop of \<open>bi_int_divide\<close> from the high end: the quotients, and the remainder \<open>r\<close>.\<close>

fun div_comps :: "int \<Rightarrow> int list \<Rightarrow> (int list \<times> int) option" where
  "div_comps denom [] = Some ([], 0)"
| "div_comps denom (c # cs) =
     do {
       (qs, r) \<leftarrow> div_comps denom cs;
       r \<leftarrow> chk (r * bi_radix);
       r \<leftarrow> chk (r + c);
       Some (r sdiv denom # qs, r smod denom)
     }"

definition bi_int_divide :: "bigint \<Rightarrow> int \<Rightarrow> bigint option" where
  "bi_int_divide binumer denom =
     (if denom = 0 then None
      else
        do {
          (bi, denom) \<leftarrow> int_sign binumer denom;
          (cs, r) \<leftarrow> div_comps denom (comps bi);
          normalize (bi\<lparr>comps := cs\<rparr>)
        })"

fun rem_loop :: "int \<Rightarrow> int \<Rightarrow> int \<Rightarrow> int list \<Rightarrow> int option" where
  "rem_loop m rad_r r [] = Some r"
| "rem_loop m rad_r r (c # cs) =
     do {
       p \<leftarrow> chk (c * rad_r);
       p \<leftarrow> chk (r + p);
       q \<leftarrow> chk (rad_r * bi_radix);
       rem_loop m (q smod m) (p smod m) cs
     }"

definition bi_int_rem :: "bigint \<Rightarrow> int \<Rightarrow> int option" where
  "bi_int_rem bi m =
     (if m = 0 then None
      else
        do {
          m \<leftarrow> (if m < 0 then chk32 (- m) else Some m);
          r \<leftarrow> rem_loop m 1 0 (comps bi);
          Some (signed_take_bit 31 (if sign bi < 1 then - r else r))
        })"

subsection \<open>Addition and multiplication\<close>

text \<open>\<open>comps[c + n] += bs[c]\<close> for all components of \<open>bs\<close>.\<close>

fun add_at :: "nat \<Rightarrow> int list \<Rightarrow> int list \<Rightarrow> int list option" where
  "add_at n [] rs = Some rs"
| "add_at n (b # bs) [] = None"
| "add_at 0 (b # bs) (r # rs) = do { r \<leftarrow> chk (r + b); rs \<leftarrow> add_at 0 bs rs; Some (r # rs) }"
| "add_at (Suc n) (b # bs) (r # rs) = do { rs \<leftarrow> add_at n (b # bs) rs; Some (r # rs) }"

definition add_comps :: "bigint \<Rightarrow> int list \<Rightarrow> bigint option" where
  "add_comps bi bs =
     do {
       cs \<leftarrow> add_at 0 bs (more_comps (comps bi) (max (num_comps bi) (length bs)));
       normalize (bi\<lparr>comps := cs\<rparr>)
     }"

definition bi_add :: "bigint \<Rightarrow> bigint \<Rightarrow> bigint option" where
  "bi_add bia bib = add_comps bia (if sign bia = sign bib then comps bib else map uminus (comps bib))"

definition bi_subtract :: "bigint \<Rightarrow> bigint \<Rightarrow> bigint option" where
  "bi_subtract bia bib = add_comps bia (if sign bia = sign bib then map uminus (comps bib) else comps bib)"

text \<open>
  The components of a number under an earlier, larger \<open>num_comps\<close>: those behind the end are the
  zeros that \<open>normalize\<close> took off.
\<close>

definition set_comps :: "int list \<Rightarrow> nat \<Rightarrow> int list" where
  "set_comps cs n = take n (more_comps cs n)"

fun mul_rows :: "nat \<Rightarrow> nat \<Rightarrow> int list \<Rightarrow> int list \<Rightarrow> bigint \<Rightarrow> bigint option" where
  "mul_rows new_comps c1 [] bs biR = Some biR"
| "mul_rows new_comps c1 (a # as) bs biR =
     do {
       row \<leftarrow> mul_comps a bs;
       cs \<leftarrow> add_at c1 row (set_comps (comps biR) new_comps);
       biR \<leftarrow> normalize (biR\<lparr>comps := cs\<rparr>);
       mul_rows new_comps (Suc c1) as bs biR
     }"

definition regular_multiply :: "bigint \<Rightarrow> bigint \<Rightarrow> bigint option" where
  "regular_multiply bia bib =
     do {
       biR \<leftarrow> mul_rows (num_comps bia + num_comps bib) 0 (comps bia) (comps bib) bi_0;
       Some (if bi_is_zero biR then biR else biR\<lparr>sign := sign bia * sign bib\<rparr>)
     }"

fun square_rows :: "nat \<Rightarrow> int list \<Rightarrow> int list \<Rightarrow> bigint \<Rightarrow> bigint option" where
  "square_rows new_comps pre [] biR = Some biR"
| "square_rows new_comps pre (c # cs) biR =
     do {
       d \<leftarrow> chk (2 * c);
       row \<leftarrow> mul_comps d pre;
       s \<leftarrow> chk (c * c);
       rs \<leftarrow> add_at (length pre) (row @ [s]) (set_comps (comps biR) new_comps);
       biR \<leftarrow> normalize (biR\<lparr>comps := rs\<rparr>);
       square_rows new_comps (pre @ [c]) cs biR
     }"

definition regular_square :: "bigint \<Rightarrow> bigint option" where
  "regular_square bi = square_rows (num_comps bi * 2) [] (comps bi) bi_0"

text \<open>The upper and the lower half of the components, filled up to \<open>n\<close> with zeros.\<close>

definition high_part :: "nat \<Rightarrow> bigint \<Rightarrow> bigint option" where
  "high_part n bi =
     normalize \<lparr>sign = 1, comps = map (\<lambda>c. if c + n < num_comps bi then comps bi ! (c + n) else 0) [0..<n]\<rparr>"

definition low_part :: "nat \<Rightarrow> bigint \<Rightarrow> bigint option" where
  "low_part n bi =
     normalize \<lparr>sign = 1, comps = map (\<lambda>c. if c < num_comps bi then comps bi ! c else 0) [0..<n]\<rparr>"

text \<open>The end of both Karatsuba functions: \<open>lo + mid * radix ^ n + hi * radix ^ (2 * n)\<close>.\<close>

definition join_parts :: "nat \<Rightarrow> int \<Rightarrow> bigint \<Rightarrow> bigint \<Rightarrow> bigint \<Rightarrow> bigint option" where
  "join_parts n s hi mid lo =
     do {
       cs \<leftarrow> add_at n (comps mid)
              (more_comps (comps lo) (max (num_comps mid + n) (num_comps hi + n * 2)));
       cs \<leftarrow> add_at (n * 2) (comps hi) cs;
       normalize \<lparr>sign = s, comps = cs\<rparr>
     }"

definition KARATSUBA_MULT_THRESH :: nat where "KARATSUBA_MULT_THRESH = 16"

text \<open>\<open>bi_multiply\<close>, with \<open>karatsuba_multiply\<close> in its second branch.\<close>

partial_function (option) bi_multiply :: "bigint \<Rightarrow> bigint \<Rightarrow> bigint option" where
  "bi_multiply bia bib =
     (if min (num_comps bia) (num_comps bib) < KARATSUBA_MULT_THRESH then regular_multiply bia bib
      else
        (let n = (max (num_comps bia) (num_comps bib) + 1) div 2 in
         do {
           i \<leftarrow> high_part n bia;
           j \<leftarrow> low_part n bia;
           k \<leftarrow> high_part n bib;
           l \<leftarrow> low_part n bib;
           ik \<leftarrow> bi_multiply i k;
           jl \<leftarrow> bi_multiply j l;
           s \<leftarrow> bi_add i j;
           t \<leftarrow> bi_add k l;
           mid \<leftarrow> bi_multiply s t;
           mid \<leftarrow> bi_subtract mid ik;
           mid \<leftarrow> bi_subtract mid jl;
           join_parts n (sign bia * sign bib) ik mid jl
         }))"

definition KARATSUBA_SQUARE_THRESH :: nat where "KARATSUBA_SQUARE_THRESH = 20"

text \<open>\<open>bi_square\<close>, with \<open>karatsuba_square\<close> in its second branch.\<close>

partial_function (option) bi_square :: "bigint \<Rightarrow> bigint option" where
  "bi_square bi =
     (if num_comps bi < KARATSUBA_SQUARE_THRESH then regular_square bi
      else
        (let n = (num_comps bi + 1) div 2 in
         do {
           i \<leftarrow> high_part n bi;
           j \<leftarrow> low_part n bi;
           ii \<leftarrow> bi_square i;
           jj \<leftarrow> bi_square j;
           s \<leftarrow> bi_add i j;
           mid \<leftarrow> bi_square s;
           mid \<leftarrow> bi_subtract mid ii;
           mid \<leftarrow> bi_subtract mid jj;
           join_parts n (sign jj) ii mid jj
         }))"

subsection \<open>Sign, halving and doubling\<close>

definition bi_negate :: "bigint \<Rightarrow> bigint" where
  "bi_negate bi = bi\<lparr>sign := - sign bi\<rparr>"

definition bi_abs :: "bigint \<Rightarrow> bigint" where
  "bi_abs bi = bi\<lparr>sign := 1\<rparr>"

fun half_comps :: "int list \<Rightarrow> int list" where
  "half_comps [] = []"
| "half_comps [c] = [drop_bit 1 c]"
| "half_comps (c # d # cs) =
     (drop_bit 1 c + (if d AND 1 \<noteq> 0 then bi_radix_o2 else 0)) # half_comps (d # cs)"

definition bi_half :: "bigint \<Rightarrow> bigint" where
  "bi_half bi =
     (let cs = half_comps (comps bi) in
      bi\<lparr>comps := (if 1 < length cs \<and> last cs = 0 then butlast cs else cs)\<rparr>)"

text \<open>The loop of \<open>bi_double\<close> runs from the high end.\<close>

fun double_comps :: "int list \<Rightarrow> int list" where
  "double_comps [] = []"
| "double_comps (c # cs) =
     (let ds = double_comps cs; c = push_bit 1 c in
      if bi_radix \<le> c then (let ds = more_comps ds 1 in (c - bi_radix) # (hd ds + 1) # tl ds)
      else c # ds)"

definition bi_double :: "bigint \<Rightarrow> bigint" where
  "bi_double bi = bi\<lparr>comps := double_comps (comps bi)\<rparr>"

subsection \<open>Square roots and bits of a component\<close>

partial_function (option) ecsqrt_loop :: "int \<Rightarrow> int \<Rightarrow> int option" where
  "ecsqrt_loop c r =
     (if r = 0 then None
      else
        (let r2 = c sdiv r; diff = r - r2 in
         if diff = 0 \<or> diff = - 1 then Some (signed_take_bit 31 r)
         else if diff = 1 then Some (signed_take_bit 31 r2)
         else ecsqrt_loop c ((r + r2) sdiv 2)))"

definition ecsqrt :: "int \<Rightarrow> int option" where
  "ecsqrt c = (if c < 0 then None else ecsqrt_loop c (c sdiv 2))"

definition bi_radix_sqrt :: int where
  "bi_radix_sqrt = the (ecsqrt bi_radix)"

text \<open>For a negative component the loop would not end; the callers pass none.\<close>

function cbits :: "int \<Rightarrow> nat" where
  "cbits c = (if c \<le> 0 then 0 else Suc (cbits (drop_bit 1 c)))"
  by pat_completeness auto
termination
  by (relation "measure nat") (auto simp: drop_bit_eq_div)

definition bi_comp_bits :: nat where
  "bi_comp_bits = cbits (bi_radix - 1)"

definition cbit :: "int \<Rightarrow> nat \<Rightarrow> bool" where
  "cbit c bitnum = (c AND push_bit bitnum 1 \<noteq> 0)"

definition bi_bit :: "bigint \<Rightarrow> nat \<Rightarrow> bool" where
  "bi_bit bi bitnum =
     (let ci = bitnum div bi_comp_bits in
      if num_comps bi \<le> ci then False else cbit (comps bi ! ci) (bitnum - ci * bi_comp_bits))"

definition bi_bits :: "bigint \<Rightarrow> nat" where
  "bi_bits bi = bi_comp_bits * (num_comps bi - 1) + cbits (comps bi ! (num_comps bi - 1))"

definition bi_int_and :: "bigint \<Rightarrow> int \<Rightarrow> int" where
  "bi_int_and bi m = signed_take_bit 31 (comps bi ! 0 AND m)"

subsection \<open>Division\<close>

text \<open>
  Shifting the approximation down by \<open>o'\<close> components leaves none if it has no more than that: then
  the next operation reads in front of the array.
\<close>

partial_function (option) multi_divide2 :: "bigint \<Rightarrow> bigint \<Rightarrow> bigint option" where
  "multi_divide2 binumer bidenom =
     (let o' = num_comps bidenom - 1 in
      do {
        approx \<leftarrow> bi_int_divide binumer (comps bidenom ! o');
        approx \<leftarrow> (if num_comps approx \<le> o' then None
                   else Some (approx\<lparr>comps := drop o' (comps approx)\<rparr>));
        p \<leftarrow> bi_multiply approx bidenom;
        birem \<leftarrow> bi_subtract p binumer;
        if bi_is_negative birem \<or> bi_is_zero birem then Some approx
        else if bi_compare birem bidenom < 0 then bi_int_subtract approx 1
        else do { q \<leftarrow> multi_divide2 birem bidenom; bi_subtract approx q }
      })"

definition multi_divide :: "bigint \<Rightarrow> bigint \<Rightarrow> bigint option" where
  "multi_divide binumer bidenom =
     (if comps bidenom ! (num_comps bidenom - 1) < bi_radix_sqrt then
        do {
          binumer \<leftarrow> bi_int_multiply binumer bi_radix_sqrt;
          bidenom \<leftarrow> bi_int_multiply bidenom bi_radix_sqrt;
          multi_divide2 binumer bidenom
        }
      else multi_divide2 binumer bidenom)"

text \<open>
  The signs and trivial cases that \<open>bi_divide\<close> and \<open>bi_binary_divide\<close> share; they differ in the
  division of long numbers.
\<close>

definition divide_by ::
    "(bigint \<Rightarrow> bigint \<Rightarrow> bigint option) \<Rightarrow> bigint \<Rightarrow> bigint \<Rightarrow> bigint option" where
  "divide_by long binumer bidenom =
     (if bi_compare bidenom bi_0 = 0 then None
      else
        (let (s, bidenom) = (if bi_compare bidenom bi_0 = - 1 then (- 1, bi_negate bidenom) else (1, bidenom)) in
         if bi_compare binumer bi_0 = 0 then Some bi_0
         else
           (let (s, binumer) =
              (if bi_compare binumer bi_0 = - 1 then (s * - 1, bi_negate binumer) else (s, binumer)) in
            if bi_compare binumer bidenom = - 1 then Some bi_0
            else if bi_compare binumer bidenom = 0 then Some (if s = 1 then bi_1 else bi_m1)
            else
              do {
                q \<leftarrow> (if num_comps bidenom = 1 then bi_int_divide binumer (comps bidenom ! 0)
                      else long binumer bidenom);
                Some (if s = (- 1 :: int) then bi_negate q else q)
              })))"

definition bi_divide :: "bigint \<Rightarrow> bigint \<Rightarrow> bigint option" where
  "bi_divide = divide_by multi_divide"

declare bi_multiply.simps [code] bi_square.simps [code] ecsqrt_loop.simps [code] multi_divide2.simps [code]

end
