(* ===== verification/BigintExt.thy ===== *)
theory BigintExt
  imports Bigint "HOL-Library.Char_ord"
begin

text \<open>
  The functions of \<open>math/bigint/bigint_ext.c\<close> over the operations of \<open>bigint_int.c\<close>, with the three
  functions of \<open>bigint_int.c\<close> that call them (\<open>bi_mod_multiply\<close>, \<open>bi_binary_divide\<close>, \<open>bi_sqrt\<close>). C strings are the
  characters before the terminating zero, a file is the string that is left to read. \<open>None\<close> stands for
  \<open>SIGFPE\<close>, for undefined behaviour, and for a loop that does not end. The values of \<open>random\<close> are
  arguments, and so is the table of small primes.
\<close>

section \<open>Definitions\<close>

subsection \<open>Text\<close>

definition char_to_digit :: "char \<Rightarrow> int" where
  "char_to_digit ch =
     (let c = of_char ch :: int in
      if of_char CHR ''0'' \<le> c \<and> c \<le> of_char CHR ''9'' then c - of_char CHR ''0''
      else if of_char CHR ''a'' \<le> c \<and> c \<le> of_char CHR ''z'' then c - of_char CHR ''a'' + 10
      else if of_char CHR ''A'' \<le> c \<and> c \<le> of_char CHR ''A'' then c - of_char CHR ''A'' + 10
      else - 1)"

definition digit_to_char :: "int \<Rightarrow> char" where
  "digit_to_char d =
     (if 0 \<le> d \<and> d \<le> 9 then char_of (d + of_char CHR ''0'') else char_of (d - 10 + of_char CHR ''a''))"

text \<open>
  The loop of \<open>str_to_bi_base\<close> and \<open>bi_scan_base\<close>: the number, and the text from the character on that
  ended it.
\<close>

fun scan_digits :: "int \<Rightarrow> string \<Rightarrow> bigint \<Rightarrow> (bigint \<times> string) option" where
  "scan_digits base [] biR = Some (biR, [])"
| "scan_digits base (c # str) biR =
     (let d = char_to_digit c in
      if d = - 1 \<or> base \<le> d then Some (biR, c # str)
      else
        do {
          biR \<leftarrow> bi_int_multiply biR base;
          biR \<leftarrow> bi_int_add biR d;
          scan_digits base str biR
        })"

definition str_to_bi_base :: "string \<Rightarrow> int \<Rightarrow> bigint option" where
  "str_to_bi_base str base =
     (let (s, str) = (case str of c # cs \<Rightarrow> if c = CHR ''-'' then (- 1 :: int, cs) else (1, str) | [] \<Rightarrow> (1, str)) in
      do {
        (biR, rest) \<leftarrow> scan_digits base str bi_0;
        Some (if s = - 1 then bi_negate biR else biR)
      })"

definition str_to_bi :: "string \<Rightarrow> bigint option" where
  "str_to_bi str = str_to_bi_base str 10"

text \<open>\<open>bi_scan_base\<close> has also read the character that ended the number.\<close>

definition bi_scan_base :: "string \<Rightarrow> int \<Rightarrow> (bigint \<times> string) option" where
  "bi_scan_base f base =
     (let (s, f) = (case f of c # cs \<Rightarrow> if c = CHR ''-'' then (- 1 :: int, cs) else (1, f) | [] \<Rightarrow> (1, f)) in
      do {
        (biR, rest) \<leftarrow> scan_digits base f bi_0;
        Some (if s = - 1 then bi_negate biR else biR, drop 1 rest)
      })"

definition bi_scan :: "string \<Rightarrow> (bigint \<times> string) option" where
  "bi_scan f = bi_scan_base f 10"

definition bi_int_mod :: "bigint \<Rightarrow> int \<Rightarrow> int option" where
  "bi_int_mod bi m =
     (if m \<le> 0 then None
      else do { r \<leftarrow> bi_int_rem bi m; Some (if r < 0 then r + m else r) })"

partial_function (option) print_pos :: "bigint \<Rightarrow> int \<Rightarrow> string option" where
  "print_pos bi base =
     do {
       b \<leftarrow> int_to_bi base;
       f \<leftarrow> (if 0 \<le> bi_compare bi b then do { q \<leftarrow> bi_int_divide bi base; print_pos q base } else Some []);
       d \<leftarrow> bi_int_mod bi base;
       Some (f @ [digit_to_char d])
     }"

definition bi_print_base :: "bigint \<Rightarrow> int \<Rightarrow> string option" where
  "bi_print_base bi base =
     (if bi_is_negative bi then do { f \<leftarrow> print_pos (bi_negate bi) base; Some (CHR ''-'' # f) }
      else print_pos bi base)"

definition bi_print :: "bigint \<Rightarrow> string option" where
  "bi_print bi = bi_print_base bi 10"

subsection \<open>Remainders and powers\<close>

definition bi_rem :: "bigint \<Rightarrow> bigint \<Rightarrow> bigint option" where
  "bi_rem bia bim =
     do {
       q \<leftarrow> bi_divide bia bim;
       p \<leftarrow> bi_multiply q bim;
       bi_subtract bia p
     }"

definition bi_mod :: "bigint \<Rightarrow> bigint \<Rightarrow> bigint option" where
  "bi_mod bia bim =
     (if bi_compare bim bi_0 \<le> 0 then None
      else do { biR \<leftarrow> bi_rem bia bim; if bi_is_negative biR then bi_add biR bim else Some biR })"

fun power_loop :: "bigint \<Rightarrow> nat list \<Rightarrow> bigint \<Rightarrow> bigint \<Rightarrow> bigint option" where
  "power_loop biexp [] bi biR = Some biR"
| "power_loop biexp (bitnum # ns) bi biR =
     do {
       bi \<leftarrow> bi_square bi;
       biR \<leftarrow> (if bi_bit biexp bitnum then bi_multiply biR bi else Some biR);
       power_loop biexp ns bi biR
     }"

definition bi_power :: "bigint \<Rightarrow> bigint \<Rightarrow> bigint option" where
  "bi_power bi biexp =
     (if bi_is_negative biexp then None
      else power_loop biexp [1..<bi_bits biexp] bi (if bi_bit biexp 0 then bi else bi_1))"

partial_function (option) factorial_loop :: "bigint \<Rightarrow> bigint \<Rightarrow> bigint option" where
  "factorial_loop bi biR =
     (if 0 < bi_compare bi bi_1 then
        do {
          biR \<leftarrow> bi_multiply biR bi;
          bi \<leftarrow> bi_int_subtract bi 1;
          factorial_loop bi biR
        }
      else Some biR)"

definition bi_factorial :: "bigint \<Rightarrow> bigint option" where
  "bi_factorial bi = factorial_loop bi bi_1"

definition bi_is_even :: "bigint \<Rightarrow> bool" where
  "bi_is_even bi = (\<not> bi_is_odd bi)"

definition bi_digits :: "bigint \<Rightarrow> int" where
  "bi_digits bi = (int (bi_bits bi) * 1000001 + 3321928) sdiv 3321929"

subsection \<open>Modular arithmetic\<close>

text \<open>An operand outside of \<open>[0..bim)\<close>.\<close>

definition outside :: "bigint \<Rightarrow> bigint \<Rightarrow> bool" where
  "outside bia bim = (bi_is_negative bia \<or> 0 \<le> bi_compare bia bim)"

definition bi_mod_add :: "bigint \<Rightarrow> bigint \<Rightarrow> bigint \<Rightarrow> bigint option" where
  "bi_mod_add bia bib bim =
     (if bi_compare bim bi_0 \<le> 0 then None
      else if outside bia bim \<or> outside bib bim then do { s \<leftarrow> bi_add bia bib; bi_mod s bim }
      else
        do {
          biR \<leftarrow> bi_add bia bib;
          if 0 \<le> bi_compare biR bim then bi_subtract biR bim else Some biR
        })"

definition bi_mod_subtract :: "bigint \<Rightarrow> bigint \<Rightarrow> bigint \<Rightarrow> bigint option" where
  "bi_mod_subtract bia bib bim =
     (if bi_compare bim bi_0 \<le> 0 then None
      else if outside bia bim \<or> outside bib bim then do { s \<leftarrow> bi_subtract bia bib; bi_mod s bim }
      else
        do {
          biR \<leftarrow> bi_subtract bia bib;
          if bi_is_negative biR then bi_add biR bim else Some biR
        })"

definition bi_mod_multiply :: "bigint \<Rightarrow> bigint \<Rightarrow> bigint \<Rightarrow> bigint option" where
  "bi_mod_multiply bia bib bim =
     do {
       bia \<leftarrow> (if outside bia bim then bi_mod bia bim else Some bia);
       bib \<leftarrow> (if outside bib bim then bi_mod bib bim else Some bib);
       p \<leftarrow> bi_multiply bia bib;
       bi_mod p bim
     }"

definition bi_mod_square :: "bigint \<Rightarrow> bigint \<Rightarrow> bigint option" where
  "bi_mod_square bi bim = bi_mod_multiply bi bi bim"

text \<open>Euclid's extended algorithm: the gcd and the two multipliers.\<close>

partial_function (option) egcd_loop ::
    "bigint \<Rightarrow> bigint \<Rightarrow> bigint \<Rightarrow> bigint \<Rightarrow> bigint \<Rightarrow> bigint \<Rightarrow> (bigint \<times> bigint \<times> bigint) option" where
  "egcd_loop a0 b0 c0 a1 b1 c1 =
     (if bi_is_zero c1 then Some (c0, a0, b0)
      else
        do {
          q \<leftarrow> bi_divide c0 c1;
          p \<leftarrow> bi_multiply q a1;
          a \<leftarrow> bi_subtract a0 p;
          p \<leftarrow> bi_multiply q b1;
          b \<leftarrow> bi_subtract b0 p;
          p \<leftarrow> bi_multiply q c1;
          c \<leftarrow> bi_subtract c0 p;
          egcd_loop a1 b1 c1 a b c
        })"

partial_function (option) bi_egcd :: "bigint \<Rightarrow> bigint \<Rightarrow> (bigint \<times> bigint \<times> bigint) option" where
  "bi_egcd bix biy =
     (if bi_is_negative bix then
        do { (g, t, y_mul) \<leftarrow> bi_egcd (bi_negate bix) biy; Some (g, bi_negate t, y_mul) }
      else if bi_is_negative biy then
        do { (g, x_mul, t) \<leftarrow> bi_egcd bix (bi_negate biy); Some (g, x_mul, bi_negate t) }
      else if bi_compare bix biy < 0 then
        do { (g, y_mul, x_mul) \<leftarrow> bi_egcd biy bix; Some (g, x_mul, y_mul) }
      else egcd_loop bi_1 bi_0 bix bi_0 bi_1 biy)"

definition bi_mod_inverse :: "bigint \<Rightarrow> bigint \<Rightarrow> bigint option" where
  "bi_mod_inverse bi bim =
     do {
       (g, mul0, mul1) \<leftarrow> bi_egcd bim bi;
       if \<not> bi_is_one g then None else bi_mod mul1 bim
     }"

fun mod_power_loop :: "bigint \<Rightarrow> bigint \<Rightarrow> nat list \<Rightarrow> bigint \<Rightarrow> bigint \<Rightarrow> bigint option" where
  "mod_power_loop biexp bim [] bi biR = Some biR"
| "mod_power_loop biexp bim (bitnum # ns) bi biR =
     do {
       bi \<leftarrow> bi_mod_square bi bim;
       biR \<leftarrow> (if bi_bit biexp bitnum then bi_mod_multiply biR bi bim else Some biR);
       mod_power_loop biexp bim ns bi biR
     }"

definition bi_mod_power :: "bigint \<Rightarrow> bigint \<Rightarrow> bigint \<Rightarrow> bigint option" where
  "bi_mod_power bi biexp bim =
     (let (biexp, invert) = (if bi_is_negative biexp then (bi_negate biexp, True) else (biexp, False)) in
      do {
        biR \<leftarrow> (if bi_bit biexp 0 then bi_mod bi bim else Some bi_1);
        biR \<leftarrow> mod_power_loop biexp bim [1..<bi_bits biexp] bi biR;
        if invert then bi_mod_inverse biR bim else Some biR
      })"

subsection \<open>Greatest common divisor\<close>

partial_function (option) halve_both :: "bigint \<Rightarrow> bigint \<Rightarrow> bigint \<Rightarrow> (bigint \<times> bigint \<times> bigint) option" where
  "halve_both bix biy big =
     (if bi_is_even bix \<and> bi_is_even biy then halve_both (bi_half bix) (bi_half biy) (bi_double big)
      else Some (bix, biy, big))"

partial_function (option) strip_twos :: "bigint \<Rightarrow> bigint option" where
  "strip_twos bi = (if bi_is_even bi then strip_twos (bi_half bi) else Some bi)"

partial_function (option) gcd_loop :: "bigint \<Rightarrow> bigint \<Rightarrow> bigint option" where
  "gcd_loop bix biy =
     (if bi_is_zero bix then Some biy
      else
        do {
          bix \<leftarrow> strip_twos bix;
          biy \<leftarrow> strip_twos biy;
          d \<leftarrow> bi_subtract bix biy;
          let bit' = bi_half (bi_abs d);
          if 0 \<le> bi_compare bix biy then gcd_loop bit' biy else gcd_loop bix bit'
        })"

definition bi_gcd :: "bigint \<Rightarrow> bigint \<Rightarrow> bigint option" where
  "bi_gcd bix biy =
     (let bix = bi_abs bix; biy = bi_abs biy;
          (bix, biy) = (if bi_compare bix biy < 0 then (biy, bix) else (bix, biy)) in
      do {
        (bix, biy, big) \<leftarrow> halve_both bix biy bi_1;
        biy \<leftarrow> gcd_loop bix biy;
        bi_multiply big biy
      })"

definition bi_lcm :: "bigint \<Rightarrow> bigint \<Rightarrow> bigint option" where
  "bi_lcm bia bib =
     do {
       p \<leftarrow> bi_multiply bia bib;
       g \<leftarrow> bi_gcd bia bib;
       bi_divide p g
     }"

subsection \<open>The Jacobi symbol\<close>

partial_function (option) strip_signed :: "int \<Rightarrow> bigint \<Rightarrow> int \<Rightarrow> (bigint \<times> int) option" where
  "strip_signed j2 bia c = (if bi_is_even bia then strip_signed j2 (bi_half bia) (c * j2) else Some (bia, c))"

partial_function (option) bi_jacobi :: "bigint \<Rightarrow> bigint \<Rightarrow> bigint option" where
  "bi_jacobi bia bib =
     (if bi_is_even bib then None
      else if 0 \<le> bi_compare bia bib then do { bia \<leftarrow> bi_mod bia bib; bi_jacobi bia bib }
      else if bi_is_zero bia \<or> bi_is_one bia then Some bia
      else if bi_compare bia bi_2 = 0 then
        (if bi_int_and bib 7 = 1 \<or> bi_int_and bib 7 = 7 then Some bi_1
         else if bi_int_and bib 7 = 3 \<or> bi_int_and bib 7 = 5 then Some bi_m1
         else None)
      else if bi_is_even bia then
        do {
          j \<leftarrow> bi_jacobi bi_2 bib;
          j2 \<leftarrow> bi_to_int j;
          (bia, c) \<leftarrow> strip_signed j2 (bi_half bia) j2;
          r \<leftarrow> bi_jacobi bia bib;
          Some (if c = - 1 then bi_negate r else r)
        }
      else
        do {
          r \<leftarrow> bi_jacobi bib bia;
          Some (if bi_int_and bia 3 = 3 \<and> bi_int_and bib 3 = 3 then bi_negate r else r)
        })"

subsection \<open>Square root and binary division\<close>

partial_function (option) sqrt_loop :: "bigint \<Rightarrow> bigint \<Rightarrow> bigint option" where
  "sqrt_loop bi biR =
     do {
       biR2 \<leftarrow> bi_divide bi biR;
       bidiff \<leftarrow> bi_subtract biR biR2;
       if bi_is_zero bidiff \<or> bi_compare bidiff bi_m1 = 0 then Some biR
       else if bi_is_one bidiff then Some biR2
       else do { s \<leftarrow> bi_add biR biR2; sqrt_loop bi (bi_half s) }
     }"

definition bi_sqrt :: "bigint \<Rightarrow> bigint option" where
  "bi_sqrt bi =
     (if bi_compare bi bi_0 = - 1 then None
      else if bi_compare bi bi_0 = 0 \<or> bi_is_one bi then Some bi
      else
        do {
          b \<leftarrow> int_to_bi bi_radix_sqrt;
          e \<leftarrow> int_to_bi (int (num_comps bi - 1));
          p \<leftarrow> bi_power b e;
          r \<leftarrow> ecsqrt (comps bi ! (num_comps bi - 1));
          biR \<leftarrow> bi_int_multiply p r;
          sqrt_loop bi biR
        })"

fun binary_loop :: "nat \<Rightarrow> bigint \<Rightarrow> bigint \<Rightarrow> bigint \<Rightarrow> bigint option" where
  "binary_loop 0 biquotient binumer bidenom = Some biquotient"
| "binary_loop (Suc n) biquotient binumer bidenom =
     (let biquotient = bi_double biquotient in
      if 0 \<le> bi_compare binumer bidenom then
        do {
          biquotient \<leftarrow> bi_int_add biquotient 1;
          binumer \<leftarrow> bi_subtract binumer bidenom;
          binary_loop n biquotient binumer (bi_half bidenom)
        }
      else binary_loop n biquotient binumer (bi_half bidenom))"

text \<open>\<open>for ( i = den_bits; i <= num_bits; ++i )\<close>\<close>

definition binary_long :: "bigint \<Rightarrow> bigint \<Rightarrow> bigint option" where
  "binary_long binumer bidenom =
     (let num_bits = bi_bits binumer; den_bits = bi_bits bidenom in
      do {
        e \<leftarrow> int_to_bi (int num_bits - int den_bits);
        p \<leftarrow> bi_power bi_2 e;
        bidenom \<leftarrow> bi_multiply bidenom p;
        binary_loop (num_bits + 1 - den_bits) bi_0 binumer bidenom
      })"

definition bi_binary_divide :: "bigint \<Rightarrow> bigint \<Rightarrow> bigint option" where
  "bi_binary_divide = divide_by binary_long"

declare print_pos.simps [code] factorial_loop.simps [code] egcd_loop.simps [code] bi_egcd.simps [code]
  halve_both.simps [code] strip_twos.simps [code] gcd_loop.simps [code] strip_signed.simps [code]
  bi_jacobi.simps [code] sqrt_loop.simps [code]

end
