(* ===== verification/Bigint_Proofs.thy ===== *)
theory Bigint_Proofs
  imports Bigint
begin

text \<open>
  The numbers of \<open>bigint_int.c\<close> as integers: \<open>normalize\<close> gives every number its normal form, and the
  operations compute on the values what their names say, without an overflow of a component.
\<close>

section \<open>Definitions\<close>

primrec num :: "int list \<Rightarrow> int" where
  "num [] = 0"
| "num (c # cs) = c + bi_radix * num cs"

definition value_of :: "bigint \<Rightarrow> int" where
  "value_of bi = sign bi * num (comps bi)"

definition digits :: "int list \<Rightarrow> bool" where
  "digits cs = (\<forall>c \<in> set cs. 0 \<le> c \<and> c < bi_radix)"

text \<open>The normal form of the comment at \<open>normalize\<close>.\<close>

definition normal :: "bigint \<Rightarrow> bool" where
  "normal bi =
     (digits (comps bi) \<and>
      (comps bi = [0] \<and> sign bi = 1 \<or>
       comps bi \<noteq> [] \<and> last (comps bi) \<noteq> 0 \<and> (sign bi = 1 \<or> sign bi = - 1)))"

text \<open>
  What \<open>normalize\<close> can take: components that are not negative and leave room for a carry, or
  components below the radix that leave room for a borrow.
\<close>

definition roomy :: "int list \<Rightarrow> bool" where
  "roomy cs =
     ((\<forall>c \<in> set cs. 0 \<le> c \<and> c \<le> 9223372032559808511) \<or>
      (\<forall>c \<in> set cs. - 4611686018427387904 \<le> c \<and> c < bi_radix))"

section \<open>Components\<close>

declare carry.simps(2) [simp del] trim.simps [simp del]

lemma radix_eq: "bi_radix = 2147483648"
  by (simp add: bi_radix_def push_bit_eq_mult)

lemma radix_pos [simp]: "0 < bi_radix"
  by (simp add: radix_eq)

lemma radix_nonneg [simp]: "0 \<le> bi_radix"
  by (simp add: radix_eq)

lemma chk_Some: "- 9223372036854775808 \<le> x \<Longrightarrow> x < 9223372036854775808 \<Longrightarrow> chk x = Some x"
  by (simp add: chk_def)

lemma digits_simps [simp]:
  "digits []"
  "digits (c # cs) \<longleftrightarrow> 0 \<le> c \<and> c < bi_radix \<and> digits cs"
  "digits (as @ bs) \<longleftrightarrow> digits as \<and> digits bs"
  by (auto simp: digits_def)

lemma digits_replicate [simp]: "digits (replicate n 0)"
  by (simp add: digits_def)

lemma num_append: "num (as @ bs) = num as + bi_radix ^ length as * num bs"
  by (induction as) (simp_all add: algebra_simps)

lemma num_replicate [simp]: "num (replicate n 0) = 0"
  by (induction n) simp_all

lemma num_more_comps [simp]: "num (more_comps cs n) = num cs"
  by (simp add: more_comps_def num_append)

lemma num_uminus [simp]: "num (map uminus cs) = - num cs"
  by (induction cs) simp_all

lemma num_nonneg: "digits cs \<Longrightarrow> 0 \<le> num cs"
  by (induction cs) simp_all

lemma num_less: "digits cs \<Longrightarrow> num cs < bi_radix ^ length cs"
proof (induction cs)
  case (Cons c cs)
  then have "c < bi_radix" and "num cs + 1 \<le> bi_radix ^ length cs" by auto
  then have "c + bi_radix * num cs < bi_radix * (num cs + 1)" by (simp add: algebra_simps)
  also have "\<dots> \<le> bi_radix * bi_radix ^ length cs"
    using \<open>num cs + 1 \<le> bi_radix ^ length cs\<close> by (intro mult_left_mono) simp_all
  finally show ?case by simp
qed simp

lemma num_ge: "digits cs \<Longrightarrow> cs \<noteq> [] \<Longrightarrow> last cs \<noteq> 0 \<Longrightarrow> bi_radix ^ (length cs - 1) \<le> num cs"
proof (induction cs rule: rev_induct)
  case (snoc c cs)
  then have "1 \<le> c" and "0 \<le> num cs" using num_nonneg by auto
  then have "bi_radix ^ length cs * 1 \<le> bi_radix ^ length cs * c" by (intro mult_left_mono) simp_all
  moreover have "num (cs @ [c]) = num cs + bi_radix ^ length cs * c" by (simp add: num_append)
  ultimately have "bi_radix ^ length cs \<le> num (cs @ [c])" using \<open>0 \<le> num cs\<close> by linarith
  then show ?case by simp
qed simp

lemma more_comps_1 [simp]: "more_comps (c # cs) (Suc 0) = c # cs" "more_comps [] (Suc 0) = [0]"
  by (simp_all add: more_comps_def)

section \<open>Normal form\<close>

lemma sdiv_radix_neg:
  assumes "c < 0"
  shows "c sdiv bi_radix = - ((- c) div bi_radix)" "c smod bi_radix = - ((- c) mod bi_radix)"
  using assms by (simp_all add: signed_divide_int_def signed_modulo_int_def radix_eq)

lemma sdiv_radix_pos:
  assumes "0 \<le> c"
  shows "c sdiv bi_radix = c div bi_radix" "c smod bi_radix = c mod bi_radix"
  using assms by (auto simp: signed_divide_int_def signed_modulo_int_def radix_eq sgn_if)

text \<open>One turn of the borrowing loop.\<close>

lemma borrow_step:
  assumes "- 4611686022722355202 \<le> c" "c < bi_radix" "- 4611686018427387904 \<le> d" "d < bi_radix"
  obtains c' d' where "borrow (c # d # cs) = map_option ((#) c') (borrow (d' # cs))"
    "0 \<le> c'" "c' < bi_radix" "c + bi_radix * d = c' + bi_radix * d'"
    "- 4611686022722355202 \<le> d'" "d' < bi_radix"
proof (cases "c < 0")
  case True
  define q r where "q = (- c) div bi_radix" and "r = (- c) mod bi_radix"
  have qr: "- c = bi_radix * q + r" "0 \<le> r" "r < bi_radix"
    by (simp_all add: q_def r_def)
  with True assms(1) have q: "0 \<le> q" "q \<le> 2147483652" by (auto simp: radix_eq)
  have 1: "chk (d - q - 1) = Some (d - q - 1)" "chk (d - q) = Some (d - q)"
    using q assms(3,4) by (simp_all add: chk_def radix_eq)
  have eq: "c sdiv bi_radix = - q" "c smod bi_radix = - r"
    using True by (simp_all add: sdiv_radix_neg q_def r_def)
  show thesis
  proof (cases "r = 0")
    case True
    show thesis
    proof (rule that [of 0 "d - q"])
      show "borrow (c # d # cs) = map_option ((#) 0) (borrow ((d - q) # cs))"
        using \<open>c < 0\<close> True 1 by (cases "borrow ((d - q) # cs)") (simp_all add: eq algebra_simps)
    qed (use True qr q assms in \<open>simp_all add: radix_eq\<close>)
  next
    case False
    show thesis
    proof (rule that [of "bi_radix - r" "d - q - 1"])
      show "borrow (c # d # cs) = map_option ((#) (bi_radix - r)) (borrow ((d - q - 1) # cs))"
        using \<open>c < 0\<close> False 1 by (cases "borrow ((d - q - 1) # cs)") (simp_all add: eq algebra_simps)
    qed (use False qr q assms in \<open>simp_all add: radix_eq\<close>)
  qed
next
  case False
  show thesis
  proof (rule that [of c d])
    show "borrow (c # d # cs) = map_option ((#) c) (borrow (d # cs))"
      using False by (cases "borrow (d # cs)") simp_all
  qed (use False assms in simp_all)
qed

lemma borrow_ok:
  assumes "- 4611686022722355202 \<le> c" "c < bi_radix"
    "\<forall>c \<in> set cs. - 4611686018427387904 \<le> c \<and> c < bi_radix"
  shows "\<exists>ds. borrow (c # cs) = Some ds \<and> ds \<noteq> [] \<and> num ds = num (c # cs) \<and> digits (butlast ds) \<and>
    last ds < bi_radix \<and> - 4611686022722355202 \<le> last ds"
  using assms
proof (induction cs arbitrary: c)
  case (Cons d cs)
  obtain c' d' where s: "borrow (c # d # cs) = map_option ((#) c') (borrow (d' # cs))"
    "0 \<le> c'" "c' < bi_radix" "c + bi_radix * d = c' + bi_radix * d'"
    "- 4611686022722355202 \<le> d'" "d' < bi_radix"
    using borrow_step [of c d cs] Cons.prems by auto
  obtain ds where ds: "borrow (d' # cs) = Some ds" "ds \<noteq> []" "num ds = num (d' # cs)"
    "digits (butlast ds)" "last ds < bi_radix" "- 4611686022722355202 \<le> last ds"
    using Cons.IH [of d'] Cons.prems s(5,6) by auto
  have "num (c' # ds) = num (c # d # cs)"
    using s(4) ds(3) by (simp add: algebra_simps)
  then show ?case using s ds by auto
qed simp

lemma borrow_nonneg: "\<forall>c \<in> set cs. 0 \<le> c \<Longrightarrow> borrow cs = Some cs"
  by (induction cs rule: borrow.induct) auto

lemma switch_sign_ok:
  assumes "cs \<noteq> []" "last cs < 0" "- 4611686022722355202 \<le> last cs" "digits (tl (butlast cs))"
    "length cs = 1 \<or> 0 \<le> hd cs \<and> hd cs \<le> bi_radix"
  shows "\<exists>ds. switch_sign cs = Some ds \<and> ds \<noteq> [] \<and> num ds = - num cs \<and>
    (\<forall>d \<in> set ds. 0 \<le> d \<and> d \<le> 9223372032559808511)"
  using assms
proof (induction cs rule: switch_sign.induct)
  case (3 c d cs)
  have c: "chk (bi_radix - c) = Some (bi_radix - c)" "0 \<le> c" "c \<le> bi_radix"
    using 3(6) by (simp_all add: chk_def radix_eq)
  have d: "chk (d + 1) = Some (d + 1)" "cs \<noteq> [] \<Longrightarrow> 0 \<le> d" "d < bi_radix"
    using 3(3,4,5) by (auto simp: chk_def radix_eq split: if_splits)
  show ?case
  proof (cases "cs = [] \<and> d = - 1")
    case True
    then show ?thesis using c d by (simp add: chk_def) (simp add: radix_eq)
  next
    case False
    have "\<exists>ds. switch_sign ((d + 1) # cs) = Some ds \<and> ds \<noteq> [] \<and> num ds = - num ((d + 1) # cs) \<and>
      (\<forall>d \<in> set ds. 0 \<le> d \<and> d \<le> 9223372032559808511)"
      using 3(1) [of "bi_radix - c" "d + 1"] 3(3-6) d False c(1) by (cases cs) (auto split: if_splits)
    then obtain ds where ds: "switch_sign ((d + 1) # cs) = Some ds" "ds \<noteq> []"
      "num ds = - num ((d + 1) # cs)" "\<forall>d \<in> set ds. 0 \<le> d \<and> d \<le> 9223372032559808511" by blast
    have "num ((bi_radix - c) # ds) = - num (c # d # cs)"
      by (simp add: ds(3) algebra_simps)
    then show ?thesis using c d(1) ds by (auto simp: radix_eq)
  qed
qed (auto simp: chk_def)

text \<open>One turn of the carrying loop.\<close>

lemma carry_step:
  assumes "bi_radix \<le> c" "c < 9223372036854775808" "0 \<le> d" "d \<le> 9223372032559808511"
  shows "carry (c # d # cs) = map_option ((#) (c mod bi_radix)) (carry ((d + c div bi_radix) # cs))"
    "carry [c] = map_option ((#) (c mod bi_radix)) (carry [c div bi_radix])"
    "0 \<le> c div bi_radix" "c div bi_radix \<le> 4294967295"
proof -
  show q: "0 \<le> c div bi_radix" "c div bi_radix \<le> 4294967295"
    using assms by (auto simp: radix_eq)
  have "chk (d + c div bi_radix) = Some (d + c div bi_radix)" "chk (c div bi_radix) = Some (c div bi_radix)"
    using q assms by (simp_all add: chk_def)
  moreover have "0 \<le> c" using assms by (simp add: radix_eq)
  ultimately show "carry (c # d # cs) = map_option ((#) (c mod bi_radix)) (carry ((d + c div bi_radix) # cs))"
    "carry [c] = map_option ((#) (c mod bi_radix)) (carry [c div bi_radix])"
    using assms(1)
    by (cases "carry ((d + c div bi_radix) # cs)", simp_all add: carry.simps(2) [of c] sdiv_radix_pos)
      (cases "carry [c div bi_radix]", simp_all add: carry.simps(2) [of c] sdiv_radix_pos)
qed

lemma carry_single:
  "0 \<le> c \<Longrightarrow> c < 9223372036854775808 \<Longrightarrow> \<exists>ds. carry [c] = Some ds \<and> ds \<noteq> [] \<and> digits ds \<and> num ds = c"
proof (induction "nat c" arbitrary: c rule: less_induct)
  case less
  show ?case
  proof (cases "bi_radix \<le> c")
    case True
    note s = carry_step [OF True less.prems(2), of 0]
    have "nat (c div bi_radix) < nat c" using True by (auto simp: radix_eq)
    then obtain ds where ds: "carry [c div bi_radix] = Some ds" "ds \<noteq> []" "digits ds" "num ds = c div bi_radix"
      using less.hyps [of "c div bi_radix"] s(3,4) by auto
    have "c mod bi_radix + bi_radix * (c div bi_radix) = c" by simp
    then show ?thesis using s(2) ds by (auto simp: pos_mod_bound)
  qed (use less.prems in \<open>simp add: carry.simps(2) [of c]\<close>)
qed

lemma carry_ok:
  assumes "0 \<le> c" "c < 9223372036854775808" "\<forall>c \<in> set cs. 0 \<le> c \<and> c \<le> 9223372032559808511"
  shows "\<exists>ds. carry (c # cs) = Some ds \<and> ds \<noteq> [] \<and> digits ds \<and> num ds = num (c # cs)"
  using assms
proof (induction cs arbitrary: c)
  case Nil
  then show ?case using carry_single by simp
next
  case (Cons d cs)
  show ?case
  proof (cases "bi_radix \<le> c")
    case True
    have d: "0 \<le> d" "d \<le> 9223372032559808511" using Cons.prems(3) by auto
    note s = carry_step(1,3,4) [OF True Cons.prems(2) d]
    have "0 \<le> d + c div bi_radix" "d + c div bi_radix < 9223372036854775808" using s(2,3) d by auto
    then obtain ds where ds: "carry ((d + c div bi_radix) # cs) = Some ds" "ds \<noteq> []" "digits ds"
      "num ds = num ((d + c div bi_radix) # cs)"
      using Cons.IH [of "d + c div bi_radix"] Cons.prems(3) by auto
    have "c mod bi_radix + bi_radix * (c div bi_radix) = c" by simp
    then have "num (c mod bi_radix # ds) = num (c # d # cs)" using ds(4) by (simp add: algebra_simps)
    then show ?thesis using s(1) [of cs] ds by auto
  next
    case False
    obtain ds where "carry (d # cs) = Some ds" "ds \<noteq> []" "digits ds" "num ds = num (d # cs)"
      using Cons.IH [of d] Cons.prems(3) by auto
    then show ?thesis using False Cons.prems(1) by (simp add: carry.simps(2) [of c])
  qed
qed

lemma trim_ok:
  "cs \<noteq> [] \<Longrightarrow> digits cs \<Longrightarrow>
     num (trim cs) = num cs \<and> digits (trim cs) \<and> trim cs \<noteq> [] \<and> (trim cs = [0] \<or> last (trim cs) \<noteq> 0)"
proof (induction cs rule: trim.induct)
  case (1 cs)
  show ?case
  proof (cases "1 < length cs \<and> last cs = 0")
    case True
    then have "cs = butlast cs @ [0]" "butlast cs \<noteq> []"
      by (metis "1.prems"(1) append_butlast_last_id) (use True in \<open>cases cs; auto\<close>)
    then have "num (butlast cs) = num cs" "digits (butlast cs)"
      using "1.prems" num_append [of "butlast cs" "[0]"] digits_simps(3) [of "butlast cs" "[0]"] by auto
    then show ?thesis using "1.IH" [OF True \<open>butlast cs \<noteq> []\<close>] True by (simp add: trim.simps [of cs])
  next
    case False
    then have "cs = [0] \<or> last cs \<noteq> 0" using "1.prems"(1) by (cases cs; cases "tl cs") auto
    then show ?thesis using False "1.prems" by (auto simp: trim.simps [of cs])
  qed
qed

lemma normalize_ok:
  assumes "comps bi \<noteq> []" "roomy (comps bi)" "sign bi = 1 \<or> sign bi = - 1"
  shows "\<exists>r. normalize bi = Some r \<and> normal r \<and> value_of r = value_of bi"
proof -
  have "\<exists>ds s. (borrow (comps bi) \<bind> (\<lambda>cs. if last cs < 0 then switch_sign cs \<bind> (\<lambda>cs. Some (- sign bi, cs))
      else Some (sign bi, cs))) = Some (s, ds) \<and> ds \<noteq> [] \<and> s * num ds = sign bi * num (comps bi) \<and>
      (s = 1 \<or> s = - 1) \<and> (\<forall>d \<in> set ds. 0 \<le> d \<and> d \<le> 9223372032559808511)"
  proof (cases "\<forall>c \<in> set (comps bi). 0 \<le> c")
    case True
    then have "\<not> last (comps bi) < 0" using assms(1) by (meson last_in_set not_le)
    then show ?thesis using True assms by (auto simp: borrow_nonneg roomy_def radix_eq)
  next
    case False
    then have r: "\<forall>c \<in> set (comps bi). - 4611686018427387904 \<le> c \<and> c < bi_radix"
      using assms(2) by (auto simp: roomy_def)
    obtain c cs where cs: "comps bi = c # cs" using assms(1) by (cases "comps bi") auto
    obtain ds where ds: "borrow (comps bi) = Some ds" "ds \<noteq> []" "num ds = num (comps bi)"
      "digits (butlast ds)" "last ds < bi_radix" "- 4611686022722355202 \<le> last ds"
      using borrow_ok [of c cs] r by (auto simp: cs)
    show ?thesis
    proof (cases "last ds < 0")
      case True
      have "digits (tl (butlast ds))" using ds(4) by (cases "butlast ds") auto
      moreover have "length ds = 1 \<or> 0 \<le> hd ds \<and> hd ds \<le> bi_radix"
        using ds(2,4) by (cases ds; cases "tl ds") auto
      ultimately show ?thesis
        using switch_sign_ok [OF ds(2) True ds(6)] ds(1,3) True assms(3) by (auto simp: )
    next
      case False
      have "digits ds" using ds(4) False ds(5) ds(2)
        by (metis append_butlast_last_id digits_simps not_less)
      then show ?thesis using ds False assms(3) by (auto simp: digits_def radix_eq)
    qed
  qed
  then obtain ds s where 1: "(borrow (comps bi) \<bind> (\<lambda>cs. if last cs < 0
      then switch_sign cs \<bind> (\<lambda>cs. Some (- sign bi, cs)) else Some (sign bi, cs))) = Some (s, ds)"
    "ds \<noteq> []" "s * num ds = sign bi * num (comps bi)" "s = 1 \<or> s = - 1"
    "\<forall>d \<in> set ds. 0 \<le> d \<and> d \<le> 9223372032559808511" by blast
  obtain es where es: "carry ds = Some es" "es \<noteq> []" "digits es" "num es = num ds"
    using carry_ok [of "hd ds" "tl ds"] 1(2,5) by (cases ds) auto
  define ts where "ts = trim es"
  have ts: "num ts = num ds" "digits ts" "ts \<noteq> []" "ts = [0] \<or> last ts \<noteq> 0"
    using trim_ok [OF es(2,3)] es(4) by (simp_all add: ts_def)
  have "normalize bi = Some \<lparr>sign = (if length ts = 1 \<and> ts ! 0 = 0 \<and> s = - 1 then 1 else s), comps = ts\<rparr>"
  proof -
    obtain ys where "borrow (comps bi) = Some ys" "(if last ys < 0
        then switch_sign ys \<bind> (\<lambda>cs. Some (- sign bi, cs)) else Some (sign bi, ys)) = Some (s, ds)"
      using 1(1) by (auto simp: bind_eq_Some_conv simp del: split_paired_Ex)
    then show ?thesis using es(1) assms(1)
      by (cases "last ys < 0") (auto simp: normalize_def Let_def ts_def bind_eq_Some_conv)
  qed
  moreover have "(length ts = 1 \<and> ts ! 0 = 0) = (ts = [0])" by (cases ts) auto
  ultimately show ?thesis using ts 1(3,4) by (cases "ts = [0]") (auto simp: normal_def value_of_def)
qed

section \<open>Values of normal numbers\<close>

lemma normal_comps: "normal bi \<Longrightarrow> comps bi \<noteq> []" "normal bi \<Longrightarrow> digits (comps bi)"
  by (auto simp: normal_def)

lemma normal_sign: "normal bi \<Longrightarrow> sign bi = 1 \<or> sign bi = - 1"
  by (auto simp: normal_def)

lemma num_eq_0: "normal bi \<Longrightarrow> num (comps bi) = 0 \<longleftrightarrow> comps bi = [0]"
proof (cases "comps bi = [0]")
  case False
  assume n: "normal bi"
  then have "bi_radix ^ (length (comps bi) - 1) \<le> num (comps bi)"
    using False by (intro num_ge) (auto simp: normal_def)
  moreover have "0 < bi_radix ^ (length (comps bi) - 1)" by simp
  ultimately show ?thesis using False by linarith
qed simp

lemma num_comps_nonneg: "normal bi \<Longrightarrow> 0 \<le> num (comps bi)"
  by (simp add: num_nonneg normal_comps)

lemma abs_value: "normal bi \<Longrightarrow> \<bar>value_of bi\<bar> = num (comps bi)"
  using normal_sign [of bi] num_comps_nonneg [of bi] by (auto simp: value_of_def abs_mult)

lemma zero_iff: "normal bi \<Longrightarrow> bi_is_zero bi \<longleftrightarrow> value_of bi = 0"
  using num_eq_0 [of bi] normal_sign [of bi]
  by (auto simp: bi_is_zero_def num_comps_def value_of_def normal_def length_Suc_conv)

lemma negative_iff: "normal bi \<Longrightarrow> bi_is_negative bi \<longleftrightarrow> value_of bi < 0"
  using num_eq_0 [of bi] normal_sign [of bi] num_comps_nonneg [of bi]
  by (auto simp: bi_is_negative_def value_of_def normal_def)

lemma num_comps_le:
  assumes "normal bi" "\<bar>value_of bi\<bar> < bi_radix ^ n" "0 < n"
  shows "num_comps bi \<le> n"
proof (cases "comps bi = [0]")
  case False
  then have "bi_radix ^ (num_comps bi - 1) \<le> \<bar>value_of bi\<bar>"
    using num_ge [of "comps bi"] assms(1) by (auto simp: abs_value normal_def num_comps_def)
  then have "bi_radix ^ (num_comps bi - 1) < bi_radix ^ n" using assms(2) by simp
  then have "num_comps bi - 1 < n" by (rule power_less_imp_less_exp [rotated]) (simp add: radix_eq)
  then show ?thesis by simp
qed (use assms(3) in \<open>simp add: num_comps_def\<close>)

lemma abs_value_less: "normal bi \<Longrightarrow> \<bar>value_of bi\<bar> < bi_radix ^ num_comps bi"
  by (simp add: abs_value num_comps_def num_less normal_comps)

lemma abs_value_ge: "normal bi \<Longrightarrow> value_of bi \<noteq> 0 \<Longrightarrow> bi_radix ^ (num_comps bi - 1) \<le> \<bar>value_of bi\<bar>"
  using num_ge [of "comps bi"] num_eq_0 [of bi]
  by (auto simp: abs_value num_comps_def normal_def value_of_def)

lemma compare_down_ok:
  "length as = length bs \<Longrightarrow> digits as \<Longrightarrow> digits bs \<Longrightarrow>
     compare_down s (rev as) (rev bs) = s * sgn (num as - num bs)"
proof (induction as arbitrary: bs rule: rev_induct)
  case (snoc a as)
  obtain b bs' where bs: "bs = bs' @ [b]" "length bs' = length as"
    using snoc.prems(1) by (cases bs rule: rev_exhaust) auto
  have d: "digits as" "digits bs'" using snoc.prems bs by auto
  define p where "p = bi_radix ^ length as"
  have n: "0 \<le> num as" "num as < p" "0 \<le> num bs'" "num bs' < p"
    using num_nonneg [OF d(1)] num_nonneg [OF d(2)] num_less [OF d(1)] num_less [OF d(2)]
    by (simp_all add: p_def bs(2))
  have e: "num (as @ [a]) = num as + p * a" "num (bs' @ [b]) = num bs' + p * b"
    by (simp_all add: num_append p_def bs(2))
  consider "a < b" | "a = b" | "b < a" by linarith
  then show ?case
  proof cases
    case 1
    then have "p * a + p \<le> p * b" using n mult_left_mono [of "a + 1" b p] by (simp add: algebra_simps)
    then have "num (as @ [a]) < num bs" using n e bs(1) by auto
    then show ?thesis using 1 bs(1) by simp
  next
    case 2
    then show ?thesis using snoc.IH [of bs'] bs d e by simp
  next
    case 3
    then have "p * b + p \<le> p * a" using n mult_left_mono [of "b + 1" a p] by (simp add: algebra_simps)
    then have "num bs < num (as @ [a])" using n e bs(1) by auto
    then show ?thesis using 3 bs(1) by simp
  qed
qed simp

lemma compare_longer:
  assumes "digits as" "digits bs" "as \<noteq> []" "last as \<noteq> 0" "length bs < length as"
  shows "num bs < num as"
proof -
  have "num bs < bi_radix ^ length bs" by (rule num_less) (rule assms)
  also have "\<dots> \<le> bi_radix ^ (length as - 1)"
    by (rule power_increasing) (use assms in \<open>auto simp: radix_eq\<close>)
  also have "\<dots> \<le> num as" by (rule num_ge) (use assms in auto)
  finally show ?thesis .
qed

lemma compare_ok:
  assumes "normal a" "normal b"
  shows "bi_compare a b = sgn (value_of a - value_of b)"
proof (cases "sign a = sign b")
  case False
  then consider "sign a = 1" "sign b = - 1" | "sign a = - 1" "sign b = 1"
    using normal_sign [OF assms(1)] normal_sign [OF assms(2)] by auto
  then show ?thesis
  proof cases
    case 1
    then have "value_of b < 0" "0 \<le> value_of a"
      using negative_iff [OF assms(1)] negative_iff [OF assms(2)] by (auto simp: bi_is_negative_def)
    then show ?thesis using 1 by (simp add: bi_compare_def)
  next
    case 2
    then have "value_of a < 0" "0 \<le> value_of b"
      using negative_iff [OF assms(1)] negative_iff [OF assms(2)] by (auto simp: bi_is_negative_def)
    then show ?thesis using 2 by (simp add: bi_compare_def)
  qed
next
  case True
  have s: "sgn (value_of a - value_of b) = sign a * sgn (num (comps a) - num (comps b))"
    using True normal_sign [OF assms(1)]
    by (auto simp: value_of_def sgn_mult right_diff_distrib [symmetric] simp del: mult_minus_left)
  consider "num_comps b < num_comps a" | "num_comps a < num_comps b" | "num_comps a = num_comps b" by linarith
  then show ?thesis
  proof cases
    case 1
    then have "num (comps b) < num (comps a)"
      using assms by (intro compare_longer) (auto simp: normal_def num_comps_def)
    then show ?thesis using 1 True s by (simp add: bi_compare_def)
  next
    case 2
    then have "num (comps a) < num (comps b)"
      using assms by (intro compare_longer) (auto simp: normal_def num_comps_def)
    then show ?thesis using 2 True s by (simp add: bi_compare_def)
  next
    case 3
    then show ?thesis using True s compare_down_ok [of "comps a" "comps b"] assms
      by (simp add: bi_compare_def num_comps_def normal_comps)
  qed
qed

lemma normal_unique:
  assumes "normal a" "normal b" "value_of a = value_of b"
  shows "a = b"
proof -
  have n: "num (comps a) = num (comps b)" using assms abs_value by metis
  have "sign a = sign b"
    using assms negative_iff [OF assms(1)] negative_iff [OF assms(2)] normal_sign [OF assms(1)]
      normal_sign [OF assms(2)] by (auto simp: bi_is_negative_def)
  moreover have "comps a = comps b"
  proof (cases "length (comps a) = length (comps b)")
    case True
    have "digits as \<Longrightarrow> digits bs \<Longrightarrow> length as = length bs \<Longrightarrow> num as = num bs \<Longrightarrow> as = bs" for as bs
    proof (induction as arbitrary: bs)
      case (Cons c as)
      then obtain d bs' where bs: "bs = d # bs'" by (cases bs) auto
      with Cons.prems have e: "c + bi_radix * num as = d + bi_radix * num bs'" by simp
      then have "(c + bi_radix * num as) mod bi_radix = (d + bi_radix * num bs') mod bi_radix" by simp
      moreover have "(c + bi_radix * num as) mod bi_radix = c" "(d + bi_radix * num bs') mod bi_radix = d"
        using Cons.prems(1,2) bs by simp_all
      ultimately have "c = d" by simp
      with Cons e bs show ?case by auto
    qed simp
    then show ?thesis using True n assms by (simp add: normal_comps)
  next
    case False
    then show ?thesis
      using compare_longer [of "comps a" "comps b"] compare_longer [of "comps b" "comps a"] n assms
      by (auto simp: normal_def neq_iff)
  qed
  ultimately show ?thesis by simp
qed

section \<open>Operations on values\<close>

text \<open>An operation gives the integer \<open>v\<close> when it returns the normal number of that value.\<close>

definition gives :: "bigint option \<Rightarrow> int \<Rightarrow> bool" where
  "gives r v = (\<exists>bi. r = Some bi \<and> normal bi \<and> value_of bi = v)"

lemma givesI: "normal bi \<Longrightarrow> value_of bi = v \<Longrightarrow> gives (Some bi) v"
  by (simp add: gives_def)

lemma gives_Some [simp]: "gives (Some bi) v \<longleftrightarrow> normal bi \<and> value_of bi = v"
  by (simp add: gives_def)

lemma givesE: "gives r v \<Longrightarrow> (\<And>bi. r = Some bi \<Longrightarrow> normal bi \<Longrightarrow> value_of bi = v \<Longrightarrow> P) \<Longrightarrow> P"
  by (auto simp: gives_def)

lemma gives_bind:
  "gives r v \<Longrightarrow> (\<And>bi. normal bi \<Longrightarrow> value_of bi = v \<Longrightarrow> gives (f bi) w) \<Longrightarrow> gives (r \<bind> f) w"
  by (auto simp: gives_def)

lemma gives_unique: "gives r v \<Longrightarrow> gives r' v \<Longrightarrow> r = r'"
  by (auto simp: gives_def intro: normal_unique)

text \<open>A partial operation on integers, and one on numbers that implements it where it is defined.\<close>

locale binary_op =
  fixes f :: "bigint \<Rightarrow> bigint \<Rightarrow> bigint option"
    and ok :: "int \<Rightarrow> int \<Rightarrow> bool"
    and g :: "int \<Rightarrow> int \<Rightarrow> int"
  assumes op: "normal a \<Longrightarrow> normal b \<Longrightarrow> ok (value_of a) (value_of b) \<Longrightarrow>
    gives (f a b) (g (value_of a) (value_of b))"
begin

lemma commute:
  assumes "normal a" "normal b" "ok (value_of a) (value_of b)" "ok (value_of b) (value_of a)"
    "g (value_of a) (value_of b) = g (value_of b) (value_of a)"
  shows "f a b = f b a"
  using op [of a b] op [of b a] assms by (auto intro: gives_unique)

lemma bind:
  assumes "normal a" "normal b" "ok (value_of a) (value_of b)"
    "\<And>c. normal c \<Longrightarrow> value_of c = g (value_of a) (value_of b) \<Longrightarrow> gives (h c) w"
  shows "gives (f a b \<bind> h) w"
  using op [OF assms(1-3)] assms(4) by (rule gives_bind)

end

lemma normalize_gives:
  "comps bi \<noteq> [] \<Longrightarrow> roomy (comps bi) \<Longrightarrow> sign bi = 1 \<or> sign bi = - 1 \<Longrightarrow> gives (normalize bi) (value_of bi)"
  using normalize_ok by (auto simp: gives_def)

lemma gives_normalize:
  "cs \<noteq> [] \<Longrightarrow> roomy cs \<Longrightarrow> s = 1 \<or> s = - 1 \<Longrightarrow> v = s * num cs \<Longrightarrow> gives (normalize \<lparr>sign = s, comps = cs\<rparr>) v"
  using normalize_gives [of "\<lparr>sign = s, comps = cs\<rparr>"] by (simp add: value_of_def)

lemma roomyI_pos: "(\<And>c. c \<in> set cs \<Longrightarrow> 0 \<le> c \<and> c \<le> 9223372032559808511) \<Longrightarrow> roomy cs"
  by (simp add: roomy_def)

lemma roomyI_neg: "(\<And>c. c \<in> set cs \<Longrightarrow> - 4611686018427387904 \<le> c \<and> c < bi_radix) \<Longrightarrow> roomy cs"
  by (simp add: roomy_def)

lemma length_more_comps [simp]: "length (more_comps cs n) = max (length cs) n"
  by (simp add: more_comps_def)

lemma digits_more_comps [simp]: "digits (more_comps cs n) \<longleftrightarrow> digits cs"
  by (simp add: more_comps_def)

text \<open>Adding at an offset, with bounds on the components.\<close>

definition within :: "int \<Rightarrow> int \<Rightarrow> int list \<Rightarrow> bool" where
  "within lo hi cs = (\<forall>c \<in> set cs. lo \<le> c \<and> c \<le> hi)"

lemma within_simps [simp]:
  "within lo hi []" "within lo hi (c # cs) \<longleftrightarrow> lo \<le> c \<and> c \<le> hi \<and> within lo hi cs"
  "within lo hi (as @ bs) \<longleftrightarrow> within lo hi as \<and> within lo hi bs"
  by (auto simp: within_def)

lemma within_weaken: "within lo hi cs \<Longrightarrow> lo' \<le> lo \<Longrightarrow> hi \<le> hi' \<Longrightarrow> within lo' hi' cs"
  by (force simp: within_def)

lemma within_digits: "digits cs \<Longrightarrow> within 0 (bi_radix - 1) cs"
  by (auto simp: within_def digits_def)

lemma within_uminus: "within lo hi cs \<Longrightarrow> within (- hi) (- lo) (map uminus cs)"
  by (auto simp: within_def)

lemma roomy_within_pos: "within 0 hi cs \<Longrightarrow> hi \<le> 9223372032559808511 \<Longrightarrow> roomy cs"
  by (intro roomyI_pos) (force simp: within_def)

lemma roomy_within_neg: "within lo hi cs \<Longrightarrow> - 4611686018427387904 \<le> lo \<Longrightarrow> hi < bi_radix \<Longrightarrow> roomy cs"
  by (intro roomyI_neg) (force simp: within_def)

lemma add_at_ok:
  assumes "n + length bs \<le> length rs" "within lo hi rs" "within lo' hi' bs" "lo' \<le> 0" "0 \<le> hi'"
    "- 9223372036854775808 \<le> lo + lo'" "hi + hi' < 9223372036854775808"
  shows "\<exists>cs. add_at n bs rs = Some cs \<and> length cs = length rs \<and> within (lo + lo') (hi + hi') cs \<and>
    num cs = num rs + bi_radix ^ n * num bs"
  using assms
proof (induction n bs rs rule: add_at.induct)
  case (1 n rs)
  then show ?case using within_weaken [of lo hi rs "lo + lo'" "hi + hi'"] by simp
next
  case (3 b bs r rs)
  then have r: "lo + lo' \<le> r + b" "r + b \<le> hi + hi'" by auto
  then have "chk (r + b) = Some (r + b)" using 3 by (simp add: chk_def)
  moreover obtain cs where "add_at 0 bs rs = Some cs" "length cs = length rs"
    "within (lo + lo') (hi + hi') cs" "num cs = num rs + num bs"
    using 3(1) [of "r + b"] 3(2-) calculation by auto
  ultimately show ?case using r by (auto simp: algebra_simps)
next
  case (4 n b bs r rs)
  obtain cs where "add_at n (b # bs) rs = Some cs" "length cs = length rs"
    "within (lo + lo') (hi + hi') cs" "num cs = num rs + bi_radix ^ n * num (b # bs)"
    using 4(1) 4(2-) by auto
  then show ?case using 4(2-) by (auto simp: algebra_simps)
qed simp

lemma bi_updates [simp]:
  "bi\<lparr>comps := cs\<rparr> = \<lparr>sign = sign bi, comps = cs\<rparr>" "bi\<lparr>sign := s\<rparr> = \<lparr>sign = s, comps = comps bi\<rparr>"
  by (cases bi; simp)+

lemma normalize_comps:
  assumes "normal bi" "cs \<noteq> []" "roomy cs" "v = sign bi * num cs"
  shows "gives (normalize (bi\<lparr>comps := cs\<rparr>)) v"
  using gives_normalize [OF assms(2,3) normal_sign [OF assms(1)] assms(4)] by simp

lemma add_comps_gives:
  assumes "normal bi" "digits bs" "bs \<noteq> []"
  shows "gives (add_comps bi bs) (value_of bi + sign bi * num bs)"
    "gives (add_comps bi (map uminus bs)) (value_of bi - sign bi * num bs)"
proof -
  define rs where "rs = more_comps (comps bi) (max (num_comps bi) (length bs))"
  have rs: "length bs \<le> length rs" "within 0 (bi_radix - 1) rs" "num rs = num (comps bi)"
    using within_digits assms(1) by (auto simp: rs_def num_comps_def normal_comps)
  then have ne: "cs \<noteq> []" if "length cs = length rs" for cs :: "int list" using that assms(3) by auto
  have b: "within 0 (bi_radix - 1) bs" using assms(2) by (rule within_digits)
  obtain cs where cs: "add_at 0 bs rs = Some cs" "length cs = length rs"
    "within 0 (bi_radix - 1 + (bi_radix - 1)) cs" "num cs = num rs + num bs"
    using add_at_ok [where n = 0 and bs = bs, OF _ rs(2) b] rs(1) by (auto simp: radix_eq)
  have "roomy cs" by (rule roomy_within_pos [OF cs(3)]) (simp add: radix_eq)
  then have "gives (normalize (bi\<lparr>comps := cs\<rparr>)) (value_of bi + sign bi * num bs)"
    using ne [OF cs(2)] by (intro normalize_comps [OF assms(1)]) (simp_all add: cs(4) rs(3) value_of_def algebra_simps)
  then show "gives (add_comps bi bs) (value_of bi + sign bi * num bs)"
    using cs(1) by (simp add: add_comps_def rs_def)
  have b: "within (- (bi_radix - 1)) 0 (map uminus bs)" using within_uminus [OF b] by simp
  obtain cs where cs: "add_at 0 (map uminus bs) rs = Some cs" "length cs = length rs"
    "within (0 - (bi_radix - 1)) (bi_radix - 1) cs" "num cs = num rs - num bs"
    using add_at_ok [where n = 0 and bs = "map uminus bs", OF _ rs(2) b] rs(1) by (auto simp: radix_eq)
  have "roomy cs" by (rule roomy_within_neg [OF cs(3)]) (simp_all add: radix_eq)
  then have "gives (normalize (bi\<lparr>comps := cs\<rparr>)) (value_of bi - sign bi * num bs)"
    using ne [OF cs(2)] by (intro normalize_comps [OF assms(1)]) (simp_all add: cs(4) rs(3) value_of_def algebra_simps)
  then show "gives (add_comps bi (map uminus bs)) (value_of bi - sign bi * num bs)"
    using cs(1) by (simp add: add_comps_def rs_def)
qed

lemma opposite_sign: "normal a \<Longrightarrow> normal b \<Longrightarrow> sign a \<noteq> sign b \<Longrightarrow> sign a = - sign b"
  using normal_sign [of a] normal_sign [of b] by auto

lemma bi_add_gives: "normal a \<Longrightarrow> normal b \<Longrightarrow> gives (bi_add a b) (value_of a + value_of b)"
  using add_comps_gives [of a "comps b"] opposite_sign [of a b]
  by (cases "sign a = sign b") (simp_all add: bi_add_def normal_comps value_of_def)

lemma bi_subtract_gives: "normal a \<Longrightarrow> normal b \<Longrightarrow> gives (bi_subtract a b) (value_of a - value_of b)"
  using add_comps_gives [of a "comps b"] opposite_sign [of a b]
  by (cases "sign a = sign b") (simp_all add: bi_subtract_def normal_comps value_of_def)

interpretation plus_op: binary_op bi_add "\<lambda>x y. True" "(+)"
  by unfold_locales (rule bi_add_gives)

interpretation minus_op: binary_op bi_subtract "\<lambda>x y. True" "(-)"
  by unfold_locales (rule bi_subtract_gives)


subsection \<open>Operations with an int\<close>

definition is_int :: "int \<Rightarrow> bool" where
  "is_int i = (- 2147483648 \<le> i \<and> i < 2147483648)"

lemma int_to_bi_gives: "is_int i \<Longrightarrow> gives (int_to_bi i) i"
  unfolding int_to_bi_def is_int_def by (rule gives_normalize) (auto simp: roomy_def radix_eq)

lemma add_first_gives:
  assumes "normal bi" "- 2147483648 \<le> i" "i \<le> 2147483648"
  shows "gives (add_first i bi) (value_of bi + sign bi * i)"
proof -
  obtain c cs where cs: "comps bi = c # cs" "0 \<le> c" "c < bi_radix" "digits cs"
    using normal_comps [OF assms(1)] by (cases "comps bi") auto
  have "within 0 9223372032559808511 cs" "within (- 2147483648) 2147483647 cs"
    using within_digits [OF cs(4)] by (auto simp: radix_eq elim: within_weaken)
  then have "roomy ((c + i) # cs)"
    using cs(2,3) assms(2,3) roomy_within_pos [of "9223372032559808511" "(c + i) # cs"]
      roomy_within_neg [of "- 2147483648" "2147483647" "(c + i) # cs"]
    by (cases "0 \<le> c + i") (auto simp: radix_eq)
  moreover have "chk (c + i) = Some (c + i)" using cs(2,3) assms(2,3) by (simp add: chk_def radix_eq)
  moreover have "value_of bi + sign bi * i = sign bi * num ((c + i) # cs)"
    by (simp add: value_of_def cs(1) algebra_simps)
  ultimately show ?thesis using normalize_comps [OF assms(1), of "(c + i) # cs"]
    by (simp add: add_first_def cs(1))
qed

lemma bi_int_add_gives: "normal bi \<Longrightarrow> is_int i \<Longrightarrow> gives (bi_int_add bi i) (value_of bi + i)"
  using add_first_gives [of bi i] add_first_gives [of bi "- i"] normal_sign [of bi]
  by (auto simp: bi_int_add_def is_int_def)

lemma bi_int_subtract_gives: "normal bi \<Longrightarrow> is_int i \<Longrightarrow> gives (bi_int_subtract bi i) (value_of bi - i)"
  using add_first_gives [of bi i] add_first_gives [of bi "- i"] normal_sign [of bi]
  by (auto simp: bi_int_subtract_def is_int_def)

lemma mul_comps_ok:
  assumes "digits cs" "0 \<le> i" "i \<le> 4294967294"
  shows "mul_comps i cs = Some (map (\<lambda>c. c * i) cs)" "within 0 ((bi_radix - 1) * i) (map (\<lambda>c. c * i) cs)"
proof -
  have 1: "c * i \<le> (bi_radix - 1) * i" "(bi_radix - 1) * i \<le> (bi_radix - 1) * 4294967294" "0 \<le> c * i"
    if "0 \<le> c" "c < bi_radix" for c
    using that assms(2,3) by (auto intro!: mult_right_mono mult_left_mono simp: radix_eq)
  then have "chk (c * i) = Some (c * i)" if "0 \<le> c" "c < bi_radix" for c
    using 1 [OF that] by (simp add: chk_def radix_eq)
  then show "mul_comps i cs = Some (map (\<lambda>c. c * i) cs)" using assms(1) by (induction cs) auto
  show "within 0 ((bi_radix - 1) * i) (map (\<lambda>c. c * i) cs)" using 1 assms(1) by (auto simp: within_def digits_def)
qed

lemma num_mult: "num (map (\<lambda>c. c * i) cs) = num cs * i"
  by (induction cs) (simp_all add: algebra_simps)

lemma bi_int_multiply_gives:
  assumes "normal bi" "is_int i" "i \<noteq> - 2147483648"
  shows "gives (bi_int_multiply bi i) (value_of bi * i)"
proof -
  have 1: "\<bar>i\<bar> \<le> 2147483647" using assms(2,3) by (auto simp: is_int_def)
  then have i: "0 \<le> \<bar>i\<bar>" "\<bar>i\<bar> \<le> 4294967294" by auto
  note m = mul_comps_ok [OF normal_comps(2) [OF assms(1)] i]
  have le: "(bi_radix - 1) * \<bar>i\<bar> \<le> (bi_radix - 1) * 2147483647" using 1 by (intro mult_left_mono) (auto simp: radix_eq)
  have r: "roomy (map (\<lambda>c. c * \<bar>i\<bar>) (comps bi))"
    by (rule roomy_within_pos [OF m(2)]) (rule order_trans [OF le], simp add: radix_eq)
  have "gives (normalize \<lparr>sign = s, comps = map (\<lambda>c. c * \<bar>i\<bar>) (comps bi)\<rparr>) (s * num (comps bi) * \<bar>i\<bar>)"
    if "s = 1 \<or> s = - 1" for s
    by (rule gives_normalize) (use that r normal_comps(1) [OF assms(1)] in \<open>auto simp: num_mult\<close>)
  from this [of "if i < 0 then - sign bi else sign bi"] show ?thesis
    using m(1) normal_sign [OF assms(1)] 1
    by (cases "i < 0") (auto simp: bi_int_multiply_def int_sign_def chk32_def value_of_def)
qed


subsection \<open>Multiplication\<close>

lemma set_comps_eq: "length cs \<le> n \<Longrightarrow> set_comps cs n = more_comps cs n"
  by (simp add: set_comps_def)

lemma normal_nonneg: "normal bi \<Longrightarrow> 0 \<le> value_of bi \<Longrightarrow> sign bi = 1"
  using negative_iff [of bi] normal_sign [of bi] by (auto simp: bi_is_negative_def)

lemma normal_num: "normal bi \<Longrightarrow> 0 \<le> value_of bi \<Longrightarrow> num (comps bi) = value_of bi"
  by (metis normal_nonneg value_of_def mult_1)

text \<open>Adding a row to a number that is kept in \<open>n\<close> components, as both products do.\<close>

lemma add_row_gives:
  assumes "normal R" "0 \<le> value_of R" "\<bar>value_of R\<bar> < bi_radix ^ m" "0 < m" "m \<le> n"
    "k + length row \<le> n" "within 0 hi row" "0 \<le> hi" "hi + bi_radix \<le> 9223372032559808511"
  shows "gives (add_at k row (set_comps (comps R) n) \<bind> (\<lambda>cs. normalize (R\<lparr>comps := cs\<rparr>)))
    (value_of R + bi_radix ^ k * num row)"
proof -
  have "num_comps R \<le> n" using num_comps_le [OF assms(1,3,4)] assms(5) by simp
  then have rs: "set_comps (comps R) n = more_comps (comps R) n" by (simp add: num_comps_def set_comps_eq)
  define rs where "rs = more_comps (comps R) n"
  have len: "length rs = n" using \<open>num_comps R \<le> n\<close> by (simp add: rs_def num_comps_def)
  have "within 0 (bi_radix - 1) rs" using assms(1) by (simp add: rs_def within_digits normal_comps)
  then obtain cs where cs: "add_at k row rs = Some cs" "length cs = n"
    "within 0 (bi_radix - 1 + hi) cs" "num cs = num rs + bi_radix ^ k * num row"
    using add_at_ok [where n = k and bs = row and rs = rs and lo = 0 and hi = "bi_radix - 1" and lo' = 0 and hi' = hi]
      assms(6-9) len by auto
  have "roomy cs" by (rule roomy_within_pos [OF cs(3)]) (use assms(9) in simp)
  then have "gives (normalize (R\<lparr>comps := cs\<rparr>)) (value_of R + bi_radix ^ k * num row)"
    by (rule normalize_comps [OF assms(1), rotated])
      (use cs(2) assms(4,5) in \<open>auto simp: cs(4) rs_def normal_nonneg [OF assms(1,2)] normal_num [OF assms(1,2)]\<close>)
  then show ?thesis by (simp add: rs rs_def [symmetric] cs(1))
qed

lemma mul_rows_gives:
  assumes "digits as" "digits bs" "bs \<noteq> []" "normal R" "0 \<le> value_of R"
    "value_of R < bi_radix ^ (c1 + length bs)" "c1 + length as + length bs \<le> n"
  shows "gives (mul_rows n c1 as bs R) (value_of R + bi_radix ^ c1 * (num as * num bs))"
  using assms
proof (induction as arbitrary: c1 R)
  case (Cons a as)
  have a: "0 \<le> a" "a < bi_radix" "a \<le> 4294967294" using Cons.prems(1) by (auto simp: radix_eq)
  define row where "row = map (\<lambda>c. c * a) bs"
  note m = mul_comps_ok [OF Cons.prems(2) a(1,3), folded row_def]
  have hi: "(bi_radix - 1) * a \<le> (bi_radix - 1) * (bi_radix - 1)" "0 \<le> (bi_radix - 1) * a"
    using a by (auto intro!: mult_left_mono simp: radix_eq)
  have row: "num row = num bs * a" by (simp add: row_def num_mult)
  have step: "gives (add_at c1 row (set_comps (comps R) n) \<bind> (\<lambda>cs. normalize (R\<lparr>comps := cs\<rparr>)))
    (value_of R + bi_radix ^ c1 * num row)"
    by (rule add_row_gives [where m = "c1 + length bs" and hi = "(bi_radix - 1) * a"])
      (use Cons.prems(3-7) m(2) hi in \<open>auto simp: row_def radix_eq\<close>)
  have "gives (add_at c1 row (set_comps (comps R) n) \<bind> (\<lambda>cs. normalize (R\<lparr>comps := cs\<rparr>)) \<bind>
    mul_rows n (Suc c1) as bs) (value_of R + bi_radix ^ c1 * (num (a # as) * num bs))"
  proof (rule gives_bind [OF step])
    fix R'
    assume R': "normal R'" "value_of R' = value_of R + bi_radix ^ c1 * num row"
    have n: "0 \<le> num bs" "num bs < bi_radix ^ length bs"
      using num_nonneg [OF Cons.prems(2)] num_less [OF Cons.prems(2)] by auto
    have "num bs * a \<le> bi_radix ^ length bs * (bi_radix - 1)" using n a by (intro mult_mono) auto
    then have "bi_radix ^ c1 * (num bs * a) \<le> bi_radix ^ c1 * (bi_radix ^ length bs * (bi_radix - 1))"
      by (intro mult_left_mono) auto
    then have "value_of R' < bi_radix ^ (Suc c1 + length bs)"
      using Cons.prems(6) R'(2) by (simp add: row power_add algebra_simps)
    moreover have "0 \<le> value_of R'" using R'(2) Cons.prems(5) n a by (simp add: row)
    ultimately have "gives (mul_rows n (Suc c1) as bs R') (value_of R' + bi_radix ^ Suc c1 * (num as * num bs))"
      using Cons.IH [of R' "Suc c1"] Cons.prems R'(1) by auto
    then show "gives (mul_rows n (Suc c1) as bs R') (value_of R + bi_radix ^ c1 * (num (a # as) * num bs))"
      by (simp add: R'(2) row algebra_simps)
  qed
  then show ?case using m(1) by (simp add: bind_assoc)
qed simp

lemma gives_zero_num: "normal bi \<Longrightarrow> value_of bi = 0 \<Longrightarrow> bi = bi_0"
  by (rule normal_unique) (auto simp: normal_def bi_0_def value_of_def)

lemma normal_0 [simp]: "normal bi_0" "value_of bi_0 = 0"
  by (simp_all add: normal_def bi_0_def value_of_def)

lemma regular_multiply_gives:
  assumes "normal a" "normal b"
  shows "gives (regular_multiply a b) (value_of a * value_of b)"
proof -
  have "gives (mul_rows (num_comps a + num_comps b) 0 (comps a) (comps b) bi_0)
    (value_of bi_0 + bi_radix ^ 0 * (num (comps a) * num (comps b)))"
    by (rule mul_rows_gives) (use normal_comps assms in \<open>auto simp: num_comps_def\<close>)
  then obtain R where R: "mul_rows (num_comps a + num_comps b) 0 (comps a) (comps b) bi_0 = Some R"
    "normal R" "value_of R = num (comps a) * num (comps b)" by (auto elim: givesE)
  show ?thesis
  proof (cases "bi_is_zero R")
    case True
    then have "value_of a = 0 \<or> value_of b = 0" using R zero_iff by (auto simp: value_of_def)
    then show ?thesis using True R zero_iff [OF R(2)] by (auto simp: regular_multiply_def)
  next
    case False
    then have "comps R \<noteq> [0]" using R(2) zero_iff [OF R(2)] num_eq_0 by (auto simp: value_of_def)
    moreover have "num (comps R) = num (comps a) * num (comps b)"
      using R normal_num [OF R(2)] num_comps_nonneg assms by auto
    ultimately show ?thesis using False R normal_sign [OF assms(1)] normal_sign [OF assms(2)]
      by (auto simp: regular_multiply_def normal_def value_of_def)
  qed
qed


text \<open>Squaring: the double products of a row just fit into 64 bits.\<close>

lemma square_rows_gives:
  assumes "digits pre" "digits cs" "normal R" "value_of R = num pre * num pre" "length pre * 2 + length cs * 2 \<le> n"
  shows "gives (square_rows n pre cs R) (num (pre @ cs) * num (pre @ cs))"
  using assms
proof (induction cs arbitrary: pre R)
  case (Cons c cs)
  have c: "0 \<le> c" "c < bi_radix" "0 \<le> 2 * c" "2 * c \<le> 4294967294" using Cons.prems(2) by (auto simp: radix_eq)
  have "c * c \<le> (bi_radix - 1) * (bi_radix - 1)" using c by (intro mult_mono) auto
  then have s: "chk (2 * c) = Some (2 * c)" "0 \<le> c * c" "c * c \<le> 9223372028264841218"
    using c by (simp_all add: chk_def radix_eq)
  then have "chk (c * c) = Some (c * c)" by (intro chk_Some) linarith+
  define row where "row = map (\<lambda>d. d * (2 * c)) pre"
  note m = mul_comps_ok [OF Cons.prems(1) c(3,4), folded row_def]
  have hi: "(bi_radix - 1) * (2 * c) \<le> (bi_radix - 1) * (2 * (bi_radix - 1))"
    using c by (intro mult_left_mono) (auto simp: radix_eq)
  have w: "within 0 9223372028264841218 (row @ [c * c])"
    using within_weaken [OF m(2), of 0 9223372028264841218] hi s by (simp add: radix_eq)
  have nn: "0 \<le> num pre" "num pre < bi_radix ^ length pre"
    using num_nonneg [OF Cons.prems(1)] num_less [OF Cons.prems(1)] by auto
  have "num pre * num pre \<le> bi_radix ^ length pre * bi_radix ^ length pre" using nn by (intro mult_mono) auto
  also have "\<dots> < bi_radix ^ (length pre * 2 + 1)"
    by (simp add: power_add [symmetric] mult_2_right [symmetric]) (simp add: radix_eq)
  finally have R: "value_of R < bi_radix ^ (length pre * 2 + 1)" "0 \<le> value_of R"
    using Cons.prems(4) nn by auto
  have step: "gives (add_at (length pre) (row @ [c * c]) (set_comps (comps R) n) \<bind>
    (\<lambda>cs. normalize (R\<lparr>comps := cs\<rparr>))) (value_of R + bi_radix ^ length pre * num (row @ [c * c]))"
    by (rule add_row_gives [where m = "length pre * 2 + 1" and hi = "9223372028264841218", OF Cons.prems(3) R(2)])
      (use Cons.prems(5) R w in \<open>auto simp: row_def radix_eq\<close>)
  have row: "num (row @ [c * c]) = num pre * (2 * c) + bi_radix ^ length pre * (c * c)"
    by (simp add: num_append row_def num_mult)
  have "gives (add_at (length pre) (row @ [c * c]) (set_comps (comps R) n) \<bind>
    (\<lambda>cs. normalize (R\<lparr>comps := cs\<rparr>)) \<bind> square_rows n (pre @ [c]) cs)
    (num (pre @ c # cs) * num (pre @ c # cs))"
  proof (rule gives_bind [OF step])
    fix R'
    assume R': "normal R'" "value_of R' = value_of R + bi_radix ^ length pre * num (row @ [c * c])"
    have "value_of R' = num (pre @ [c]) * num (pre @ [c])"
      unfolding R'(2) row Cons.prems(4) by (simp add: num_append algebra_simps)
    then show "gives (square_rows n (pre @ [c]) cs R') (num (pre @ c # cs) * num (pre @ c # cs))"
      using Cons.IH [of "pre @ [c]" R'] Cons.prems R'(1) by auto
  qed
  then show ?case using m(1) s(1) \<open>chk (c * c) = Some (c * c)\<close> by (simp add: bind_assoc)
qed simp

lemma regular_square_gives:
  assumes "normal a"
  shows "gives (regular_square a) (value_of a * value_of a)"
proof -
  have "gives (regular_square a) (num ([] @ comps a) * num ([] @ comps a))"
    unfolding regular_square_def
    by (rule square_rows_gives) (use normal_comps assms in \<open>auto simp: num_comps_def\<close>)
  then show ?thesis using normal_sign [OF assms] by (auto simp: value_of_def)
qed


subsection \<open>Karatsuba multiplication\<close>

lemma num_take_drop: "num cs = num (take n cs) + bi_radix ^ n * num (drop n cs)"
proof (cases "n \<le> length cs")
  case True
  then show ?thesis using num_append [of "take n cs" "drop n cs"] by simp
qed simp

lemma low_comps: "map (\<lambda>c. if c < length cs then cs ! c else 0) [0..<n] = more_comps (take n cs) n"
  by (rule nth_equalityI) (auto simp: more_comps_def nth_append)

lemma high_comps:
  "length cs \<le> 2 * n \<Longrightarrow> map (\<lambda>c. if c + n < length cs then cs ! (c + n) else 0) [0..<n] = more_comps (drop n cs) n"
  by (rule nth_equalityI) (auto simp: more_comps_def nth_append add.commute [of n])

lemma digits_take_drop: "digits cs \<Longrightarrow> digits (take n cs)" "digits cs \<Longrightarrow> digits (drop n cs)"
  by (auto simp: digits_def dest: in_set_takeD in_set_dropD)

lemma gives_digits:
  assumes "digits cs" "0 < n"
  shows "gives (normalize \<lparr>sign = 1, comps = more_comps cs n\<rparr>) (num cs)"
proof (rule gives_normalize)
  show "roomy (more_comps cs n)"
    using assms(1) by (intro roomy_within_pos [OF within_digits]) (simp_all add: radix_eq)
  show "more_comps cs n \<noteq> []" using assms(2) by (simp add: more_comps_def)
qed simp_all

text \<open>The halves of a number, their values and their bounds.\<close>

lemma parts_give:
  assumes "normal bi" "num_comps bi \<le> 2 * n" "0 < n"
  shows "gives (low_part n bi) (num (take n (comps bi)))" "gives (high_part n bi) (num (drop n (comps bi)))"
    "0 \<le> num (take n (comps bi))" "num (take n (comps bi)) < bi_radix ^ n"
    "0 \<le> num (drop n (comps bi))" "num (drop n (comps bi)) < bi_radix ^ n"
    "num (comps bi) = num (take n (comps bi)) + bi_radix ^ n * num (drop n (comps bi))"
proof -
  note d = digits_take_drop [OF normal_comps(2) [OF assms(1)], of n]
  show "gives (low_part n bi) (num (take n (comps bi)))" "gives (high_part n bi) (num (drop n (comps bi)))"
    using gives_digits [OF d(1) assms(3)] gives_digits [OF d(2) assms(3)] assms(2)
    by (simp_all add: low_part_def high_part_def num_comps_def low_comps high_comps)
  show "0 \<le> num (take n (comps bi))" "0 \<le> num (drop n (comps bi))" using d by (auto intro: num_nonneg)
  have le: "bi_radix ^ length cs \<le> bi_radix ^ n" if "length cs \<le> n" for cs :: "int list"
    using that by (intro power_increasing) (auto simp: radix_eq)
  show "num (take n (comps bi)) < bi_radix ^ n" using num_less [OF d(1)] le [of "take n (comps bi)"] by simp
  have "length (drop n (comps bi)) \<le> n" using assms(2) by (simp add: num_comps_def)
  from less_le_trans [OF num_less [OF d(2)] le [OF this]] show "num (drop n (comps bi)) < bi_radix ^ n" .
  show "num (comps bi) = num (take n (comps bi)) + bi_radix ^ n * num (drop n (comps bi))"
    by (rule num_take_drop)
qed

lemma join_parts_gives:
  assumes "normal hi" "normal mid" "normal lo" "0 \<le> value_of hi" "0 \<le> value_of mid" "0 \<le> value_of lo"
    "s = 1 \<or> s = - 1"
  shows "gives (join_parts n s hi mid lo)
    (s * (value_of lo + bi_radix ^ n * value_of mid + bi_radix ^ (n * 2) * value_of hi))"
proof -
  define rs where "rs = more_comps (comps lo) (max (num_comps mid + n) (num_comps hi + n * 2))"
  have w: "within 0 (bi_radix - 1) rs" "within 0 (bi_radix - 1) (comps mid)" "within 0 (bi_radix - 1) (comps hi)"
    using assms(1-3) by (auto simp: rs_def normal_comps intro!: within_digits)
  have len: "n + length (comps mid) \<le> length rs" "n * 2 + length (comps hi) \<le> length rs"
    by (auto simp: rs_def num_comps_def)
  obtain cs where cs: "add_at n (comps mid) rs = Some cs" "length cs = length rs"
    "within 0 (bi_radix - 1 + (bi_radix - 1)) cs" "num cs = num rs + bi_radix ^ n * num (comps mid)"
    using add_at_ok [where n = n, OF len(1) w(1,2)] by (auto simp: radix_eq)
  obtain ds where ds: "add_at (n * 2) (comps hi) cs = Some ds" "length ds = length rs"
    "within 0 (bi_radix - 1 + (bi_radix - 1) + (bi_radix - 1)) ds"
    "num ds = num cs + bi_radix ^ (n * 2) * num (comps hi)"
    using add_at_ok [where n = "n * 2", OF _ cs(3) w(3)] cs(2) len(2) by (auto simp: radix_eq)
  have "gives (normalize \<lparr>sign = s, comps = ds\<rparr>)
    (s * (value_of lo + bi_radix ^ n * value_of mid + bi_radix ^ (n * 2) * value_of hi))"
  proof (rule gives_normalize)
    show "roomy ds" by (rule roomy_within_pos [OF ds(3)]) (simp add: radix_eq)
    show "ds \<noteq> []" using ds(2) normal_comps(1) [OF assms(3)] by (auto simp: rs_def)
  qed (use assms in \<open>simp_all add: ds(4) cs(4) rs_def normal_num\<close>)
  then show ?thesis by (simp add: join_parts_def rs_def [symmetric] cs(1) ds(1))
qed


text \<open>The identity behind both Karatsuba functions.\<close>

lemma karatsuba_identity:
  "(j + r * i) * (l + r * k) = j * l + r * ((i + j) * (k + l) - i * k - j * l) + r * r * (i * k)" for i :: int
  by (simp add: algebra_simps)

lemma mult_nonneg3: "0 \<le> i \<Longrightarrow> 0 \<le> j \<Longrightarrow> 0 \<le> k \<Longrightarrow> 0 \<le> l \<Longrightarrow> 0 \<le> (i + j) * (k + l) - i * k - j * l" for i :: int
  by (simp add: algebra_simps)

lemma sum_comps:
  assumes "normal s" "value_of s = i + j" "0 \<le> i" "0 \<le> j" "i < bi_radix ^ n" "j < bi_radix ^ n"
  shows "num_comps s \<le> n + 1"
proof (rule num_comps_le [OF assms(1)])
  have "i + j < 2 * bi_radix ^ n" using assms by simp
  also have "\<dots> \<le> bi_radix ^ (n + 1)" by (simp add: radix_eq)
  finally show "\<bar>value_of s\<bar> < bi_radix ^ (n + 1)" using assms by simp
qed simp

lemma karatsuba_join:
  assumes "normal hi" "normal mid" "normal lo" "value_of hi = i * k" "value_of lo = j * l"
    "value_of mid = (i + j) * (k + l) - i * k - j * l" "0 \<le> i" "0 \<le> j" "0 \<le> k" "0 \<le> l" "s = 1 \<or> s = - 1"
  shows "gives (join_parts n s hi mid lo) (s * ((j + bi_radix ^ n * i) * (l + bi_radix ^ n * k)))"
proof -
  have "gives (join_parts n s hi mid lo)
    (s * (value_of lo + bi_radix ^ n * value_of mid + bi_radix ^ (n * 2) * value_of hi))"
    using assms mult_nonneg3 [of i j k l] by (intro join_parts_gives) auto
  moreover have "bi_radix ^ (n * 2) = bi_radix ^ n * bi_radix ^ n" by (simp add: mult_2_right power_add)
  ultimately show ?thesis using assms(4-6) by (simp add: karatsuba_identity)
qed

lemma small_comps:
  "normal x \<Longrightarrow> 0 \<le> value_of x \<Longrightarrow> value_of x < bi_radix ^ n \<Longrightarrow> 0 < n \<Longrightarrow> num_comps x \<le> Suc n"
  using num_comps_le [of x n] by simp

lemma bi_multiply_gives:
  "normal a \<Longrightarrow> normal b \<Longrightarrow> gives (bi_multiply a b) (value_of a * value_of b)"
proof (induction "max (num_comps a) (num_comps b)" arbitrary: a b rule: less_induct)
  case less
  show ?case
  proof (cases "min (num_comps a) (num_comps b) < KARATSUBA_MULT_THRESH")
    case True
    then show ?thesis using regular_multiply_gives [OF less.prems] by (subst bi_multiply.simps) simp
  next
    case False
    define m n where "m = max (num_comps a) (num_comps b)" and "n = (m + 1) div 2"
    have m: "16 \<le> m" using False by (simp add: m_def KARATSUBA_MULT_THRESH_def)
    have sz: "n + 1 < m" "m \<le> 2 * n" "0 < n" using m by (auto simp: n_def)
    then have len: "num_comps a \<le> 2 * n" "num_comps b \<le> 2 * n" by (auto simp: m_def)
    have mul: "gives (bi_multiply x y) (value_of x * value_of y)"
      if "normal x" "normal y" "num_comps x \<le> n + 1" "num_comps y \<le> n + 1" for x y
      using less.hyps [of x y] that sz(1) by (simp add: m_def)
    define i j k l where "i = num (drop n (comps a))" and "j = num (take n (comps a))"
      and "k = num (drop n (comps b))" and "l = num (take n (comps b))"
    note pa = parts_give [OF less.prems(1) len(1) sz(3), folded i_def j_def]
    note pb = parts_give [OF less.prems(2) len(2) sz(3), folded k_def l_def]
    from pa(2) obtain I where I: "high_part n a = Some I" "normal I" "value_of I = i" by (rule givesE)
    from pa(1) obtain J where J: "low_part n a = Some J" "normal J" "value_of J = j" by (rule givesE)
    from pb(2) obtain K where K: "high_part n b = Some K" "normal K" "value_of K = k" by (rule givesE)
    from pb(1) obtain L where L: "low_part n b = Some L" "normal L" "value_of L = l" by (rule givesE)
    have "num_comps I \<le> n + 1" "num_comps J \<le> n + 1" "num_comps K \<le> n + 1" "num_comps L \<le> n + 1"
      using I J K L pa pb sz(3) by (auto intro!: small_comps)
    then obtain IK JL where P: "bi_multiply I K = Some IK" "normal IK" "value_of IK = i * k"
      "bi_multiply J L = Some JL" "normal JL" "value_of JL = j * l"
      using mul [of I K] mul [of J L] I J K L by (auto elim!: givesE)
    obtain S T where ST: "bi_add I J = Some S" "normal S" "value_of S = i + j"
      "bi_add K L = Some T" "normal T" "value_of T = k + l"
      using bi_add_gives [of I J] bi_add_gives [of K L] I J K L by (auto elim!: givesE)
    have "num_comps S \<le> n + 1" "num_comps T \<le> n + 1" using sum_comps ST(2,3,5,6) pa pb by auto
    then obtain M where M: "bi_multiply S T = Some M" "normal M" "value_of M = (i + j) * (k + l)"
      using mul [of S T] ST by (auto elim!: givesE)
    obtain M1 where M1: "bi_subtract M IK = Some M1" "normal M1" "value_of M1 = (i + j) * (k + l) - i * k"
      using bi_subtract_gives [of M IK] M P by (auto elim!: givesE)
    obtain M2 where M2: "bi_subtract M1 JL = Some M2" "normal M2" "value_of M2 = (i + j) * (k + l) - i * k - j * l"
      using bi_subtract_gives [of M1 JL] M1 P by (auto elim!: givesE)
    have "bi_multiply a b = join_parts n (sign a * sign b) IK M2 JL"
      using False unfolding bi_multiply.simps [of a b] m_def [symmetric] n_def [symmetric]
      by (simp add: I(1) J(1) K(1) L(1) P(1,4) ST(1,4) M(1) M1(1) M2(1))
    moreover have "value_of a * value_of b = sign a * sign b * ((j + bi_radix ^ n * i) * (l + bi_radix ^ n * k))"
      using pa(7) pb(7) by (simp add: value_of_def)
    moreover have "sign a * sign b = 1 \<or> sign a * sign b = - 1"
      using normal_sign [OF less.prems(1)] normal_sign [OF less.prems(2)] by auto
    ultimately show ?thesis using karatsuba_join [OF P(2) M2(2) P(5,3,6) M2(3) pa(5,3) pb(5,3)] by simp
  qed
qed

lemma bi_square_gives: "normal a \<Longrightarrow> gives (bi_square a) (value_of a * value_of a)"
proof (induction "num_comps a" arbitrary: a rule: less_induct)
  case less
  show ?case
  proof (cases "num_comps a < KARATSUBA_SQUARE_THRESH")
    case True
    then show ?thesis using regular_square_gives [OF less.prems] by (subst bi_square.simps) simp
  next
    case False
    define n where "n = (num_comps a + 1) div 2"
    have "20 \<le> num_comps a" using False by (simp add: KARATSUBA_SQUARE_THRESH_def)
    then have sz: "n + 1 < num_comps a" "num_comps a \<le> 2 * n" "0 < n" by (auto simp: n_def)
    have mul: "gives (bi_square x) (value_of x * value_of x)" if "normal x" "num_comps x \<le> n + 1" for x
      using less.hyps [of x] that sz(1) by simp
    define i j where "i = num (drop n (comps a))" and "j = num (take n (comps a))"
    note pa = parts_give [OF less.prems sz(2,3), folded i_def j_def]
    from pa(2) obtain I where I: "high_part n a = Some I" "normal I" "value_of I = i" by (rule givesE)
    from pa(1) obtain J where J: "low_part n a = Some J" "normal J" "value_of J = j" by (rule givesE)
    have "num_comps I \<le> n + 1" "num_comps J \<le> n + 1" using I J pa sz(3) by (auto intro!: small_comps)
    then obtain II JJ where P: "bi_square I = Some II" "normal II" "value_of II = i * i"
      "bi_square J = Some JJ" "normal JJ" "value_of JJ = j * j"
      using mul [of I] mul [of J] I J by (auto elim!: givesE)
    obtain S where S: "bi_add I J = Some S" "normal S" "value_of S = i + j"
      using bi_add_gives [of I J] I J by (auto elim!: givesE)
    have "num_comps S \<le> n + 1" using sum_comps S(2,3) pa by auto
    then obtain M where M: "bi_square S = Some M" "normal M" "value_of M = (i + j) * (i + j)"
      using mul [of S] S by (auto elim!: givesE)
    obtain M1 where M1: "bi_subtract M II = Some M1" "normal M1" "value_of M1 = (i + j) * (i + j) - i * i"
      using bi_subtract_gives [of M II] M P by (auto elim!: givesE)
    obtain M2 where M2: "bi_subtract M1 JJ = Some M2" "normal M2" "value_of M2 = (i + j) * (i + j) - i * i - j * j"
      using bi_subtract_gives [of M1 JJ] M1 P by (auto elim!: givesE)
    have "sign JJ = 1" using P by (intro normal_nonneg) auto
    then have "bi_square a = join_parts n 1 II M2 JJ"
      using False unfolding bi_square.simps [of a] n_def [symmetric]
      by (simp add: I(1) J(1) P(1,4) S(1) M(1) M1(1) M2(1))
    moreover have "value_of a * value_of a = (j + bi_radix ^ n * i) * (j + bi_radix ^ n * i)"
      using pa(7) normal_sign [OF less.prems] by (auto simp: value_of_def)
    ultimately show ?thesis using karatsuba_join [OF P(2) M2(2) P(5,3,6) M2(3) pa(5,3,5,3), of 1 n] by simp
  qed
qed

interpretation times_op: binary_op bi_multiply "\<lambda>x y. True" "(*)"
  by unfold_locales (rule bi_multiply_gives)


subsection \<open>Division by an int and conversions\<close>

lemma div_less_of_mult:
  fixes x d r :: int
  assumes "0 < d" "x < d * r"
  shows "x div d < r"
proof (rule ccontr)
  assume "\<not> x div d < r"
  then have "d * r \<le> d * (x div d)" using assms(1) by simp
  moreover have "d * (x div d) \<le> x"
    using mult_div_mod_eq [of d x] pos_mod_sign [OF assms(1), of x] by linarith
  ultimately show False using assms(2) by simp
qed

lemma div_comps_ok:
  assumes "0 < d" "d \<le> 2147483648" "digits cs"
  shows "\<exists>qs r. div_comps d cs = Some (qs, r) \<and> digits qs \<and> length qs = length cs \<and>
    num cs = d * num qs + r \<and> 0 \<le> r \<and> r < d"
  using assms(3)
proof (induction cs)
  case (Cons c cs)
  then obtain qs r where q: "div_comps d cs = Some (qs, r)" "digits qs" "length qs = length cs"
    "num cs = d * num qs + r" "0 \<le> r" "r < d" by auto
  define x where "x = r * bi_radix + c"
  have c: "0 \<le> c" "c < bi_radix" using Cons.prems by auto
  have "r * bi_radix + bi_radix \<le> d * bi_radix" using q(6) mult_right_mono [of "r + 1" d bi_radix]
    by (simp add: algebra_simps)
  moreover have "d * bi_radix \<le> 2147483648 * bi_radix" using assms(2) by (intro mult_right_mono) simp_all
  ultimately have x: "0 \<le> x" "x < d * bi_radix" "x < 9223372036854775808" "0 \<le> r * bi_radix" "r * bi_radix \<le> x"
    using c q(5) by (auto simp: x_def radix_eq)
  have "chk (r * bi_radix) = Some (r * bi_radix)" "chk (r * bi_radix + c) = Some x"
    using x by (auto simp: chk_def x_def)
  then have "div_comps d (c # cs) = Some (x div d # qs, x mod d)"
    using q(1) x(1) assms(1) by (simp add: signed_divide_int_def signed_modulo_int_def sgn_if)
  moreover have "0 \<le> x div d" "x div d < bi_radix"
    using x(1,2) assms(1) by (simp_all add: pos_imp_zdiv_nonneg_iff div_less_of_mult)
  moreover have "num (c # cs) = d * num (x div d # qs) + x mod d"
  proof -
    have "num (c # cs) = x + bi_radix * (d * num qs)" by (simp add: x_def q(4) algebra_simps)
    also have "x = d * (x div d) + x mod d" by simp
    finally show ?thesis by (simp add: algebra_simps)
  qed
  ultimately show ?case using q(2,3) assms(1) by simp
qed (use assms(1) in simp)

lemma bi_int_divide_gives:
  assumes "normal n" "is_int d" "d \<noteq> 0" "d \<noteq> - 2147483648"
  shows "gives (bi_int_divide n d) (value_of n sdiv d)"
proof -
  have d: "0 < \<bar>d\<bar>" "\<bar>d\<bar> \<le> 2147483648" using assms by (auto simp: is_int_def)
  obtain qs r where q: "div_comps \<bar>d\<bar> (comps n) = Some (qs, r)" "digits qs" "length qs = length (comps n)"
    "num (comps n) = \<bar>d\<bar> * num qs + r" "0 \<le> r" "r < \<bar>d\<bar>"
    using div_comps_ok [OF d normal_comps(2) [OF assms(1)]] by auto
  have e: "num qs = num (comps n) div \<bar>d\<bar>"
    using q(4-6) by (metis div_mult_self4 add.commute div_pos_pos_trivial add_0 assms(3) abs_eq_0)
  have ne: "qs \<noteq> []" using q(3) normal_comps(1) [OF assms(1)] by auto
  have "roomy qs" using q(2) by (intro roomy_within_pos [OF within_digits]) (simp_all add: radix_eq)
  then have g: "gives (normalize \<lparr>sign = s, comps = qs\<rparr>) (s * num qs)" if "s = 1 \<or> s = - 1" for s
    using that ne by (intro gives_normalize) auto
  have v: "value_of n sdiv d = sign n * sgn d * num qs"
    using normal_sign [OF assms(1)] num_comps_nonneg [OF assms(1)] assms(3)
    by (auto simp: value_of_def signed_divide_int_def e abs_mult sgn_mult sgn_if)
  show ?thesis
  proof (cases "d < 0")
    case True
    then show ?thesis using g [of "- sign n"] normal_sign [OF assms(1)] q(1) v assms
      by (auto simp: bi_int_divide_def int_sign_def chk32_def is_int_def)
  next
    case False
    then show ?thesis using g [of "sign n"] normal_sign [OF assms(1)] q(1) v assms(3)
      by (auto simp: bi_int_divide_def int_sign_def)
  qed
qed

lemma mod_linear: "(x mod m + y mod m * z) mod m = (x + y * z) mod m" for m :: int
proof -
  have "(x mod m + y mod m * z) mod m = (x mod m + (y mod m * z) mod m) mod m" by (rule mod_add_right_eq [symmetric])
  also have "y mod m * z mod m = y * z mod m" by (rule mod_mult_left_eq)
  also have "(x mod m + y * z mod m) mod m = (x + y * z) mod m" by (rule mod_add_eq)
  finally show ?thesis .
qed

lemma rem_loop_ok:
  assumes "0 < m" "m \<le> 2147483648" "digits cs" "0 \<le> rad" "rad \<le> m" "0 \<le> r" "r < m"
  shows "rem_loop m rad r cs = Some ((r + rad * num cs) mod m)"
  using assms(3-7)
proof (induction cs arbitrary: rad r)
  case (Cons c cs)
  have c: "0 \<le> c" "c < bi_radix" using Cons.prems by auto
  have "c * rad \<le> bi_radix * 2147483648" "rad * bi_radix \<le> 2147483648 * bi_radix"
    using c Cons.prems assms(2) by (auto intro!: mult_mono)
  moreover have "0 \<le> c * rad" "0 \<le> rad * bi_radix" using c Cons.prems by auto
  ultimately have k: "chk (c * rad) = Some (c * rad)" "chk (r + c * rad) = Some (r + c * rad)"
    "chk (rad * bi_radix) = Some (rad * bi_radix)"
    using Cons.prems assms(2) unfolding radix_eq by (intro chk_Some; linarith)+
  have s: "x smod m = x mod m" if "0 \<le> x" for x using that assms(1) by (simp add: smod_mod_positive)
  have "rem_loop m (rad * bi_radix mod m) ((r + c * rad) mod m) cs =
    Some (((r + c * rad) mod m + rad * bi_radix mod m * num cs) mod m)"
    by (rule Cons.IH) (use Cons.prems(1) assms(1) in \<open>auto intro: less_imp_le\<close>)
  moreover have "((r + c * rad) mod m + rad * bi_radix mod m * num cs) mod m = (r + rad * num (c # cs)) mod m"
  proof -
    have "((r + c * rad) mod m + rad * bi_radix mod m * num cs) mod m = (r + c * rad + rad * bi_radix * num cs) mod m"
      by (rule mod_linear)
    then show ?thesis by (simp add: algebra_simps)
  qed
  ultimately show ?case using k s [of "r + c * rad"] s [of "rad * bi_radix"] c Cons.prems by simp
qed (use assms(1) in simp)

lemma signed_take_bit_int: "is_int i \<Longrightarrow> signed_take_bit 31 i = i"
  by (simp add: is_int_def signed_take_bit_int_eq_self)

lemma bi_int_rem_ok:
  assumes "normal bi" "is_int m" "m \<noteq> 0" "m \<noteq> - 2147483648"
  shows "bi_int_rem bi m = Some (value_of bi smod m)"
proof -
  have m: "0 < \<bar>m\<bar>" "\<bar>m\<bar> \<le> 2147483647" using assms by (auto simp: is_int_def)
  define r where "r = num (comps bi) mod \<bar>m\<bar>"
  have l: "rem_loop \<bar>m\<bar> 1 0 (comps bi) = Some r"
    using rem_loop_ok [of "\<bar>m\<bar>" "comps bi" 1 0] m normal_comps(2) [OF assms(1)] by (simp add: r_def)
  have r: "0 \<le> r" "r < \<bar>m\<bar>" using m by (simp_all add: r_def)
  have "value_of bi smod m = (if sign bi < 1 then - r else r)"
    using normal_sign [OF assms(1)] num_comps_nonneg [OF assms(1)]
    by (auto simp: value_of_def signed_modulo_int_def r_def abs_mult sgn_mult sgn_if)
  moreover have "signed_take_bit 31 (if sign bi < 1 then - r else r) = (if sign bi < 1 then - r else r)"
    using r m by (intro signed_take_bit_int) (auto simp: is_int_def)
  moreover have "(if m < 0 then chk32 (- m) else Some m) = Some \<bar>m\<bar>" using m by (auto simp: chk32_def)
  ultimately show ?thesis using l assms(3) by (simp add: bi_int_rem_def)
qed


lemma int_to_bi_ok: "is_int i \<Longrightarrow> \<exists>bi. int_to_bi i = Some bi \<and> normal bi \<and> value_of bi = i"
  using int_to_bi_gives by (simp add: gives_def)

lemma normal_consts [simp]:
  "normal bi_1" "value_of bi_1 = 1" "normal bi_2" "value_of bi_2 = 2" "normal bi_m1" "value_of bi_m1 = - 1"
  "normal bi_maxint" "value_of bi_maxint = 2147483647" "normal bi_minint" "value_of bi_minint = - 2147483648"
  by (simp_all add: normal_def value_of_def radix_eq bi_1_def bi_2_def bi_m1_def bi_maxint_def bi_minint_def)

text \<open>The numbers that \<open>bi_initialize\<close> sets up are those that \<open>int_to_bi\<close> returns.\<close>

lemma int_to_bi_eq: "is_int i \<Longrightarrow> normal bi \<Longrightarrow> value_of bi = i \<Longrightarrow> int_to_bi i = Some bi"
  using int_to_bi_gives [of i] by (auto simp: gives_def intro: normal_unique)

lemma consts_initialized:
  "int_to_bi 0 = Some bi_0" "int_to_bi 1 = Some bi_1" "int_to_bi 2 = Some bi_2" "int_to_bi (- 1) = Some bi_m1"
  "int_to_bi 2147483647 = Some bi_maxint" "int_to_bi (- 2147483648) = Some bi_minint"
  by (rule int_to_bi_eq; simp add: is_int_def)+

lemma bi_to_int_ok:
  assumes "normal bi"
  shows "bi_to_int bi = (if is_int (value_of bi) then Some (value_of bi) else None)"
proof (cases "is_int (value_of bi)")
  case True
  then have "\<bar>value_of bi\<bar> < bi_radix ^ 2" by (auto simp: is_int_def radix_eq)
  then have "num_comps bi \<le> 2" using num_comps_le [OF assms, of 2] by simp
  then consider c where "comps bi = [c]" | c d where "comps bi = [c, d]"
    using normal_comps(1) [OF assms] by (cases "comps bi"; cases "tl (comps bi)") (auto simp: num_comps_def)
  then have "to_int_loop 0 1 (comps bi) = Some (num (comps bi))"
  proof cases
    case 1
    then show ?thesis using normal_comps(2) [OF assms] by (simp add: chk_def radix_eq)
  next
    case (2 c d)
    then have "c + bi_radix * d = \<bar>value_of bi\<bar>" using abs_value [OF assms] by simp
    then show ?thesis using 2 normal_comps(2) [OF assms] True by (auto simp: chk_def radix_eq is_int_def)
  qed
  moreover have "\<not> 2147483647 < value_of bi" "\<not> value_of bi + 2147483648 < 0"
    using True by (auto simp: is_int_def)
  moreover have "chk (sign bi * num (comps bi)) = Some (value_of bi)"
    using True by (simp add: value_of_def chk_def is_int_def)
  ultimately show ?thesis using True assms
    by (simp add: bi_to_int_def compare_ok signed_take_bit_int)
next
  case False
  then show ?thesis using assms by (auto simp: bi_to_int_def compare_ok is_int_def sgn_if)
qed

subsection \<open>Sign, halving and doubling\<close>

lemma negate_ok: "normal a \<Longrightarrow> value_of a \<noteq> 0 \<Longrightarrow> normal (bi_negate a)" "value_of (bi_negate a) = - value_of a"
  by (auto simp: normal_def bi_negate_def value_of_def)

lemma abs_ok: "normal a \<Longrightarrow> normal (bi_abs a)" "normal a \<Longrightarrow> value_of (bi_abs a) = \<bar>value_of a\<bar>"
  using abs_value [of a] by (auto simp: normal_def bi_abs_def value_of_def)

lemma radix_o2: "bi_radix = 2 * bi_radix_o2" "bi_radix_o2 = 1073741824"
  by (simp_all add: bi_radix_o2_def radix_eq drop_bit_eq_div)

lemma and_1: "(c AND 1 \<noteq> 0) = odd c" for c :: int
  by (simp add: and_one_eq odd_iff_mod_2_eq_one)

lemma odd_num: "cs \<noteq> [] \<Longrightarrow> odd (num cs) = odd (hd cs)"
  by (cases cs) (simp_all add: radix_eq)

lemma half_comps_ok:
  "digits cs \<Longrightarrow> num (half_comps cs) = num cs div 2 \<and> digits (half_comps cs) \<and> length (half_comps cs) = length cs"
proof (induction cs rule: half_comps.induct)
  case (3 c d cs)
  then have IH: "num (half_comps (d # cs)) = num (d # cs) div 2" "digits (half_comps (d # cs))"
    "length (half_comps (d # cs)) = length (d # cs)" by auto
  define n where "n = num (d # cs)"
  have o: "odd n = odd d" unfolding n_def using odd_num [of "d # cs"] by simp
  have "num (half_comps (c # d # cs)) = c div 2 + (if odd d then bi_radix_o2 else 0) + bi_radix * (n div 2)"
    using IH(1) by (simp add: n_def and_1 drop_bit_eq_div)
  also have "\<dots> = (c + bi_radix * n) div 2"
  proof (cases "odd n")
    case True
    then have "n = 2 * (n div 2) + 1" by simp
    then have "c + bi_radix * n = c + 2 * (bi_radix_o2 + bi_radix * (n div 2))"
      using radix_o2(1) by (metis distrib_left mult.assoc mult.commute mult.left_commute mult_1_right add.commute)
    then show ?thesis using True o by (simp add: add.assoc)
  next
    case False
    then have "n = 2 * (n div 2)" by simp
    then have "c + bi_radix * n = c + 2 * (bi_radix * (n div 2))" by (metis mult.left_commute)
    moreover have "(c + 2 * (bi_radix * (n div 2))) div 2 = c div 2 + bi_radix * (n div 2)" by simp
    ultimately have "(c + bi_radix * n) div 2 = c div 2 + bi_radix * (n div 2)" by (simp only:)
    then show ?thesis using False o by (simp only: if_False add_0_right)
  qed
  finally show ?case using IH(2,3) 3(2) by (auto simp: n_def drop_bit_eq_div radix_o2(2) radix_eq)
qed (auto simp: drop_bit_eq_div)


section \<open>Multiplication is multiplication\<close>

text \<open>
  C8. The product of two numbers in normal form, of any length and sign, by the schoolbook loops or by
  Karatsuba's recursion, is the number in normal form of the product of their values: the recursion
  ends, no component overflows 64 bits, and no array is overrun.
\<close>

theorem multiply_correct:
  assumes "normal a" "normal b"
  shows "\<exists>c. bi_multiply a b = Some c \<and> normal c \<and> value_of c = value_of a * value_of b"
  using bi_multiply_gives [OF assms] by (simp add: gives_def)

theorem multiply_correct_witness:
  "\<exists>c. bi_multiply \<lparr>sign = - 1, comps = replicate 16 5\<rparr> \<lparr>sign = 1, comps = replicate 17 7\<rparr> = Some c \<and> normal c \<and>
    value_of c = value_of \<lparr>sign = - 1, comps = replicate 16 5\<rparr> * value_of \<lparr>sign = 1, comps = replicate 17 7\<rparr>"
  by (rule multiply_correct) (simp_all add: normal_def digits_def radix_eq)

text \<open>
  Squaring, which adds each mixed product once and doubled, returns the same number as multiplying
  the number by itself.
\<close>

theorem square_is_multiply:
  assumes "normal a"
  shows "bi_square a = bi_multiply a a"
  using bi_square_gives [OF assms] bi_multiply_gives [OF assms assms] by (rule gives_unique)

theorem square_is_multiply_witness:
  "bi_square \<lparr>sign = - 1, comps = replicate 20 2147483647\<rparr> =
    bi_multiply \<lparr>sign = - 1, comps = replicate 20 2147483647\<rparr> \<lparr>sign = - 1, comps = replicate 20 2147483647\<rparr>"
  by (rule square_is_multiply) (simp add: normal_def digits_def radix_eq)

end
