(* ===== verification/Bigint_Division.thy ===== *)
theory Bigint_Division
  imports Bigint_Proofs
begin

text \<open>
  Halving, doubling and the bits of a number, and the division of \<open>bigint_int.c\<close>. Division by one
  component is exact. Division by more components is not: \<open>multi_divide2\<close> corrects its approximation by
  the rounded quotient of what it is too large by, so the result may be the quotient rounded up.
\<close>

section \<open>Halving, doubling and bits\<close>

lemma half_comps_last: "cs \<noteq> [] \<Longrightarrow> last (half_comps cs) = last cs div 2"
  by (induction cs rule: half_comps.induct) (auto simp: drop_bit_eq_div neq_Nil_conv split: if_splits)

lemma half_comps_second:
  "digits cs \<Longrightarrow> 1 < length cs \<Longrightarrow> odd (last cs) \<Longrightarrow> last (butlast (half_comps cs)) \<noteq> 0"
proof (induction cs rule: half_comps.induct)
  case (3 c d cs)
  show ?case
  proof (cases cs)
    case Nil
    then show ?thesis using 3 by (auto simp: and_1 drop_bit_eq_div radix_o2)
  next
    case (Cons e es)
    then have "half_comps (d # cs) \<noteq> []" "butlast (half_comps (d # cs)) \<noteq> []"
      using half_comps_ok [of "d # cs"] 3(2) by (auto simp: length_Suc_conv butlast_conv_take)
    then show ?thesis using 3 Cons by auto
  qed
qed auto

text \<open>Halving truncates towards zero; from \<open>- 1\<close> it makes a zero with a negative sign.\<close>

lemma half_ok:
  assumes "normal a"
  shows "value_of (bi_half a) = value_of a sdiv 2" "value_of a \<noteq> - 1 \<Longrightarrow> normal (bi_half a)"
proof -
  define cs hs where "cs = comps a" and "hs = half_comps cs"
  have cs: "digits cs" "cs \<noteq> []" using normal_comps [OF assms] by (auto simp: cs_def)
  have hs: "num hs = num cs div 2" "digits hs" "length hs = length cs" "last hs = last cs div 2"
    using half_comps_ok [OF cs(1)] half_comps_last [OF cs(2)] by (auto simp: hs_def)
  define ds where "ds = (if 1 < length hs \<and> last hs = 0 then butlast hs else hs)"
  have "hs \<noteq> []" using hs(3) cs(2) by auto
  have ds: "num ds = num hs" "digits ds" "ds \<noteq> []"
  proof -
    have "hs = butlast hs @ [0]" if "last hs = 0" using that \<open>hs \<noteq> []\<close> append_butlast_last_id by metis
    then have "num (butlast hs) = num hs" if "last hs = 0" using that num_append [of "butlast hs" "[0]"] by simp
    then show "num ds = num hs" by (simp add: ds_def)
    show "digits ds" using hs(2) by (auto simp: ds_def digits_def dest: in_set_butlastD)
    show "ds \<noteq> []" using \<open>hs \<noteq> []\<close> by (cases hs) (auto simp: ds_def)
  qed
  have half: "bi_half a = \<lparr>sign = sign a, comps = ds\<rparr>"
    by (simp add: bi_half_def ds_def hs_def cs_def Let_def)
  show "value_of (bi_half a) = value_of a sdiv 2"
    using normal_sign [OF assms] num_comps_nonneg [OF assms] ds(1) hs(1)
    by (auto simp: half value_of_def cs_def signed_divide_int_def sgn_if)
  assume v: "value_of a \<noteq> - 1"
  show "normal (bi_half a)"
  proof (cases "num cs \<le> 1")
    case True
    then have "num cs = 0 \<or> num cs = 1" using num_nonneg [OF cs(1)] by auto
    then have "num ds = 0" "sign a = 1"
      using ds(1) hs(1) v normal_sign [OF assms] num_eq_0 [OF assms] assms
      by (auto simp: value_of_def cs_def normal_def)
    moreover have "length cs = 1"
      using num_comps_le [OF assms, of 1] True abs_value [OF assms] \<open>cs \<noteq> []\<close>
      by (cases cs) (auto simp: num_comps_def cs_def [symmetric] radix_eq)
    ultimately have "ds = [0]" using hs(3) ds(2) by (auto simp: ds_def length_Suc_conv)
    then show ?thesis using \<open>sign a = 1\<close> by (simp add: half normal_def)
  next
    case False
    have last: "last cs \<noteq> 0" using assms False by (auto simp: normal_def cs_def)
    have "last ds \<noteq> 0"
    proof (cases "1 < length hs \<and> last hs = 0")
      case True
      then have "last cs = 1" using hs(4) last cs by (auto simp: digits_def)
      then show ?thesis using half_comps_second [OF cs(1)] True hs(3) by (simp add: ds_def hs_def)
    next
      case f: False
      show ?thesis
      proof (cases "1 < length hs")
        case True
        then show ?thesis using f by (auto simp: ds_def)
      next
        case short: False
        then obtain c where "cs = [c]" using hs(3) cs(2) by (cases cs; cases "tl cs") auto
        then show ?thesis using False hs short by (auto simp: ds_def hs_def drop_bit_eq_div)
      qed
    qed
    then show ?thesis using ds normal_sign [OF assms] by (simp add: half normal_def)
  qed
qed

lemma double_comps_ok:
  "digits cs \<Longrightarrow> num (double_comps cs) = 2 * num cs \<and> digits (double_comps cs) \<and>
     (cs \<noteq> [] \<longrightarrow> double_comps cs \<noteq> [] \<and> even (hd (double_comps cs))) \<and> (cs = [] \<longrightarrow> double_comps cs = [])"
proof (induction cs)
  case (Cons c cs)
  define ds where "ds = double_comps cs"
  have c: "0 \<le> c" "c < bi_radix" and IH: "num ds = 2 * num cs" "digits ds"
    "cs \<noteq> [] \<longrightarrow> ds \<noteq> [] \<and> even (hd ds)" "cs = [] \<longrightarrow> ds = []"
    using Cons by (auto simp: ds_def)
  show ?case
  proof (cases "bi_radix \<le> 2 * c")
    case True
    show ?thesis
    proof (cases ds)
      case Nil
      then have "cs = []" using IH(3) by auto
      then show ?thesis using True c by (auto simp: radix_eq push_bit_eq_mult)
    next
      case (Cons d es)
      then have "even d" "0 \<le> d" "d < bi_radix" using IH by auto
      then have "d + 1 < bi_radix" by (auto simp: radix_eq elim!: evenE)
      then show ?thesis using True c Cons IH by (auto simp: ds_def [symmetric] radix_eq push_bit_eq_mult algebra_simps)
    qed
  next
    case False
    then show ?thesis using c IH by (auto simp: ds_def [symmetric] push_bit_eq_mult algebra_simps)
  qed
qed simp


lemma double_comps_last: "digits cs \<Longrightarrow> cs \<noteq> [] \<Longrightarrow> last cs \<noteq> 0 \<Longrightarrow> last (double_comps cs) \<noteq> 0"
proof (induction cs)
  case (Cons c cs)
  define ds where "ds = double_comps cs"
  note ok = double_comps_ok [of cs, folded ds_def]
  show ?case
  proof (cases "cs = []")
    case True
    then show ?thesis using Cons.prems by (auto simp: push_bit_eq_mult Let_def)
  next
    case False
    then have "last ds \<noteq> 0" "ds \<noteq> []" "digits ds" using Cons ok by (auto simp: ds_def)
    then show ?thesis by (cases ds) (auto simp: ds_def [symmetric] Let_def)
  qed
qed simp

lemma double_ok:
  assumes "normal a"
  shows "normal (bi_double a)" "value_of (bi_double a) = 2 * value_of a"
proof -
  have cs: "digits (comps a)" "comps a \<noteq> []" using normal_comps [OF assms] by auto
  have "double_comps [0] = [0]" by (simp add: radix_eq push_bit_eq_mult)
  then show "normal (bi_double a)"
    using double_comps_ok [OF cs(1)] double_comps_last [OF cs] cs(2) assms
    by (auto simp: normal_def bi_double_def)
  show "value_of (bi_double a) = 2 * value_of a"
    using double_comps_ok [OF cs(1)] by (simp add: bi_double_def value_of_def)
qed

lemma odd_iff: "normal a \<Longrightarrow> bi_is_odd a = odd (value_of a)"
  using odd_num [of "comps a"] normal_comps(1) [of a] normal_sign [of a]
  by (auto simp: bi_is_odd_def and_1 value_of_def hd_conv_nth)

lemma one_iff: "normal bi \<Longrightarrow> bi_is_one bi \<longleftrightarrow> value_of bi = 1"
proof
  assume "normal bi" "value_of bi = 1"
  then have "bi = bi_1" by (intro normal_unique) simp_all
  then show "bi_is_one bi" by (simp add: bi_is_one_def num_comps_def bi_1_def)
next
  assume "bi_is_one bi"
  then show "value_of bi = 1" by (cases "comps bi") (auto simp: bi_is_one_def num_comps_def value_of_def)
qed

subsection \<open>Bits\<close>

declare cbits.simps [simp del]

lemma comp_bits [simp]: "bi_comp_bits = 31"
  by (simp add: bi_comp_bits_def radix_eq drop_bit_eq_div cbits.simps)

lemma cbit_eq: "cbit c i = bit c i"
  by (simp add: cbit_def bit_iff_and_push_bit_not_eq_0 push_bit_eq_mult)

lemma bit_comp:
  fixes c n :: int
  assumes "0 \<le> c" "c < bi_radix"
  shows "bit (c + bi_radix * n) i \<longleftrightarrow> (if i < 31 then bit c i else bit n (i - 31))"
proof (cases "i < 31")
  case True
  then have r: "bi_radix = 2 ^ i * (2 * 2 ^ (30 - i))"
    using power_add [of "2 :: int" i "Suc (30 - i)"] by (simp add: radix_eq)
  have e: "c + bi_radix * n = c + 2 ^ i * (2 * (2 ^ (30 - i) * n))" by (subst r) (simp add: mult.assoc)
  have "(c + bi_radix * n) div 2 ^ i = 2 * (2 ^ (30 - i) * n) + c div 2 ^ i"
    unfolding e by (rule div_mult_self2) simp
  then show ?thesis using True by (simp add: bit_iff_odd)
next
  case False
  then have "(2 :: int) ^ i = bi_radix * 2 ^ (i - 31)"
    using power_add [of "2 :: int" 31 "i - 31"] by (simp add: radix_eq)
  then show ?thesis using False assms by (simp add: bit_iff_odd zdiv_zmult2_eq)
qed

lemma bit_num: "digits cs \<Longrightarrow> bit (num cs) i \<longleftrightarrow> i div 31 < length cs \<and> bit (cs ! (i div 31)) (i mod 31)"
proof (induction cs arbitrary: i)
  case (Cons c cs)
  then show ?case by (cases "i < 31") (auto simp: bit_comp le_div_geq le_mod_geq)
qed simp

lemma bi_bit_ok: "normal a \<Longrightarrow> bi_bit a i = bit \<bar>value_of a\<bar> i"
  by (auto simp: bi_bit_def Let_def cbit_eq abs_value bit_num normal_comps num_comps_def minus_div_mult_eq_mod)

lemma cbits_ok: "0 \<le> c \<Longrightarrow> c < 2 ^ cbits c \<and> (0 < c \<longrightarrow> 2 ^ (cbits c - 1) \<le> c \<and> 0 < cbits c)"
proof (induction c rule: cbits.induct)
  case (1 c)
  show ?case
  proof (cases "c = 0")
    case False
    then have c: "0 < c" "cbits c = Suc (cbits (c div 2))" using 1(2) by (auto simp: cbits.simps [of c] drop_bit_eq_div)
    have IH: "c div 2 < 2 ^ cbits (c div 2)" "0 < c div 2 \<Longrightarrow> 2 ^ (cbits (c div 2) - 1) \<le> c div 2 \<and> 0 < cbits (c div 2)"
      using 1(1) c(1) by (auto simp: drop_bit_eq_div)
    have "2 ^ cbits (c div 2) \<le> c"
    proof (cases "c div 2 = 0")
      case True
      then show ?thesis using c(1) by (simp add: cbits.simps)
    next
      case False
      then have "0 < c div 2" using c(1) by simp
      then obtain n where "cbits (c div 2) = Suc n" "2 ^ n \<le> c div 2" using IH(2) by (cases "cbits (c div 2)") auto
      then show ?thesis by simp
    qed
    then show ?thesis using IH(1) c by auto
  qed (simp add: cbits.simps)
qed

text \<open>\<open>bi_bits\<close> is the number of bits of the absolute value.\<close>

lemma bi_bits_ok:
  assumes "normal a"
  shows "\<bar>value_of a\<bar> < 2 ^ bi_bits a" "value_of a \<noteq> 0 \<Longrightarrow> 2 ^ (bi_bits a - 1) \<le> \<bar>value_of a\<bar> \<and> 0 < bi_bits a"
proof -
  define cs c where "cs = butlast (comps a)" and "c = last (comps a)"
  have a: "comps a = cs @ [c]" using normal_comps(1) [OF assms] by (simp add: cs_def c_def)
  then have d: "digits cs" "0 \<le> c" "c < bi_radix" using normal_comps(2) [OF assms] by auto
  have r: "bi_radix ^ length cs = 2 ^ (31 * length cs)" by (simp add: radix_eq power_mult)
  have n: "\<bar>value_of a\<bar> = num cs + 2 ^ (31 * length cs) * c" using abs_value [OF assms] by (simp add: a num_append r)
  have b: "bi_bits a = 31 * length cs + cbits c" by (simp add: bi_bits_def num_comps_def a nth_append)
  have cs: "0 \<le> num cs" "num cs < 2 ^ (31 * length cs)" using num_nonneg [OF d(1)] num_less [OF d(1)] by (auto simp: r)
  have "2 ^ (31 * length cs) * (c + 1) \<le> (2 :: int) ^ (31 * length cs) * 2 ^ cbits c"
    using cbits_ok [OF d(2)] by (intro mult_left_mono) auto
  then show "\<bar>value_of a\<bar> < 2 ^ bi_bits a" using n cs by (simp add: b power_add algebra_simps)
  assume "value_of a \<noteq> 0"
  then have "0 < c" using d(2) assms num_eq_0 [OF assms] a by (auto simp: normal_def value_of_def order_less_le)
  then obtain m where m: "cbits c = Suc m" "2 ^ m \<le> c" using cbits_ok [OF d(2)] by (cases "cbits c") auto
  then have "2 ^ (31 * length cs) * 2 ^ m \<le> 2 ^ (31 * length cs) * c" by simp
  moreover have "bi_bits a = Suc (31 * length cs + m)" using m(1) by (simp only: b add_Suc_right)
  ultimately show "2 ^ (bi_bits a - 1) \<le> \<bar>value_of a\<bar> \<and> 0 < bi_bits a"
    using n cs(1) unfolding power_add [symmetric] by auto
qed


section \<open>Division\<close>

lemma radix_sqrt: "bi_radix_sqrt = 46340"
  by code_simp

text \<open>An integer next to the quotient.\<close>

definition near :: "int \<Rightarrow> int \<Rightarrow> int \<Rightarrow> bool" where
  "near n d q = (\<bar>n - q * d\<bar> < d)"

lemma near_cases: "near n d q \<Longrightarrow> q = n div d \<or> q = n div d + 1"
proof -
  assume a: "near n d q"
  then have d: "0 < d" by (simp add: near_def)
  define r where "r = n mod d"
  have n: "n = d * (n div d) + r" "0 \<le> r" "r < d" using d by (simp_all add: r_def)
  have 1: "\<bar>(n div d - q) * d + r\<bar> < d" using a n(1) by (simp add: near_def algebra_simps)
  have "n div d - q < 1"
  proof (rule ccontr)
    assume "\<not> n div d - q < 1"
    then have "1 * d \<le> (n div d - q) * d" using d by (intro mult_right_mono) auto
    then show False using 1 n(2) by linarith
  qed
  moreover have "- 2 < n div d - q"
  proof (rule ccontr)
    assume "\<not> - 2 < n div d - q"
    then have "(n div d - q) * d \<le> - 2 * d" using d by (intro mult_right_mono) auto
    then show False using 1 n(3) by linarith
  qed
  ultimately show ?thesis by auto
qed

lemma near_div: "0 < d \<Longrightarrow> near n d (n div d)"
  using pos_mod_bound [of d n] pos_mod_sign [of d n] by (simp add: near_def minus_div_mult_eq_mod)

lemma gives_drop:
  assumes "normal a" "0 \<le> value_of a" "k < num_comps a"
  shows "gives (Some (a\<lparr>comps := drop k (comps a)\<rparr>)) (value_of a div bi_radix ^ k)"
proof -
  define cs where "cs = comps a"
  have cs: "digits cs" "k < length cs" "sign a = 1" "num cs = value_of a"
    using normal_comps(2) [OF assms(1)] assms normal_nonneg normal_num by (auto simp: cs_def num_comps_def)
  have d: "digits (take k cs)" "digits (drop k cs)" using digits_take_drop [OF cs(1)] by auto
  have e: "num cs = num (take k cs) + bi_radix ^ k * num (drop k cs)" by (rule num_take_drop)
  have n: "0 \<le> num (take k cs)" "num (take k cs) < bi_radix ^ k"
    using num_nonneg [OF d(1)] num_less [OF d(1)] cs(2) by auto
  have "num cs div bi_radix ^ k = num (drop k cs)"
  proof -
    have "bi_radix ^ k \<noteq> 0" using radix_pos by (metis power_not_zero less_irrefl)
    then have "(num (take k cs) + bi_radix ^ k * num (drop k cs)) div bi_radix ^ k =
      num (drop k cs) + num (take k cs) div bi_radix ^ k" by (rule div_mult_self2)
    then show ?thesis using div_pos_pos_trivial [OF n] e by simp
  qed
  moreover have "normal (a\<lparr>comps := drop k cs\<rparr>)"
    using assms(1) d(2) cs(2,3) by (cases k) (auto simp: normal_def cs_def)
  ultimately show ?thesis using cs(3,4) by (simp add: cs_def value_of_def)
qed


text \<open>The top component of the denominator.\<close>

lemma top_comp:
  assumes "normal b" "0 < value_of b"
  defines "t \<equiv> comps b ! (num_comps b - 1)"
  shows "0 < t" "t < bi_radix" "t * bi_radix ^ (num_comps b - 1) \<le> value_of b"
    "value_of b < (t + 1) * bi_radix ^ (num_comps b - 1)"
proof -
  define cs where "cs = butlast (comps b)"
  have "comps b \<noteq> []" using normal_comps(1) [OF assms(1)] .
  then have b: "comps b = cs @ [t]" 
    using append_butlast_last_id [OF \<open>comps b \<noteq> []\<close>] last_conv_nth [OF \<open>comps b \<noteq> []\<close>]
    by (simp add: cs_def t_def num_comps_def)
  have d: "digits cs" "0 \<le> t" "t < bi_radix" using normal_comps(2) [OF assms(1)] by (auto simp: b)
  have "t \<noteq> 0" using assms(1,2) num_eq_0 [OF assms(1)] by (auto simp: normal_def b value_of_def)
  with d show "0 < t" "t < bi_radix" by auto
  have v: "value_of b = num cs + t * bi_radix ^ (num_comps b - 1)"
    using normal_num [OF assms(1)] assms(2) by (simp add: b num_append num_comps_def mult.commute)
  then show "t * bi_radix ^ (num_comps b - 1) \<le> value_of b" using num_nonneg [OF d(1)] by simp
  show "value_of b < (t + 1) * bi_radix ^ (num_comps b - 1)"
    using num_less [OF d(1)] v by (simp add: b num_comps_def algebra_simps)
qed

text \<open>The first approximation is at least the quotient, and what it is too large by is smaller than the numerator.\<close>

lemma approximation:
  fixes n d t p :: int
  assumes "0 < t" "0 < p" "t * p \<le> d" "d < (t + 1) * p" "d \<le> n"
  defines "a \<equiv> n div t div p"
  shows "0 < a" "n div d \<le> a" "a * d - n < n"
proof -
  have a: "a = n div (t * p)" using assms(1,2) by (simp add: a_def zdiv_zmult2_eq)
  have tp: "0 < t * p" using assms(1,2) by simp
  show pos: "0 < a" using tp assms(3,5) by (simp add: a pos_imp_zdiv_pos_iff)
  show "n div d \<le> a" using assms(3,5) tp by (auto simp: a intro!: zdiv_mono2)
  have "a * (t * p) \<le> n" using div_mult_mod_eq [of n "t * p"] pos_mod_sign [OF tp, of n] unfolding a by linarith
  moreover have "a * d < a * ((t + 1) * p)" using pos assms(4) by (rule mult_strict_left_mono [rotated])
  moreover have "a * p \<le> a * (t * p)" using pos assms(1,2) by (intro mult_left_mono) auto
  ultimately show "a * d - n < n" by (simp add: algebra_simps)
qed

lemma multi_divide2_gives:
  assumes "normal b" "1 < num_comps b" "0 < value_of b"
  shows "normal a \<Longrightarrow> value_of b \<le> value_of a \<Longrightarrow>
    \<exists>q. gives (multi_divide2 a b) q \<and> near (value_of a) (value_of b) q"
proof (induction "nat (value_of a)" arbitrary: a rule: less_induct)
  case less
  define o' t n d where "o' = num_comps b - 1" and "t = comps b ! o'" and "n = value_of a" and "d = value_of b"
  define x where "x = n div t div bi_radix ^ o'"
  note t = top_comp [OF assms(1,3), folded o'_def t_def d_def]
  have nd: "0 < d" "d \<le> n" using assms(3) less.prems by (auto simp: n_def d_def)
  note ap = approximation [OF t(1) _ t(3,4) nd(2), folded x_def, simplified]
  have "gives (bi_int_divide a t) (n sdiv t)"
    unfolding n_def using t by (intro bi_int_divide_gives less.prems) (auto simp: is_int_def radix_eq)
  moreover have "n sdiv t = n div t" using nd t(1) by (simp add: signed_divide_int_def sgn_if)
  ultimately obtain A where A: "bi_int_divide a t = Some A" "normal A" "value_of A = n div t"
    by (auto elim: givesE)
  have pos: "0 \<le> n div t" using nd t(1) by (simp add: pos_imp_zdiv_nonneg_iff)
  have len: "o' < num_comps A"
  proof (rule ccontr)
    assume "\<not> o' < num_comps A"
    then have "bi_radix ^ num_comps A \<le> bi_radix ^ o'" by (intro power_increasing) (auto simp: radix_eq)
    then have "n div t < bi_radix ^ o'" using abs_value_less [OF A(2)] A(3) pos by simp
    then show False using ap(1) pos by (simp add: x_def)
  qed
  then obtain X where X: "Some (A\<lparr>comps := drop o' (comps A)\<rparr>) = Some X" "normal X" "value_of X = x"
    using gives_drop [OF A(2)] A(3) pos by (auto simp: x_def elim: givesE)
  obtain P where P: "bi_multiply X b = Some P" "normal P" "value_of P = x * d"
    using bi_multiply_gives [OF X(2) assms(1)] X(3) by (auto simp: d_def elim: givesE)
  obtain R where R: "bi_subtract P a = Some R" "normal R" "value_of R = x * d - n"
    using bi_subtract_gives [OF P(2) less.prems(1)] P(3) by (auto simp: n_def elim: givesE)
  have step: "multi_divide2 a b =
    (if value_of R \<le> 0 then Some X else if value_of R < d then bi_int_subtract X 1
     else multi_divide2 R b \<bind> bi_subtract X)"
    using len unfolding multi_divide2.simps [of a b] Let_def o'_def [symmetric] t_def [symmetric]
    by (auto simp: A(1) X(1) P(1) R(1) negative_iff [OF R(2)] zero_iff [OF R(2)]
        compare_ok [OF R(2) assms(1)] d_def sgn_if simp del: bi_updates)
  consider "value_of R \<le> 0" | "0 < value_of R" "value_of R < d" | "d \<le> value_of R" "0 < value_of R"
    using nd by linarith
  then have "\<exists>q. gives (multi_divide2 a b) q \<and> near n d q"
  proof cases
    case 1
    then have "x * d \<le> n" using R(3) by simp
    then have "x = n div d" using ap(2) nd zdiv_mono1 [of "x * d" n d] by simp
    then show ?thesis using 1 step X near_div [OF nd(1)] by auto
  next
    case 2
    then have "near n d (x - 1)" using R(3) by (simp add: near_def abs_less_iff algebra_simps)
    then show ?thesis using 2 step bi_int_subtract_gives [OF X(2), of 1] X(3) by (auto simp: is_int_def)
  next
    case 3
    have "nat (value_of R) < nat (value_of a)" using ap(3) R(3) nd by (simp add: n_def)
    then obtain q where q: "gives (multi_divide2 R b) q" "near (value_of R) d q"
      using less.hyps [of R] R(2) 3 by (auto simp: d_def)
    have "gives (multi_divide2 R b \<bind> bi_subtract X) (x - q)"
      by (rule gives_bind [OF q(1)]) (use bi_subtract_gives [OF X(2)] X(3) in auto)
    moreover have "near n d (x - q)" using q(2) R(3) by (simp add: near_def abs_less_iff algebra_simps)
    ultimately show ?thesis using 3 step by auto
  qed
  then show ?case by (simp add: n_def d_def)
qed


lemma multi_divide_gives:
  assumes "normal a" "normal b" "0 < value_of b" "value_of b < value_of a" "1 < num_comps b"
  shows "\<exists>q. gives (multi_divide a b) q \<and> near (value_of a) (value_of b) q"
proof (cases "comps b ! (num_comps b - 1) < bi_radix_sqrt")
  case True
  obtain a' where a: "bi_int_multiply a 46340 = Some a'" "normal a'" "value_of a' = value_of a * 46340"
    using bi_int_multiply_gives [OF assms(1), of 46340] by (auto simp: is_int_def elim: givesE)
  obtain b' where b: "bi_int_multiply b 46340 = Some b'" "normal b'" "value_of b' = value_of b * 46340"
    using bi_int_multiply_gives [OF assms(2), of 46340] by (auto simp: is_int_def elim: givesE)
  have "bi_radix ^ 1 \<le> bi_radix ^ (num_comps b - 1)"
    using assms(5) by (intro power_increasing) (auto simp: radix_eq)
  then have "bi_radix \<le> value_of b" using abs_value_ge [OF assms(2)] assms(3) by simp
  then have "bi_radix ^ 1 \<le> \<bar>value_of b'\<bar>" using b(3) by (simp add: radix_eq)
  have "1 < num_comps b'"
  proof (rule ccontr)
    assume "\<not> 1 < num_comps b'"
    then have "bi_radix ^ num_comps b' \<le> bi_radix ^ 1" by (intro power_increasing) (auto simp: radix_eq)
    then show False using abs_value_less [OF b(2)] \<open>bi_radix ^ 1 \<le> \<bar>value_of b'\<bar>\<close> by linarith
  qed
  then obtain q where "gives (multi_divide2 a' b') q" "near (value_of a') (value_of b') q"
    using multi_divide2_gives [OF b(2), of a'] a b assms by auto
  moreover have "near (value_of a) (value_of b) q" if "near (value_of a * 46340) (value_of b * 46340) q"
  proof -
    have "value_of a * 46340 - q * (value_of b * 46340) = 46340 * (value_of a - q * value_of b)" by simp
    then have "46340 * \<bar>value_of a - q * value_of b\<bar> < 46340 * value_of b"
      using that by (simp add: near_def abs_mult)
    then show ?thesis by (simp add: near_def)
  qed
  ultimately show ?thesis using True a b by (auto simp: multi_divide_def radix_sqrt)
next
  case False
  then show ?thesis using multi_divide2_gives [OF assms(2,5,3,1)] assms(4) by (simp add: multi_divide_def)
qed

text \<open>
  What \<open>divide_by\<close> needs of a division of long numbers, and what it makes of it. \<open>R n d q\<close> says how
  good a quotient is, \<open>ok\<close> which numerators the division can take.
\<close>

locale long_division =
  fixes long :: "bigint \<Rightarrow> bigint \<Rightarrow> bigint option"
    and ok :: "int \<Rightarrow> bool"
    and R :: "int \<Rightarrow> int \<Rightarrow> int \<Rightarrow> bool"
  assumes long: "normal a \<Longrightarrow> normal b \<Longrightarrow> ok (value_of a) \<Longrightarrow> 0 < value_of b \<Longrightarrow> value_of b < value_of a \<Longrightarrow> 1 < num_comps b \<Longrightarrow>
      \<exists>q. gives (long a b) q \<and> R (value_of a) (value_of b) q"
    and exact: "0 < d \<Longrightarrow> 0 \<le> n \<Longrightarrow> R n d (n div d)"
    and positive: "0 < d \<Longrightarrow> d < n \<Longrightarrow> R n d q \<Longrightarrow> 0 < q"
begin

lemma divide_pos:
  assumes "normal a" "normal b" "0 < value_of b" "value_of b < value_of a" "ok (value_of a)"
  shows "\<exists>q. gives (if num_comps b = 1 then bi_int_divide a (comps b ! 0) else long a b) q \<and>
    R (value_of a) (value_of b) q \<and> (num_comps b = 1 \<longrightarrow> q = value_of a div value_of b)"
proof (cases "num_comps b = 1")
  case True
  then obtain c where c: "comps b = [c]" by (cases "comps b") (auto simp: num_comps_def)
  then have v: "value_of b = c" "c < bi_radix" "0 < c"
    using normal_num [OF assms(2)] assms(3) normal_comps(2) [OF assms(2)] by auto
  then have "gives (bi_int_divide a c) (value_of a sdiv c)"
    by (intro bi_int_divide_gives assms) (auto simp: is_int_def radix_eq)
  moreover have "value_of a sdiv c = value_of a div c"
    using assms v by (simp add: signed_divide_int_def sgn_if)
  ultimately show ?thesis using True c v exact [of c "value_of a"] assms by auto
next
  case False
  then have "1 < num_comps b" using normal_comps(1) [OF assms(2)] by (cases "comps b") (auto simp: num_comps_def)
  then show ?thesis using long [OF assms(1,2,5,3,4)] False by auto
qed

lemma divide:
  assumes "normal a" "normal b" "value_of b \<noteq> 0" "ok \<bar>value_of a\<bar>"
  shows "\<exists>q. gives (divide_by long a b) (sgn (value_of a) * sgn (value_of b) * q) \<and>
    R \<bar>value_of a\<bar> \<bar>value_of b\<bar> q \<and> (num_comps b = 1 \<longrightarrow> q = \<bar>value_of a\<bar> div \<bar>value_of b\<bar>)"
proof -
  define b' a' s where "b' = (if value_of b < 0 then bi_negate b else b)"
    and "a' = (if value_of a < 0 then bi_negate a else a)" and "s = sgn (value_of a) * sgn (value_of b)"
  have b: "normal b'" "value_of b' = \<bar>value_of b\<bar>" "num_comps b' = num_comps b" "comps b' = comps b"
    using assms negate_ok [of b] by (auto simp: b'_def bi_negate_def num_comps_def)
  have a: "normal a'" "value_of a' = \<bar>value_of a\<bar>"
    using assms(1) negate_ok [of a] by (auto simp: a'_def)
  show ?thesis
  proof (cases "value_of a = 0")
    case True
    then show ?thesis using assms exact [of "\<bar>value_of b\<bar>" 0]
      by (auto simp: divide_by_def Let_def compare_ok sgn_if intro!: exI [of _ 0])
  next
    case False
    have s: "s = 1 \<or> s = - 1" using False assms(3) by (auto simp: s_def sgn_if)
    have e: "divide_by long a b =
      (if bi_compare a' b' = - 1 then Some bi_0
       else if bi_compare a' b' = 0 then Some (if s = 1 then bi_1 else bi_m1)
       else (if num_comps b' = 1 then bi_int_divide a' (comps b' ! 0) else long a' b') \<bind>
         (\<lambda>q. Some (if s = - 1 then bi_negate q else q)))"
      using False assms
      by (cases "value_of b < 0"; cases "value_of a < 0")
        (auto simp: divide_by_def Let_def compare_ok sgn_if a'_def b'_def s_def bi_negate_def num_comps_def)
    have c: "bi_compare a' b' = sgn (\<bar>value_of a\<bar> - \<bar>value_of b\<bar>)" using a b by (simp add: compare_ok)
    consider "\<bar>value_of a\<bar> < \<bar>value_of b\<bar>" | "\<bar>value_of a\<bar> = \<bar>value_of b\<bar>" | "\<bar>value_of b\<bar> < \<bar>value_of a\<bar>"
      by linarith
    then show ?thesis
    proof cases
      case 1
      then show ?thesis using e c exact [of "\<bar>value_of b\<bar>" "\<bar>value_of a\<bar>"] assms(3)
        by (auto simp: div_pos_pos_trivial intro!: exI [of _ 0])
    next
      case 2
      then show ?thesis using e c exact [of "\<bar>value_of b\<bar>" "\<bar>value_of a\<bar>"] assms(3) s
        by (auto simp: s_def intro!: exI [of _ 1])
    next
      case 3
      then obtain q Q where q: "(if num_comps b' = 1 then bi_int_divide a' (comps b' ! 0) else long a' b') = Some Q"
        "normal Q" "value_of Q = q" "R \<bar>value_of a\<bar> \<bar>value_of b\<bar> q"
        "num_comps b = 1 \<longrightarrow> q = \<bar>value_of a\<bar> div \<bar>value_of b\<bar>"
        using divide_pos [OF a(1) b(1)] a b assms(3,4) by (auto simp: gives_def)
      have "0 < q" using positive [OF _ 3 q(4)] assms(3) by simp
      then have "gives (divide_by long a b) (s * q)"
        using e c 3 q(1-3) s negate_ok [of Q] by auto
      then show ?thesis using q(4,5) by (auto simp: s_def)
    qed
  qed
qed

end

interpretation approx: long_division multi_divide "\<lambda>n. True" near
proof unfold_locales
  show "0 < q" if "0 < d" "d < n" "near n d q" for n d q
  proof (rule ccontr)
    assume "\<not> 0 < q"
    then have "q * d \<le> 0" using that(1) by (simp add: mult_le_0_iff)
    then show False using that by (simp add: near_def)
  qed
qed (auto intro: multi_divide_gives near_div)

lemma bi_divide_gives:
  assumes "normal a" "normal b" "value_of b \<noteq> 0"
  shows "\<exists>q. gives (bi_divide a b) q \<and> \<bar>value_of a - q * value_of b\<bar> < \<bar>value_of b\<bar> \<and>
    (num_comps b = 1 \<longrightarrow> q = value_of a sdiv value_of b)"
proof -
  define s where "s = sgn (value_of a) * sgn (value_of b)"
  obtain q where q: "gives (bi_divide a b) (s * q)" "near \<bar>value_of a\<bar> \<bar>value_of b\<bar> q"
    "num_comps b = 1 \<longrightarrow> q = \<bar>value_of a\<bar> div \<bar>value_of b\<bar>"
    using approx.divide [OF assms TrueI] by (auto simp: bi_divide_def s_def)
  have "\<bar>value_of a - s * q * value_of b\<bar> < \<bar>value_of b\<bar>"
    using q(2) assms(3) by (cases "value_of a = 0"; cases "value_of a < 0"; cases "value_of b < 0")
      (auto simp: near_def s_def sgn_if abs_less_iff)
  then show ?thesis using q by (auto simp: s_def signed_divide_int_def)
qed


text \<open>
  C26. Division by a number other than zero returns a number in normal form whose product with the
  denominator is less than one denominator away from the numerator. It is the quotient truncated towards
  zero if the denominator has one component. Longer denominators may give the quotient rounded away
  from zero.
\<close>

theorem divide_within_one:
  assumes "normal a" "normal b" "value_of b \<noteq> 0"
  shows "\<exists>q. bi_divide a b = Some q \<and> normal q \<and>
    \<bar>value_of a - value_of q * value_of b\<bar> < \<bar>value_of b\<bar> \<and>
    (num_comps b = 1 \<longrightarrow> value_of q = value_of a sdiv value_of b)"
  using bi_divide_gives [OF assms] by (auto simp: gives_def)

theorem divide_within_one_witness:
  "\<exists>q. bi_divide \<lparr>sign = - 1, comps = [5, 7, 9, 100]\<rparr> \<lparr>sign = 1, comps = [3, 4, 5]\<rparr> = Some q \<and> normal q \<and>
    \<bar>value_of \<lparr>sign = - 1, comps = [5, 7, 9, 100]\<rparr> - value_of q * value_of \<lparr>sign = 1, comps = [3, 4, 5]\<rparr>\<bar>
      < \<bar>value_of \<lparr>sign = 1, comps = [3, 4, 5]\<rparr>\<bar> \<and>
    (num_comps \<lparr>sign = 1, comps = [3, 4, 5]\<rparr> = 1 \<longrightarrow>
      value_of q = value_of \<lparr>sign = - 1, comps = [5, 7, 9, 100]\<rparr> sdiv value_of \<lparr>sign = 1, comps = [3, 4, 5]\<rparr>)"
  by (rule divide_within_one) (simp_all add: normal_def value_of_def radix_eq)

text \<open>
  Division does round up: for a numerator of 1537228677104096596 and a denominator of 4294967295 it
  returns 357913943, one more than the quotient.
\<close>

theorem divide_rounds_up:
  "value_of \<lparr>sign = 1, comps = [1431655764, 715827884]\<rparr> div value_of \<lparr>sign = 1, comps = [2147483647, 1]\<rparr> = 357913942 \<and>
   bi_divide \<lparr>sign = 1, comps = [1431655764, 715827884]\<rparr> \<lparr>sign = 1, comps = [2147483647, 1]\<rparr> =
     Some \<lparr>sign = 1, comps = [357913943]\<rparr>"
proof
  show "value_of \<lparr>sign = 1, comps = [1431655764, 715827884]\<rparr> div value_of \<lparr>sign = 1, comps = [2147483647, 1]\<rparr> = 357913942"
    by (simp add: value_of_def radix_eq)
  show "bi_divide \<lparr>sign = 1, comps = [1431655764, 715827884]\<rparr> \<lparr>sign = 1, comps = [2147483647, 1]\<rparr> =
      Some \<lparr>sign = 1, comps = [357913943]\<rparr>"
    by code_simp
qed

end
