(* ===== verification/BigintExt_Proofs.thy ===== *)
theory BigintExt_Proofs
  imports BigintExt Bigint_Division
begin

text \<open>
  The functions of \<open>bigint_ext.c\<close> as functions of integers: printing and reading, remainders, powers,
  modular arithmetic, and the two gcd algorithms. The rounded quotients of \<open>bi_divide\<close> do no harm where
  the remainder is corrected (\<open>bi_mod\<close>) or the division is exact (\<open>bi_lcm\<close>).
\<close>

section \<open>Printing and reading\<close>

lemma char_digit: "0 \<le> d \<Longrightarrow> d < 36 \<Longrightarrow> char_to_digit (digit_to_char d) = d"
  by (auto simp: char_to_digit_def digit_to_char_def Let_def take_bit_int_eq_self_iff)

lemma digit_not_minus: "0 \<le> d \<Longrightarrow> d < 36 \<Longrightarrow> digit_to_char d \<noteq> CHR ''-''"
proof
  assume "0 \<le> d" "d < 36" "digit_to_char d = CHR ''-''"
  then have "char_to_digit CHR ''-'' = d" using char_digit [of d] by simp
  then show False using \<open>0 \<le> d\<close> by (simp add: char_to_digit_def)
qed

lemma int_mod_ok:
  assumes "normal bi" "0 < m" "is_int m"
  shows "bi_int_mod bi m = Some (value_of bi mod m)"
proof -
  have "bi_int_rem bi m = Some (value_of bi smod m)" using bi_int_rem_ok assms by auto
  moreover have "(if value_of bi smod m < 0 then value_of bi smod m + m else value_of bi smod m) = value_of bi mod m"
  proof (cases "0 \<le> value_of bi")
    case True
    then show ?thesis using assms(2) by (simp add: smod_mod_positive not_less)
  next
    case False
    then have "value_of bi smod m = - (- value_of bi mod m)" using assms(2) by (simp add: signed_modulo_int_def)
    moreover have "0 \<le> - value_of bi mod m" using assms(2) by simp
    moreover have "value_of bi mod m = (if - value_of bi mod m = 0 then 0 else m - - value_of bi mod m)"
      using zmod_zminus1_eq_if [of "- value_of bi" m] by simp
    ultimately show ?thesis by (auto split: if_splits)
  qed
  ultimately show ?thesis using assms(2) by (simp add: bi_int_mod_def)
qed

text \<open>Reading a text of digits: the number after it.\<close>

definition reads :: "int \<Rightarrow> string \<Rightarrow> int \<Rightarrow> bool" where
  "reads base s n = (\<forall>t R. normal R \<longrightarrow>
     (\<exists>R'. normal R' \<and> value_of R' = value_of R * base ^ length s + n \<and>
       scan_digits base (s @ t) R = scan_digits base t R'))"

lemma reads_Nil: "reads base [] 0"
  by (auto simp: reads_def)

lemma reads_snoc:
  assumes "reads base s n" "0 \<le> d" "d < base" "base \<le> 36"
  shows "reads base (s @ [digit_to_char d]) (n * base + d)"
  unfolding reads_def
proof (intro allI impI)
  fix t R
  assume "normal R"
  then obtain R1 where R1: "normal R1" "value_of R1 = value_of R * base ^ length s + n"
    "scan_digits base (s @ digit_to_char d # t) R = scan_digits base (digit_to_char d # t) R1"
    using assms(1) unfolding reads_def by blast
  obtain R2 where R2: "bi_int_multiply R1 base = Some R2" "normal R2" "value_of R2 = value_of R1 * base"
    using bi_int_multiply_gives [OF R1(1), of base] assms(2-4) by (auto simp: is_int_def elim: givesE)
  obtain R3 where R3: "bi_int_add R2 d = Some R3" "normal R3" "value_of R3 = value_of R2 + d"
    using bi_int_add_gives [OF R2(2), of d] assms(2-4) by (auto simp: is_int_def elim: givesE)
  have "scan_digits base (digit_to_char d # t) R1 = scan_digits base t R3"
    using assms(2-4) R2(1) R3(1) by (simp add: char_digit)
  then show "\<exists>R'. normal R' \<and> value_of R' = value_of R * base ^ length (s @ [digit_to_char d]) + (n * base + d) \<and>
      scan_digits base ((s @ [digit_to_char d]) @ t) R = scan_digits base t R'"
    using R1 R2 R3 by (auto simp: algebra_simps)
qed

lemma print_pos_reads:
  assumes "2 \<le> base" "base \<le> 36"
  shows "normal bi \<Longrightarrow> 0 \<le> value_of bi \<Longrightarrow>
    \<exists>s. print_pos bi base = Some s \<and> s \<noteq> [] \<and> hd s \<noteq> CHR ''-'' \<and> reads base s (value_of bi)"
proof (induction "nat (value_of bi)" arbitrary: bi rule: less_induct)
  case less
  obtain b where b: "int_to_bi base = Some b" "normal b" "value_of b = base"
    using int_to_bi_gives [of base] assms by (auto simp: is_int_def elim: givesE)
  define d where "d = value_of bi mod base"
  have d: "0 \<le> d" "d < base" "bi_int_mod bi base = Some d"
    using int_mod_ok [OF less.prems(1)] assms by (auto simp: d_def is_int_def)
  have cmp: "0 \<le> bi_compare bi b \<longleftrightarrow> base \<le> value_of bi"
    using compare_ok [OF less.prems(1) b(2)] b(3) by (auto simp: sgn_if)
  show ?case
  proof (cases "base \<le> value_of bi")
    case True
    obtain q where q: "bi_int_divide bi base = Some q" "normal q" "value_of q = value_of bi sdiv base"
      using bi_int_divide_gives [OF less.prems(1), of base] assms by (auto simp: is_int_def elim: givesE)
    have v: "value_of q = value_of bi div base" using q(3) less.prems(2) assms by (simp add: signed_divide_int_def sgn_if)
    have "nat (value_of q) < nat (value_of bi)" "0 \<le> value_of q"
      using True assms by (auto simp: v int_div_less_self pos_imp_zdiv_nonneg_iff)
    then obtain s where s: "print_pos q base = Some s" "s \<noteq> []" "hd s \<noteq> CHR ''-''" "reads base s (value_of q)"
      using less.hyps q(2) by blast
    have "reads base (s @ [digit_to_char d]) (value_of q * base + d)" by (rule reads_snoc [OF s(4) d(1,2) assms(2)])
    moreover have "value_of q * base + d = value_of bi" by (simp add: v d_def)
    ultimately show ?thesis using True s q(1) b(1) d(3) cmp
      by (subst print_pos.simps) (auto simp: hd_append)
  next
    case False
    then have "value_of bi = d" using less.prems(2) by (simp add: d_def)
    moreover have "reads base ([] @ [digit_to_char d]) (0 * base + d)" by (rule reads_snoc [OF reads_Nil d(1,2) assms(2)])
    moreover have "digit_to_char d \<noteq> CHR ''-''" using digit_not_minus d assms by simp
    ultimately show ?thesis using False b(1) d(3) cmp by (subst print_pos.simps) auto
  qed
qed

lemma print_parse:
  assumes "normal bi" "2 \<le> base" "base \<le> 36"
  shows "bi_print_base bi base \<bind> (\<lambda>s. str_to_bi_base s base) = Some bi"
proof -
  define a where "a = (if value_of bi < 0 then bi_negate bi else bi)"
  have a: "normal a" "0 \<le> value_of a" "(if value_of bi < 0 then bi_negate a else a) = bi"
    using assms(1) negate_ok [of bi] by (auto simp: a_def bi_negate_def)
  obtain s where s: "print_pos a base = Some s" "s \<noteq> []" "hd s \<noteq> CHR ''-''" "reads base s (value_of a)"
    using print_pos_reads [OF assms(2,3) a(1,2)] by blast
  obtain R where "normal R" "value_of R = value_of a" "scan_digits base s bi_0 = Some (R, [])"
    using s(4) unfolding reads_def by (metis append_Nil2 normal_0 mult_zero_left add_0 scan_digits.simps(1))
  then have R: "scan_digits base s bi_0 = Some (a, [])" using normal_unique a(1) by metis
  show ?thesis
  proof (cases "value_of bi < 0")
    case True
    then have "bi_print_base bi base = Some (CHR ''-'' # s)"
      using negative_iff [OF assms(1)] s(1) by (simp add: bi_print_base_def a_def)
    then show ?thesis using R a(3) True by (simp add: str_to_bi_base_def)
  next
    case False
    then have "bi_print_base bi base = Some s"
      using negative_iff [OF assms(1)] s(1) by (simp add: bi_print_base_def a_def)
    then show ?thesis using R a(3) False s(2,3) by (cases s) (auto simp: str_to_bi_base_def)
  qed
qed

section \<open>Remainders\<close>

lemma bi_mod_gives:
  assumes "normal a" "normal m" "0 < value_of m"
  shows "gives (bi_mod a m) (value_of a mod value_of m)"
proof -
  obtain Q q where Q: "bi_divide a m = Some Q" "normal Q" "value_of Q = q"
    "\<bar>value_of a - q * value_of m\<bar> < \<bar>value_of m\<bar>"
    using bi_divide_gives [OF assms(1,2)] assms(3) by (auto simp: gives_def)
  obtain P where P: "bi_multiply Q m = Some P" "normal P" "value_of P = q * value_of m"
    using bi_multiply_gives [OF Q(2) assms(2)] Q(3) by (auto elim: givesE)
  obtain R where R: "bi_subtract a P = Some R" "normal R" "value_of R = value_of a - q * value_of m"
    using bi_subtract_gives [OF assms(1) P(2)] P(3) by (auto elim: givesE)
  have c: "\<not> bi_compare m bi_0 \<le> 0" using assms by (simp add: compare_ok sgn_if)
  have r: "\<bar>value_of R\<bar> < value_of m" "value_of R mod value_of m = value_of a mod value_of m"
    using Q(4) R(3) assms(3) by (auto simp: mod_diff_right_eq [symmetric])
  show ?thesis
  proof (cases "value_of R < 0")
    case True
    have "value_of a mod value_of m = value_of R + value_of m"
    proof -
      have "(value_of R + value_of m) mod value_of m = value_of R mod value_of m" by simp
      moreover have "(value_of R + value_of m) mod value_of m = value_of R + value_of m"
        using r(1) True by (intro mod_pos_pos_trivial) auto
      ultimately show ?thesis using r(2) by simp
    qed
    then show ?thesis using True c Q(1) P(1) R negative_iff [OF R(2)] bi_add_gives [OF R(2) assms(2)]
      by (simp add: bi_mod_def bi_rem_def)
  next
    case False
    then have "value_of a mod value_of m = value_of R" using r by (metis abs_of_nonneg mod_pos_pos_trivial not_less)
    then show ?thesis using False c Q(1) P(1) R negative_iff [OF R(2)] by (simp add: bi_mod_def bi_rem_def)
  qed
qed


section \<open>Modular arithmetic\<close>

lemma outside_iff:
  "normal a \<Longrightarrow> normal m \<Longrightarrow> outside a m \<longleftrightarrow> \<not> (0 \<le> value_of a \<and> value_of a < value_of m)"
  by (auto simp: outside_def negative_iff compare_ok sgn_if)

lemma modulus_pos: "normal m \<Longrightarrow> bi_compare m bi_0 \<le> 0 \<longleftrightarrow> value_of m \<le> 0"
  by (auto simp: compare_ok sgn_if)

text \<open>Bringing an operand into the range.\<close>

lemma reduce_gives:
  assumes "normal a" "normal m" "0 < value_of m"
  shows "gives (if outside a m then bi_mod a m else Some a) (value_of a mod value_of m)"
  using assms bi_mod_gives [OF assms] by (auto simp: outside_iff)

lemma bi_mod_multiply_gives:
  assumes "normal a" "normal b" "normal m" "0 < value_of m"
  shows "gives (bi_mod_multiply a b m) (value_of a * value_of b mod value_of m)"
  unfolding bi_mod_multiply_def
proof (rule gives_bind [OF reduce_gives [OF assms(1,3,4)]], rule gives_bind [OF reduce_gives [OF assms(2,3,4)]],
    rule times_op.bind)
  fix a' b' p
  assume n: "normal a'" "normal b'" "value_of a' = value_of a mod value_of m" "value_of b' = value_of b mod value_of m"
  then show "normal a'" "normal b'" by auto
  show True ..
  assume p: "normal p" "value_of p = value_of a' * value_of b'"
  then show "gives (bi_mod p m) (value_of a * value_of b mod value_of m)"
    using bi_mod_gives [OF p(1) assms(3,4)] by (simp add: n mod_mult_eq)
qed

lemma bi_mod_add_gives:
  assumes "normal a" "normal b" "normal m" "0 < value_of m"
  shows "gives (bi_mod_add a b m) ((value_of a + value_of b) mod value_of m)"
proof -
  obtain S where S: "bi_add a b = Some S" "normal S" "value_of S = value_of a + value_of b"
    using bi_add_gives [OF assms(1,2)] by (auto elim: givesE)
  show ?thesis
  proof (cases "outside a m \<or> outside b m")
    case True
    then show ?thesis using S bi_mod_gives [OF S(2) assms(3,4)] modulus_pos [OF assms(3)] assms(4)
      by (simp add: bi_mod_add_def)
  next
    case False
    then have r: "0 \<le> value_of S" "value_of S < 2 * value_of m" using S(3) assms by (auto simp: outside_iff)
    have c: "0 \<le> bi_compare S m \<longleftrightarrow> value_of m \<le> value_of S" using S(2) assms by (auto simp: compare_ok sgn_if)
    have "gives (if 0 \<le> bi_compare S m then bi_subtract S m else Some S) (value_of S mod value_of m)"
    proof (cases "value_of m \<le> value_of S")
      case True
      then have "value_of S mod value_of m = value_of S - value_of m"
        using r minus_mod_self2 [of "value_of S" "value_of m"] mod_pos_pos_trivial [of "value_of S - value_of m" "value_of m"]
        by simp
      then show ?thesis using True c bi_subtract_gives [OF S(2) assms(3)] by simp
    next
      case False
      then show ?thesis using r c S(2) by simp
    qed
    then show ?thesis using False S modulus_pos [OF assms(3)] assms(4) by (simp add: bi_mod_add_def)
  qed
qed

lemma bi_mod_subtract_gives:
  assumes "normal a" "normal b" "normal m" "0 < value_of m"
  shows "gives (bi_mod_subtract a b m) ((value_of a - value_of b) mod value_of m)"
proof -
  obtain S where S: "bi_subtract a b = Some S" "normal S" "value_of S = value_of a - value_of b"
    using bi_subtract_gives [OF assms(1,2)] by (auto elim: givesE)
  show ?thesis
  proof (cases "outside a m \<or> outside b m")
    case True
    then show ?thesis using S bi_mod_gives [OF S(2) assms(3,4)] modulus_pos [OF assms(3)] assms(4)
      by (simp add: bi_mod_subtract_def)
  next
    case False
    then have r: "- value_of m < value_of S" "value_of S < value_of m" using S(3) assms by (auto simp: outside_iff)
    have "gives (if bi_is_negative S then bi_add S m else Some S) (value_of S mod value_of m)"
    proof (cases "value_of S < 0")
      case True
      then have "value_of S mod value_of m = value_of S + value_of m"
        using r mod_add_self2 [of "value_of S" "value_of m"] mod_pos_pos_trivial [of "value_of S + value_of m" "value_of m"]
        by simp
      then show ?thesis using True bi_add_gives [OF S(2) assms(3)] by (simp add: negative_iff S(2))
    next
      case False
      then show ?thesis using r S(2) by (simp add: negative_iff)
    qed
    then show ?thesis using False S modulus_pos [OF assms(3)] assms(4) by (simp add: bi_mod_subtract_def)
  qed
qed

section \<open>Powers\<close>

lemma take_bit_power: "b ^ nat (take_bit (Suc k) e) = b ^ nat (take_bit k e) * (if bit e k then b ^ (2 ^ k) else 1)"
  for b :: int
proof -
  have "take_bit (Suc k) e = take_bit k e + (if bit e k then 2 ^ k else 0)"
    by (simp add: take_bit_Suc_from_most ac_simps)
  then show ?thesis by (simp add: nat_add_distrib nat_power_eq power_add)
qed

text \<open>The squares and products of both power functions, with the range of bits that the loop still has to see.\<close>

lemma power_loop_gives:
  assumes "normal e" "normal b" "normal R" "0 < k" "k \<le> n"
    "value_of b = x ^ (2 ^ (k - 1))" "value_of R = x ^ nat (take_bit k \<bar>value_of e\<bar>)"
  shows "gives (power_loop e [k..<n] b R) (x ^ nat (take_bit n \<bar>value_of e\<bar>))"
  using assms
proof (induction "n - k" arbitrary: k b R)
  case (Suc j)
  then have k: "[k..<n] = k # [Suc k..<n]" by (simp add: upt_conv_Cons)
  obtain b' where b': "bi_square b = Some b'" "normal b'" "value_of b' = x ^ (2 ^ k)"
  proof -
    have "value_of b * value_of b = x ^ (2 ^ k)"
      using Suc.prems(4,6) by (cases k) (simp_all add: power_add [symmetric] mult_2)
    then show thesis using that bi_square_gives [OF Suc.prems(2)] by (auto elim: givesE)
  qed
  have "gives (if bi_bit e k then bi_multiply R b' else Some R) (x ^ nat (take_bit (Suc k) \<bar>value_of e\<bar>))"
    using bi_multiply_gives [OF Suc.prems(3) b'(2)] Suc.prems(1,3,7) b'(3)
    by (simp add: bi_bit_ok take_bit_power del: take_bit_Suc)
  then obtain R' where R': "(if bi_bit e k then bi_multiply R b' else Some R) = Some R'" "normal R'"
    "value_of R' = x ^ nat (take_bit (Suc k) \<bar>value_of e\<bar>)" by (rule givesE)
  have "gives (power_loop e [Suc k..<n] b' R') (x ^ nat (take_bit n \<bar>value_of e\<bar>))"
    using Suc.hyps b' R'(2,3) Suc.prems by (intro Suc.hyps(1)) auto
  then show ?case by (simp add: k b'(1) R'(1))
qed simp

lemma first_bit: "nat (take_bit 1 \<bar>v\<bar>) = (if bit \<bar>v\<bar> 0 then 1 else 0)" for v :: int
  by (simp add: take_bit_Suc bit_0 mod_2_eq_odd)

lemma bits_bound:
  assumes "normal e" "bi_bits e \<le> n"
  shows "take_bit n \<bar>value_of e\<bar> = \<bar>value_of e\<bar>"
proof -
  have "\<bar>value_of e\<bar> < 2 ^ n"
    using bi_bits_ok(1) [OF assms(1)] power_increasing [OF assms(2), of "2 :: int"] by linarith
  then show ?thesis by (simp add: take_bit_int_eq_self)
qed

lemma bi_power_gives:
  assumes "normal b" "normal e" "0 \<le> value_of e"
  shows "gives (bi_power b e) (value_of b ^ nat (value_of e))"
proof -
  define n where "n = max 1 (bi_bits e)"
  have l: "[1..<bi_bits e] = [1..<n]" by (simp add: n_def max_def)
  have "gives (power_loop e [1..<n] b (if bi_bit e 0 then b else bi_1))
    (value_of b ^ nat (take_bit n \<bar>value_of e\<bar>))"
    by (rule power_loop_gives)
      (use assms first_bit [of "value_of e"] in \<open>auto simp: n_def bi_bit_ok\<close>)
  moreover have "take_bit n \<bar>value_of e\<bar> = value_of e"
    using bits_bound [OF assms(2), of n] assms(3) by (simp add: n_def)
  ultimately show ?thesis using assms(3) negative_iff [OF assms(2)] unfolding bi_power_def l by simp
qed


lemma mod_power_loop_gives:
  assumes "normal e" "normal m" "0 < value_of m" "normal b" "normal R" "0 < k" "k \<le> n"
    "value_of b mod value_of m = x ^ (2 ^ (k - 1)) mod value_of m"
    "value_of R mod value_of m = x ^ nat (take_bit k \<bar>value_of e\<bar>) mod value_of m"
    "0 \<le> value_of R" "value_of R < value_of m"
  shows "gives (mod_power_loop e m [k..<n] b R) (x ^ nat (take_bit n \<bar>value_of e\<bar>) mod value_of m)"
  using assms(4-)
proof (induction "n - k" arbitrary: k b R)
  case (Suc j)
  define p where "p = value_of m"
  from Suc have k: "[k..<n] = k # [Suc k..<n]" by (simp add: upt_conv_Cons)
  obtain b' where b': "bi_mod_square b m = Some b'" "normal b'" "value_of b' mod p = x ^ (2 ^ k) mod p"
  proof -
    have "x ^ (2 ^ k) = x ^ (2 ^ (k - 1)) * x ^ (2 ^ (k - 1))"
      using Suc.prems(3) by (cases k) (simp_all add: power_add [symmetric] mult_2)
    then have "value_of b * value_of b mod p = x ^ (2 ^ k) mod p"
      using Suc.prems(5) unfolding p_def by (metis mod_mult_eq)
    then show thesis using that bi_mod_multiply_gives [OF Suc.prems(1,1) assms(2,3)]
      by (auto simp: bi_mod_square_def p_def elim: givesE)
  qed
  have "gives (if bi_bit e k then bi_mod_multiply R b' m else Some R) (x ^ nat (take_bit (Suc k) \<bar>value_of e\<bar>) mod p)"
  proof (cases "bi_bit e k")
    case True
    have "value_of R * value_of b' mod p = x ^ nat (take_bit (Suc k) \<bar>value_of e\<bar>) mod p"
    proof -
      have "value_of R * value_of b' mod p = x ^ nat (take_bit k \<bar>value_of e\<bar>) * x ^ (2 ^ k) mod p"
        using Suc.prems(6) b'(3) unfolding p_def by (metis mod_mult_eq)
      then show ?thesis using True assms(1) by (simp add: take_bit_power bi_bit_ok del: take_bit_Suc)
    qed
    then show ?thesis using True bi_mod_multiply_gives [OF Suc.prems(2) b'(2) assms(2,3)] by (simp add: p_def)
  next
    case False
    then show ?thesis using Suc.prems(2,6-8) assms(1)
      by (simp add: take_bit_power bi_bit_ok p_def del: take_bit_Suc)
  qed
  then obtain R' where R': "(if bi_bit e k then bi_mod_multiply R b' m else Some R) = Some R'" "normal R'"
    "value_of R' = x ^ nat (take_bit (Suc k) \<bar>value_of e\<bar>) mod p" by (rule givesE)
  have "gives (mod_power_loop e m [Suc k..<n] b' R') (x ^ nat (take_bit n \<bar>value_of e\<bar>) mod value_of m)"
    using Suc.hyps(2) b' R'(2,3) Suc.prems assms(3) by (intro Suc.hyps(1)) (auto simp: p_def)
  then show ?case by (simp add: k b'(1) R'(1))
qed simp

lemma bi_mod_power_gives:
  assumes "normal b" "normal e" "normal m" "0 \<le> value_of e" "1 < value_of m"
  shows "gives (bi_mod_power b e m) (value_of b ^ nat (value_of e) mod value_of m)"
proof -
  define n where "n = max 1 (bi_bits e)"
  have l: "[Suc 0..<bi_bits e] = [Suc 0..<n]" by (simp add: n_def max_def)
  have t: "take_bit n \<bar>value_of e\<bar> = value_of e"
    using bits_bound [OF assms(2), of n] assms(4) by (simp add: n_def)
  have m: "0 < value_of m" using assms(5) by simp
  have "gives (if bi_bit e 0 then bi_mod b m else Some bi_1) (value_of b ^ nat (take_bit 1 \<bar>value_of e\<bar>) mod value_of m)"
    using bi_mod_gives [OF assms(1,3) m] first_bit [of "value_of e"] assms by (simp add: bi_bit_ok)
  then obtain R where R: "(if bi_bit e 0 then bi_mod b m else Some bi_1) = Some R" "normal R"
    "value_of R = value_of b ^ nat (take_bit 1 \<bar>value_of e\<bar>) mod value_of m" by (rule givesE)
  have "gives (mod_power_loop e m [1..<n] b R) (value_of b ^ nat (take_bit n \<bar>value_of e\<bar>) mod value_of m)"
    by (rule mod_power_loop_gives) (use assms R(2,3) m in \<open>auto simp: n_def\<close>)
  then show ?thesis using assms(4) negative_iff [OF assms(2)] R(1) t by (simp add: bi_mod_power_def l)
qed

section \<open>Factorial\<close>

lemma factorial_loop_gives:
  "normal bi \<Longrightarrow> normal R \<Longrightarrow> gives (factorial_loop bi R) (value_of R * fact (nat (value_of bi)))"
proof (induction "nat (value_of bi)" arbitrary: bi R rule: less_induct)
  case less
  have c: "0 < bi_compare bi bi_1 \<longleftrightarrow> 1 < value_of bi" using less.prems by (auto simp: compare_ok sgn_if)
  show ?case
  proof (cases "1 < value_of bi")
    case True
    obtain P where P: "bi_multiply R bi = Some P" "normal P" "value_of P = value_of R * value_of bi"
      using bi_multiply_gives [OF less.prems(2,1)] by (auto elim: givesE)
    obtain D where D: "bi_int_subtract bi 1 = Some D" "normal D" "value_of D = value_of bi - 1"
      using bi_int_subtract_gives [OF less.prems(1), of 1] by (auto simp: is_int_def elim: givesE)
    have "gives (factorial_loop D P) (value_of P * fact (nat (value_of D)))"
      using True D P by (intro less.hyps) auto
    moreover have "fact (nat (value_of bi)) = value_of bi * fact (nat (value_of D))"
      using True D(3) fact_reduce [of "nat (value_of bi)", where 'a = int] by (simp add: nat_diff_distrib)
    ultimately show ?thesis using True c P D by (subst factorial_loop.simps) (simp add: mult.assoc)
  next
    case False
    then have "nat (value_of bi) = 0 \<or> nat (value_of bi) = 1" by auto
    then show ?thesis using False c less.prems by (subst factorial_loop.simps) auto
  qed
qed

lemma bi_factorial_gives: "normal bi \<Longrightarrow> gives (bi_factorial bi) (fact (nat (value_of bi)))"
  using factorial_loop_gives [of bi bi_1] by (simp add: bi_factorial_def)

section \<open>What is printed, reduced and raised\<close>

text \<open>
  C22. Reading what was printed, in any base from 2 to 36, gives the number back, with its sign.
\<close>

theorem print_parse_roundtrip:
  assumes "normal bi" "2 \<le> base" "base \<le> 36"
  shows "do { s \<leftarrow> bi_print_base bi base; str_to_bi_base s base } = Some bi"
  using assms by (rule print_parse)

theorem print_parse_roundtrip_witness:
  "do { s \<leftarrow> bi_print_base \<lparr>sign = - 1, comps = [5, 0, 7]\<rparr> 16; str_to_bi_base s 16 } =
    Some \<lparr>sign = - 1, comps = [5, 0, 7]\<rparr>"
  by (rule print_parse_roundtrip) (simp_all add: normal_def radix_eq)

text \<open>
  C20. The modulus of two numbers is the one of mathematics, from zero up to the modulus, although
  the quotient it is computed with may be rounded up.
\<close>

theorem mod_correct:
  assumes "normal a" "normal m" "0 < value_of m"
  shows "\<exists>r. bi_mod a m = Some r \<and> normal r \<and> value_of r = value_of a mod value_of m"
  using bi_mod_gives [OF assms] by (simp add: gives_def)

theorem mod_correct_witness:
  "\<exists>r. bi_mod \<lparr>sign = 1, comps = [1431655764, 715827884]\<rparr> \<lparr>sign = 1, comps = [2147483647, 1]\<rparr> = Some r \<and> normal r \<and>
    value_of r = value_of \<lparr>sign = 1, comps = [1431655764, 715827884]\<rparr> mod value_of \<lparr>sign = 1, comps = [2147483647, 1]\<rparr>"
  by (rule mod_correct) (simp_all add: normal_def value_of_def radix_eq)

text \<open>
  Modular exponentiation by repeated squaring computes the power of the base modulo \<open>m\<close>, for every
  exponent that is not negative.
\<close>

theorem mod_power_correct:
  assumes "normal b" "normal e" "normal m" "0 \<le> value_of e" "1 < value_of m"
  shows "\<exists>r. bi_mod_power b e m = Some r \<and> normal r \<and>
    value_of r = value_of b ^ nat (value_of e) mod value_of m"
  using bi_mod_power_gives [OF assms] by (simp add: gives_def)

theorem mod_power_correct_witness:
  "\<exists>r. bi_mod_power \<lparr>sign = - 1, comps = [3, 4]\<rparr> \<lparr>sign = 1, comps = [65537]\<rparr> \<lparr>sign = 1, comps = [1, 2, 3]\<rparr> = Some r \<and>
    normal r \<and> value_of r = value_of \<lparr>sign = - 1, comps = [3, 4]\<rparr> ^ nat (value_of \<lparr>sign = 1, comps = [65537]\<rparr>)
      mod value_of \<lparr>sign = 1, comps = [1, 2, 3]\<rparr>"
  by (rule mod_power_correct) (simp_all add: normal_def value_of_def radix_eq)

end
