(* ===== verification/BigintGcd.thy ===== *)
theory BigintGcd
  imports BigintExt_Proofs
begin

text \<open>
  The gcd algorithms of \<open>bigint_ext.c\<close> and what rests on them. The binary gcd is right unless an operand is
  zero: then it does not return. Euclid's extended algorithm keeps Bezout's equation with any
  quotients, also with the rounded ones of \<open>bi_divide\<close>, but the gcd may come out negative. Binary
  division, which only the tests call, is exact.
\<close>

section \<open>The binary gcd\<close>

lemma even_iff: "normal a \<Longrightarrow> bi_is_even a = even (value_of a)"
  by (simp add: bi_is_even_def odd_iff)

lemma half_even:
  assumes "normal a" "even (value_of a)"
  shows "normal (bi_half a)" "value_of (bi_half a) = value_of a div 2"
proof -
  have "value_of a \<noteq> - 1" using assms(2) by auto
  then show "normal (bi_half a)" using half_ok assms(1) by simp
  have "value_of a sdiv 2 = value_of a div 2"
    using assms(2) by (auto simp: signed_divide_int_def sgn_if elim!: evenE)
  then show "value_of (bi_half a) = value_of a div 2" using half_ok assms(1) by simp
qed

lemma strip_twos_gives:
  "normal a \<Longrightarrow> 0 < value_of a \<Longrightarrow>
    \<exists>v k. gives (strip_twos a) v \<and> odd v \<and> 0 < v \<and> value_of a = 2 ^ k * v"
proof (induction "nat (value_of a)" arbitrary: a rule: less_induct)
  case less
  show ?case
  proof (cases "even (value_of a)")
    case True
    note h = half_even [OF less.prems(1) True]
    have "0 < value_of (bi_half a)" "nat (value_of (bi_half a)) < nat (value_of a)"
      using True less.prems(2) h(2) by (auto elim!: evenE)
    then obtain v k where "gives (strip_twos (bi_half a)) v" "odd v" "0 < v" "value_of (bi_half a) = 2 ^ k * v"
      using less.hyps h(1) by blast
    moreover have "value_of a = 2 * value_of (bi_half a)" using True h(2) by simp
    ultimately show ?thesis using True less.prems(1)
      by (subst strip_twos.simps) (auto simp: even_iff intro!: exI [of _ v] exI [of _ "Suc k"])
  next
    case False
    then show ?thesis using less.prems
      by (subst strip_twos.simps) (auto simp: even_iff intro!: exI [of _ "value_of a"] exI [of _ 0])
  qed
qed

lemma gcd_strip:
  fixes x y :: int
  assumes "odd x" "odd y"
  shows "k = 0 \<or> l = 0 \<Longrightarrow> gcd (2 ^ k * x) (2 ^ l * y) = gcd x y"
  using assms by (auto simp: gcd_mult_left_left_cancel gcd_mult_right_left_cancel)

lemma gcd_half_diff:
  fixes x y :: int
  assumes "odd x" "odd y"
  shows "gcd (\<bar>x - y\<bar> div 2) y = gcd x y" "gcd x (\<bar>x - y\<bar> div 2) = gcd x y"
proof -
  have e: "2 * (\<bar>x - y\<bar> div 2) = \<bar>x - y\<bar>" using assms by simp
  have c: "coprime y 2" "coprime x 2" using assms by simp_all
  have "gcd (\<bar>x - y\<bar> div 2) y = gcd (2 * (\<bar>x - y\<bar> div 2)) y" by (rule gcd_mult_left_left_cancel [OF c(1), symmetric])
  then show "gcd (\<bar>x - y\<bar> div 2) y = gcd x y" unfolding e by (simp add: gcd_diff1)
  have "gcd x (\<bar>x - y\<bar> div 2) = gcd x (2 * (\<bar>x - y\<bar> div 2))" by (rule gcd_mult_right_left_cancel [OF c(2), symmetric])
  also have "\<dots> = gcd (x - y) x" unfolding e by (simp add: gcd.commute)
  also have "\<dots> = gcd y x" by (rule gcd_diff2)
  also have "\<dots> = gcd x y" by (rule gcd.commute)
  finally show "gcd x (\<bar>x - y\<bar> div 2) = gcd x y" .
qed

lemma gcd_loop_gives:
  "normal x \<Longrightarrow> normal y \<Longrightarrow> 0 \<le> value_of x \<Longrightarrow> 0 < value_of y \<Longrightarrow> odd (value_of x) \<or> odd (value_of y) \<Longrightarrow>
    gives (gcd_loop x y) (gcd (value_of x) (value_of y))"
proof (induction "nat (value_of x + value_of y)" arbitrary: x y rule: less_induct)
  case less
  show ?case
  proof (cases "value_of x = 0")
    case True
    then show ?thesis using less.prems by (subst gcd_loop.simps) (simp add: zero_iff)
  next
    case False
    then have pos: "0 < value_of x" using less.prems(3) by simp
    obtain X k where X: "strip_twos x = Some X" "normal X" "odd (value_of X)" "0 < value_of X" "value_of x = 2 ^ k * value_of X"
      using strip_twos_gives [OF less.prems(1) pos] by (auto simp: gives_def)
    obtain Y l where Y: "strip_twos y = Some Y" "normal Y" "odd (value_of Y)" "0 < value_of Y" "value_of y = 2 ^ l * value_of Y"
      using strip_twos_gives [OF less.prems(2,4)] by (auto simp: gives_def)
    have "k = 0 \<or> l = 0" using less.prems(5) X(5) Y(5) by auto
    then have g: "gcd (value_of x) (value_of y) = gcd (value_of X) (value_of Y)"
      using gcd_strip [OF X(3) Y(3)] X(5) Y(5) by simp
    have le: "value_of X \<le> value_of x" "value_of Y \<le> value_of y"
      using X(4,5) Y(4,5) by (simp_all add: mult_le_cancel_right1)
    obtain D where D: "bi_subtract X Y = Some D" "normal D" "value_of D = value_of X - value_of Y"
      using bi_subtract_gives [OF X(2) Y(2)] by (auto elim: givesE)
    define t where "t = bi_half (bi_abs D)"
    have "even (value_of (bi_abs D))" using X(3) Y(3) D by (simp add: abs_ok)
    then have t: "normal t" "value_of t = \<bar>value_of X - value_of Y\<bar> div 2"
      using half_even [OF abs_ok(1) [OF D(2)]] D by (simp_all add: t_def abs_ok)
    have c: "0 \<le> bi_compare X Y \<longleftrightarrow> value_of Y \<le> value_of X" using X(2) Y(2) by (auto simp: compare_ok sgn_if)
    have step: "gcd_loop x y = (if value_of Y \<le> value_of X then gcd_loop t Y else gcd_loop X t)"
      using False less.prems(1) X(1) Y(1) D(1) c by (subst gcd_loop.simps) (simp add: zero_iff t_def Let_def)
    have e: "2 * value_of t = \<bar>value_of X - value_of Y\<bar>" using t(2) X(3) Y(3) by simp
    show ?thesis
    proof (cases "value_of Y \<le> value_of X")
      case True
      have "gives (gcd_loop t Y) (gcd (value_of t) (value_of Y))"
        using t(1) Y(2,3,4) True e X(4) le by (intro less.hyps) linarith+
      then show ?thesis using step True g gcd_half_diff(1) [OF X(3) Y(3)] t(2) by simp
    next
      case False
      have "gives (gcd_loop X t) (gcd (value_of X) (value_of t))"
        using t(1) X(2,3,4) False e Y(4) le by (intro less.hyps) linarith+
      then show ?thesis using step False g gcd_half_diff(2) [OF X(3) Y(3)] t(2) by simp
    qed
  qed
qed

lemma halve_both_gives:
  "normal x \<Longrightarrow> normal y \<Longrightarrow> normal b \<Longrightarrow> 0 < value_of x \<Longrightarrow> 0 < value_of y \<Longrightarrow>
    \<exists>x' y' b' k. halve_both x y b = Some (x', y', b') \<and> normal x' \<and> normal y' \<and> normal b' \<and>
      value_of x = 2 ^ k * value_of x' \<and> value_of y = 2 ^ k * value_of y' \<and> value_of b' = 2 ^ k * value_of b \<and>
      (odd (value_of x') \<or> odd (value_of y'))"
proof (induction "nat (value_of x)" arbitrary: x y b rule: less_induct)
  case less
  show ?case
  proof (cases "even (value_of x) \<and> even (value_of y)")
    case True
    then have e: "even (value_of x)" "even (value_of y)" by auto
    note hx = half_even [OF less.prems(1) e(1)] and hy = half_even [OF less.prems(2) e(2)]
    have v: "value_of x = 2 * value_of (bi_half x)" "value_of y = 2 * value_of (bi_half y)" using e hx hy by simp_all
    then have "nat (value_of (bi_half x)) < nat (value_of x)" "0 < value_of (bi_half x)" "0 < value_of (bi_half y)"
      using less.prems(4,5) by auto
    then obtain x' y' b' k where "halve_both (bi_half x) (bi_half y) (bi_double b) = Some (x', y', b')"
      "normal x'" "normal y'" "normal b'" "value_of (bi_half x) = 2 ^ k * value_of x'"
      "value_of (bi_half y) = 2 ^ k * value_of y'" "value_of b' = 2 ^ k * value_of (bi_double b)"
      "odd (value_of x') \<or> odd (value_of y')"
      using less.hyps [of "bi_half x" "bi_half y" "bi_double b"] hx(1) hy(1) double_ok(1) [OF less.prems(3)] by blast
    then show ?thesis using True v less.prems double_ok(2) [OF less.prems(3)]
      by (subst halve_both.simps) (auto simp: even_iff intro!: exI [of _ "Suc k"])
  next
    case False
    then show ?thesis using less.prems
      by (subst halve_both.simps) (auto simp: even_iff intro!: exI [of _ 0])
  qed
qed

lemma bi_gcd_gives:
  assumes "normal x" "normal y" "value_of x \<noteq> 0" "value_of y \<noteq> 0"
  shows "gives (bi_gcd x y) (gcd (value_of x) (value_of y))"
proof -
  define p where "p = (if bi_compare (bi_abs x) (bi_abs y) < 0 then (bi_abs y, bi_abs x) else (bi_abs x, bi_abs y))"
  obtain a b where ab: "p = (a, b)" by (cases p)
  have n: "normal a" "normal b" "0 < value_of a" "0 < value_of b" "gcd (value_of a) (value_of b) = gcd (value_of x) (value_of y)"
    using ab assms by (auto simp: p_def abs_ok gcd.commute split: if_splits)
  obtain a' b' g k where h: "halve_both a b bi_1 = Some (a', b', g)" "normal a'" "normal b'" "normal g"
    "value_of a = 2 ^ k * value_of a'" "value_of b = 2 ^ k * value_of b'" "value_of g = 2 ^ k * value_of bi_1"
    "odd (value_of a') \<or> odd (value_of b')"
    using halve_both_gives [OF n(1,2) normal_consts(1) n(3,4)] by blast
  have pos: "0 < value_of a'" "0 < value_of b'" using n(3,4) h(5,6) by (simp_all add: zero_less_mult_iff)
  obtain Y where Y: "gcd_loop a' b' = Some Y" "normal Y" "value_of Y = gcd (value_of a') (value_of b')"
    using gcd_loop_gives [OF h(2,3) _ pos(2) h(8)] pos(1) by (auto elim: givesE)
  have "value_of g * value_of Y = gcd (value_of a) (value_of b)"
    using h(5-7) Y(3) by (simp add: gcd_mult_distrib_int [symmetric])
  then show ?thesis
    using bi_multiply_gives [OF h(4) Y(2)] h(1) Y(1) ab n(5) by (simp add: bi_gcd_def Let_def p_def [symmetric])
qed

text \<open>A zero operand makes the program hang.\<close>

lemma zero_halves: "bi_is_even bi_0" "bi_half bi_0 = bi_0"
  by (simp_all add: bi_is_even_def bi_is_odd_def bi_0_def bi_half_def)

lemma strip_twos_zero: "strip_twos bi_0 = None"
proof -
  have "a \<noteq> bi_0" if "strip_twos a = Some v" for a v
    by (rule strip_twos.raw_induct [OF _ that]) (use zero_halves in \<open>auto split: if_splits\<close>)
  then show ?thesis by (cases "strip_twos bi_0") auto
qed


lemma bi_gcd_zero_hangs:
  assumes "normal x" "value_of x \<noteq> 0"
  shows "bi_gcd x bi_0 = None"
proof -
  have hang: "gcd_loop x bi_0 = None" if "normal x" "0 < value_of x" for x
    using that strip_twos_gives [OF that] strip_twos_zero
    by (subst gcd_loop.simps) (auto simp: zero_iff gives_def)
  have "\<exists>x' b'. halve_both x bi_0 b = Some (x', bi_0, b') \<and> normal x' \<and> 0 < value_of x'"
    if "normal x" "0 < value_of x" for x b
    using that
  proof (induction "nat (value_of x)" arbitrary: x b rule: less_induct)
    case less
    show ?case
    proof (cases "even (value_of x)")
      case True
      note h = half_even [OF less.prems(1) True]
      have "nat (value_of (bi_half x)) < nat (value_of x)" "0 < value_of (bi_half x)"
        using h(2) True less.prems(2) by (auto elim!: evenE)
      then have "\<exists>x' b'. halve_both (bi_half x) bi_0 (bi_double b) = Some (x', bi_0, b') \<and> normal x' \<and> 0 < value_of x'"
        by (rule less.hyps [OF _ h(1)])
      then show ?thesis using True less.prems zero_halves by (subst halve_both.simps) (simp add: even_iff)
    next
      case False
      then show ?thesis using less.prems by (subst halve_both.simps) (simp add: even_iff)
    qed
  qed
  then obtain x' b' where h: "halve_both (bi_abs x) bi_0 bi_1 = Some (x', bi_0, b')" "normal x'" "0 < value_of x'"
    using abs_ok [OF assms(1)] assms(2) by (metis zero_less_abs_iff)
  have "bi_abs bi_0 = bi_0" by (simp add: bi_abs_def bi_0_def)
  moreover have "\<not> bi_compare (bi_abs x) bi_0 < 0"
    using assms(1) by (simp add: compare_ok abs_ok)
  ultimately show ?thesis using h(1) hang [OF h(2,3)] by (simp add: bi_gcd_def Let_def)
qed

section \<open>Least common multiple\<close>

text \<open>The division is exact there, so that rounding up does not show.\<close>

lemma exact_quotient:
  fixes p g q :: int
  assumes "g dvd p" "\<bar>p - q * g\<bar> < \<bar>g\<bar>"
  shows "q * g = p"
proof -
  have "g dvd p - q * g" using assms(1) by simp
  then show ?thesis using assms(2) by (metis abs_dvd_iff dvd_imp_le_int not_less right_minus_eq)
qed

lemma bi_lcm_gives:
  assumes "normal x" "normal y" "value_of x \<noteq> 0" "value_of y \<noteq> 0"
  shows "gives (bi_lcm x y) (sgn (value_of x * value_of y) * lcm (value_of x) (value_of y))"
proof -
  define g where "g = gcd (value_of x) (value_of y)"
  obtain P where P: "bi_multiply x y = Some P" "normal P" "value_of P = value_of x * value_of y"
    using bi_multiply_gives [OF assms(1,2)] by (auto elim: givesE)
  obtain G where G: "bi_gcd x y = Some G" "normal G" "value_of G = g"
    using bi_gcd_gives [OF assms] by (auto simp: g_def elim: givesE)
  have g: "0 < g" "g dvd value_of x * value_of y" using assms(3) by (simp_all add: g_def)
  obtain q where q: "gives (bi_divide P G) q" "\<bar>value_of P - q * g\<bar> < \<bar>g\<bar>"
    using bi_divide_gives [OF P(2) G(2)] G(3) g(1) by auto
  have "q * g = value_of x * value_of y" using exact_quotient [OF _ q(2)] g(2) P(3) by simp
  moreover have "value_of x * value_of y = sgn (value_of x * value_of y) * lcm (value_of x) (value_of y) * g"
    using prod_gcd_lcm_int [of "value_of x" "value_of y"]
    by (metis abs_mult g_def mult.assoc mult.commute sgn_mult_abs)
  ultimately have "q * g = sgn (value_of x * value_of y) * lcm (value_of x) (value_of y) * g" by simp
  then have "q = sgn (value_of x * value_of y) * lcm (value_of x) (value_of y)" using g(1) by simp
  then show ?thesis using q(1) P(1) G(1) by (simp add: bi_lcm_def)
qed


section \<open>Euclid's extended algorithm\<close>

lemma egcd_loop_bezout:
  assumes "normal a0" "normal b0" "normal c0" "normal a1" "normal b1" "normal c1"
    "value_of c0 = value_of a0 * x + value_of b0 * y" "value_of c1 = value_of a1 * x + value_of b1 * y"
    "gcd (value_of c0) (value_of c1) = gcd x y"
  shows "\<exists>g a b. egcd_loop a0 b0 c0 a1 b1 c1 = Some (g, a, b) \<and> normal g \<and> normal a \<and> normal b \<and>
    \<bar>value_of g\<bar> = gcd x y \<and> value_of g = value_of a * x + value_of b * y \<and>
    (0 \<le> value_of c0 \<and> 0 \<le> value_of c1 \<and> value_of c1 < bi_radix \<longrightarrow> 0 \<le> value_of g)"
  using assms
proof (induction "nat \<bar>value_of c1\<bar>" arbitrary: a0 b0 c0 a1 b1 c1 rule: less_induct)
  case less
  show ?case
  proof (cases "value_of c1 = 0")
    case True
    then show ?thesis using less.prems by (subst egcd_loop.simps) (auto simp: zero_iff)
  next
    case False
    obtain Q q where Q: "bi_divide c0 c1 = Some Q" "normal Q" "value_of Q = q"
      "\<bar>value_of c0 - q * value_of c1\<bar> < \<bar>value_of c1\<bar>"
      "num_comps c1 = 1 \<longrightarrow> q = value_of c0 sdiv value_of c1"
      using bi_divide_gives [OF less.prems(3,6) False] by (auto simp: gives_def)
    have step: "\<exists>P D. bi_multiply Q v = Some P \<and> bi_subtract u P = Some D \<and> normal D \<and>
      value_of D = value_of u - q * value_of v" if uv: "normal u" "normal v" for u v
    proof -
      obtain P where P: "bi_multiply Q v = Some P" "normal P" "value_of P = q * value_of v"
        using bi_multiply_gives [OF Q(2) uv(2)] Q(3) by (auto elim: givesE)
      then show ?thesis using bi_subtract_gives [OF uv(1) P(2)] by (auto simp: gives_def)
    qed
    obtain P a where a: "bi_multiply Q a1 = Some P" "bi_subtract a0 P = Some a" "normal a"
      "value_of a = value_of a0 - q * value_of a1" using step less.prems by blast
    obtain P' b where b: "bi_multiply Q b1 = Some P'" "bi_subtract b0 P' = Some b" "normal b"
      "value_of b = value_of b0 - q * value_of b1" using step less.prems by blast
    obtain P'' c where c: "bi_multiply Q c1 = Some P''" "bi_subtract c0 P'' = Some c" "normal c"
      "value_of c = value_of c0 - q * value_of c1" using step less.prems by blast
    have "gcd (value_of c1) (value_of c) = gcd x y"
    proof -
      have "gcd (value_of c1) (value_of c0 - q * value_of c1) = gcd (value_of c1) (value_of c0)"
        using gcd_add_mult [of "value_of c1" "- q" "value_of c0"] by (simp add: add.commute)
      then show ?thesis using less.prems(9) by (simp add: c(4) gcd.commute)
    qed
    moreover have "value_of c = value_of a * x + value_of b * y"
      unfolding a(4) b(4) c(4) less.prems(7,8) by (simp add: algebra_simps)
    moreover have "nat \<bar>value_of c\<bar> < nat \<bar>value_of c1\<bar>" using Q(4) c(4) by simp
    moreover have "0 \<le> value_of c \<and> value_of c < bi_radix"
      if z: "0 \<le> value_of c0" "0 \<le> value_of c1" "value_of c1 < bi_radix"
    proof -
      have "num_comps c1 = 1"
        using num_comps_le [OF less.prems(6), of 1] z normal_comps(1) [OF less.prems(6)]
        by (cases "comps c1") (auto simp: num_comps_def)
      then have "q = value_of c0 div value_of c1" using Q(5) z by (auto simp: signed_divide_int_def sgn_if)
      then have "value_of c = value_of c0 mod value_of c1" by (simp add: c(4) minus_div_mult_eq_mod)
      moreover have pos: "0 < value_of c1" using z False by simp
      ultimately show ?thesis
        using less_trans [OF pos_mod_bound [OF pos, of "value_of c0"] z(3)] pos_mod_sign [OF pos, of "value_of c0"]
        by simp
    qed
    ultimately have "\<exists>g a' b'. egcd_loop a1 b1 c1 a b c = Some (g, a', b') \<and> normal g \<and> normal a' \<and> normal b' \<and>
      \<bar>value_of g\<bar> = gcd x y \<and> value_of g = value_of a' * x + value_of b' * y \<and>
      (0 \<le> value_of c0 \<and> 0 \<le> value_of c1 \<and> value_of c1 < bi_radix \<longrightarrow> 0 \<le> value_of g)"
      using less.hyps [of c a1 b1 c1 a b] less.prems a(3) b(3) c(3) by blast
    then show ?thesis using False less.prems(6) Q(1) a(1,2) b(1,2) c(1,2)
      by (subst egcd_loop.simps) (simp add: zero_iff)
  qed
qed


lemma bi_egcd_bezout:
  assumes "normal x" "normal y" "0 \<le> value_of x" "0 \<le> value_of y"
  shows "\<exists>g a b. bi_egcd x y = Some (g, a, b) \<and> normal g \<and> normal a \<and> normal b \<and>
    \<bar>value_of g\<bar> = gcd (value_of x) (value_of y) \<and> value_of g = value_of a * value_of x + value_of b * value_of y \<and>
    (min (value_of x) (value_of y) < bi_radix \<longrightarrow> 0 \<le> value_of g)"
proof -
  have le: "\<exists>g a b. bi_egcd x y = Some (g, a, b) \<and> normal g \<and> normal a \<and> normal b \<and>
    \<bar>value_of g\<bar> = gcd (value_of x) (value_of y) \<and> value_of g = value_of a * value_of x + value_of b * value_of y \<and>
    (min (value_of x) (value_of y) < bi_radix \<longrightarrow> 0 \<le> value_of g)"
    if "normal x" "normal y" "0 \<le> value_of y" "value_of y \<le> value_of x" for x y
    using egcd_loop_bezout [of bi_1 bi_0 x bi_0 bi_1 y "value_of x" "value_of y"] that
    by (subst bi_egcd.simps) (auto simp: negative_iff compare_ok sgn_if)
  show ?thesis
  proof (cases "value_of y \<le> value_of x")
    case True
    then show ?thesis using le assms by blast
  next
    case False
    then obtain g a b where "bi_egcd y x = Some (g, a, b)" "normal g" "normal a" "normal b"
      "\<bar>value_of g\<bar> = gcd (value_of y) (value_of x)" "value_of g = value_of a * value_of y + value_of b * value_of x"
      "min (value_of y) (value_of x) < bi_radix \<longrightarrow> 0 \<le> value_of g"
      using le [of y x] assms by auto
    then show ?thesis using False assms
      by (subst bi_egcd.simps) (auto simp: negative_iff compare_ok sgn_if gcd.commute)
  qed
qed

text \<open>
  What \<open>bi_mod_inverse\<close> returns is an inverse. It returns nothing for numbers that have none, and may do
  so for others when both operands have more than one component.
\<close>

lemma bi_mod_inverse_cases:
  assumes "normal a" "normal m" "0 \<le> value_of a" "1 < value_of m"
  shows "(case bi_mod_inverse a m of
      Some r \<Rightarrow> normal r \<and> 0 \<le> value_of r \<and> value_of r < value_of m \<and> value_of a * value_of r mod value_of m = 1
    | None \<Rightarrow> gcd (value_of a) (value_of m) \<noteq> 1 \<or> bi_radix \<le> min (value_of a) (value_of m))"
proof -
  obtain g u v where e: "bi_egcd m a = Some (g, u, v)" "normal g" "normal u" "normal v"
    "\<bar>value_of g\<bar> = gcd (value_of m) (value_of a)" "value_of g = value_of u * value_of m + value_of v * value_of a"
    "min (value_of m) (value_of a) < bi_radix \<longrightarrow> 0 \<le> value_of g"
    using bi_egcd_bezout [OF assms(2,1)] assms by auto
  show ?thesis
  proof (cases "value_of g = 1")
    case True
    obtain r where r: "bi_mod v m = Some r" "normal r" "value_of r = value_of v mod value_of m"
      using bi_mod_gives [OF e(4) assms(2)] assms(4) by (auto elim: givesE)
    have "value_of a * value_of r mod value_of m = value_of a * value_of v mod value_of m"
      by (simp add: r(3) mod_mult_right_eq)
    also have "value_of a * value_of v = 1 + (- value_of u) * value_of m" using e(6) True by (simp add: algebra_simps)
    also have "\<dots> mod value_of m = 1" using assms(4) by (simp only: mod_mult_self1) simp
    finally show ?thesis using True e(1,2) r assms(4) by (simp add: bi_mod_inverse_def one_iff)
  next
    case False
    then have "bi_mod_inverse a m = None" using e(1,2) by (simp add: bi_mod_inverse_def one_iff)
    moreover have "gcd (value_of a) (value_of m) \<noteq> 1" if "min (value_of a) (value_of m) < bi_radix"
      using that e(5,7) False by (auto simp: gcd.commute min.commute)
    ultimately show ?thesis by (cases "min (value_of a) (value_of m) < bi_radix") (auto simp: min_def split: if_splits)
  qed
qed

lemma mod_inverse_fails:
  "coprime (value_of \<lparr>sign = 1, comps = [364519644, 1]\<rparr>) (value_of \<lparr>sign = 1, comps = [865325843, 92497]\<rparr>)"
  "bi_mod_inverse \<lparr>sign = 1, comps = [364519644, 1]\<rparr> \<lparr>sign = 1, comps = [865325843, 92497]\<rparr> = None"
proof -
  show "coprime (value_of \<lparr>sign = 1, comps = [364519644, 1]\<rparr>) (value_of \<lparr>sign = 1, comps = [865325843, 92497]\<rparr>)"
    by (simp add: value_of_def radix_eq coprime_iff_gcd_eq_1 gcd_non_0_int)
  show "bi_mod_inverse \<lparr>sign = 1, comps = [364519644, 1]\<rparr> \<lparr>sign = 1, comps = [865325843, 92497]\<rparr> = None"
    by code_simp
qed

section \<open>Square roots\<close>

lemma ecsqrt_one: "ecsqrt 1 = None"
  by (simp add: ecsqrt_def ecsqrt_loop.simps signed_divide_int_def)

text \<open>A number with top component 1 makes \<open>ecsqrt\<close> divide by zero.\<close>

lemma bi_sqrt_crashes:
  assumes "normal a" "0 \<le> value_of a" "1 < num_comps a" "last (comps a) = 1"
  shows "bi_sqrt a = None"
proof -
  have "comps a ! (num_comps a - 1) = 1" using assms(4) normal_comps(1) [OF assms(1)]
    by (simp add: num_comps_def last_conv_nth)
  moreover have "bi_compare a bi_0 \<noteq> 0 \<and> \<not> bi_is_one a" using assms(1,3) one_iff [OF assms(1)]
    by (auto simp: bi_is_one_def compare_ok sgn_if num_comps_def dest!: gives_zero_num) (simp add: bi_0_def)
  ultimately show ?thesis by (auto simp: bi_sqrt_def ecsqrt_one bind_eq_None_conv split: option.splits)
qed


section \<open>Binary division\<close>

text \<open>The number of bits fits into an int.\<close>

definition bits_fit :: "int \<Rightarrow> bool" where
  "bits_fit n = (\<exists>k :: nat. k < 2147483648 \<and> n < 2 ^ k)"

lemma half_nonneg:
  "normal a \<Longrightarrow> 0 \<le> value_of a \<Longrightarrow> normal (bi_half a) \<and> value_of (bi_half a) = value_of a div 2"
  using half_ok [of a] by (simp add: signed_divide_int_def sgn_if)

lemma binary_loop_gives:
  assumes "0 < d"
  shows "normal q \<Longrightarrow> normal a \<Longrightarrow> normal b \<Longrightarrow> 0 \<le> value_of a \<Longrightarrow> value_of a < d * 2 ^ n \<Longrightarrow>
    value_of b = (if n = 0 then value_of b else d * 2 ^ (n - 1)) \<Longrightarrow> 0 \<le> value_of b \<Longrightarrow>
    gives (binary_loop n q a b) (value_of q * 2 ^ n + value_of a div d)"
proof (induction n arbitrary: q a b)
  case (Suc n)
  define q2 where "q2 = bi_double q"
  have q2: "normal q2" "value_of q2 = 2 * value_of q" using double_ok [OF Suc.prems(1)] by (simp_all add: q2_def)
  have b: "value_of b = d * 2 ^ n" using Suc.prems(6) by simp
  have h: "normal (bi_half b)" "value_of (bi_half b) = value_of b div 2"
    using half_nonneg [OF Suc.prems(3,7)] by auto
  have hb: "value_of (bi_half b) = (if n = 0 then value_of (bi_half b) else d * 2 ^ (n - 1))" "0 \<le> value_of (bi_half b)"
    using h(2) b Suc.prems(7) by (cases n; simp)+
  have c: "0 \<le> bi_compare a b \<longleftrightarrow> d * 2 ^ n \<le> value_of a"
    using compare_ok [OF Suc.prems(2,3)] b by (auto simp: sgn_if)
  show ?case
  proof (cases "d * 2 ^ n \<le> value_of a")
    case True
    obtain q3 where q3: "bi_int_add q2 1 = Some q3" "normal q3" "value_of q3 = 2 * value_of q + 1"
      using bi_int_add_gives [OF q2(1), of 1] q2(2) by (auto simp: is_int_def elim: givesE)
    obtain a' where a': "bi_subtract a b = Some a'" "normal a'" "value_of a' = value_of a - d * 2 ^ n"
      using bi_subtract_gives [OF Suc.prems(2,3)] b by (auto elim: givesE)
    have "gives (binary_loop n q3 a' (bi_half b)) (value_of q3 * 2 ^ n + value_of a' div d)"
      using q3 a' h(1) hb True Suc.prems(5) by (intro Suc.IH) auto
    moreover have "value_of a div d = 2 ^ n + value_of a' div d"
      using div_mult_self2 [of d "value_of a'" "2 ^ n"] a'(3) assms by simp
    then have "value_of q3 * 2 ^ n + value_of a' div d = value_of q * 2 ^ Suc n + value_of a div d"
      by (simp add: q3(3) algebra_simps)
    ultimately show ?thesis using True c q3(1) a'(1) by (simp add: q2_def Let_def)
  next
    case False
    have "gives (binary_loop n q2 a (bi_half b)) (value_of q2 * 2 ^ n + value_of a div d)"
      using q2 h(1) hb False Suc.prems by (intro Suc.IH) auto
    then show ?thesis using False c q2(2) by (simp add: q2_def Let_def mult.commute mult.left_commute)
  qed
next
  case 0
  then show ?case by simp
qed

lemma binary_long_gives:
  assumes "normal a" "normal b" "bits_fit (value_of a)" "0 < value_of b" "value_of b < value_of a"
  shows "gives (binary_long a b) (value_of a div value_of b)"
proof -
  define nb db where "nb = bi_bits a" and "db = bi_bits b"
  have A: "value_of a < 2 ^ nb" "2 ^ (nb - 1) \<le> value_of a" "0 < nb"
    using bi_bits_ok [OF assms(1)] assms(4,5) by (auto simp: nb_def)
  have B: "value_of b < 2 ^ db" "2 ^ (db - 1) \<le> value_of b" "0 < db"
    using bi_bits_ok [OF assms(2)] assms(4) by (auto simp: db_def)
  have le: "db \<le> nb"
  proof (rule ccontr)
    assume "\<not> db \<le> nb"
    then have "(2 :: int) ^ nb \<le> 2 ^ (db - 1)" by (intro power_increasing) auto
    then show False using A B assms(5) by linarith
  qed
  obtain k :: nat where k: "k < 2147483648" "value_of a < 2 ^ k" using assms(3) by (auto simp: bits_fit_def)
  have "nb - 1 < k"
    using le_less_trans [OF A(2) k(2)] power_less_imp_less_exp [of "2 :: int" "nb - 1" k] by simp
  then have "is_int (int nb - int db)" using k(1) le B(3) by (auto simp: is_int_def)
  then obtain e where e: "int_to_bi (int nb - int db) = Some e" "normal e" "value_of e = int nb - int db"
    using int_to_bi_gives by (auto elim: givesE)
  obtain p where p: "bi_power bi_2 e = Some p" "normal p" "value_of p = 2 ^ (nb - db)"
    using bi_power_gives [of bi_2 e] e le by (auto simp: nat_diff_distrib elim: givesE)
  obtain b' where b': "bi_multiply b p = Some b'" "normal b'" "value_of b' = value_of b * 2 ^ (nb - db)"
    using bi_multiply_gives [OF assms(2) p(2)] p(3) by (auto elim: givesE)
  have "2 ^ nb = 2 ^ (db - 1) * (2 ^ (nb - db) * (2 :: int))"
    using power_add [of "2 :: int" "db - 1" "nb - db + 1"] le B(3) by simp
  also have "\<dots> \<le> value_of b * (2 ^ (nb - db) * 2)" using B(2) by (intro mult_right_mono) auto
  finally have "value_of a < value_of b * 2 ^ (nb + 1 - db)" using A(1) le by (simp add: Suc_diff_le)
  then have "gives (binary_loop (nb + 1 - db) bi_0 a b') (value_of bi_0 * 2 ^ (nb + 1 - db) + value_of a div value_of b)"
    using assms b'(2,3) le by (intro binary_loop_gives) (auto simp: Suc_diff_le)
  then show ?thesis using e(1) p(1) b'(1) by (simp add: binary_long_def nb_def [symmetric] db_def [symmetric] Let_def)
qed

interpretation binary: long_division binary_long bits_fit "\<lambda>n d q. q = n div d"
proof unfold_locales
  show "\<exists>q. gives (binary_long a b) q \<and> q = value_of a div value_of b"
    if "normal a" "normal b" "bits_fit (value_of a)" "0 < value_of b" "value_of b < value_of a" "1 < num_comps b" for a b
    using binary_long_gives that by blast
qed (auto simp: pos_imp_zdiv_pos_iff)

lemma bi_binary_divide_gives:
  assumes "normal a" "normal b" "value_of b \<noteq> 0" "bits_fit \<bar>value_of a\<bar>"
  shows "gives (bi_binary_divide a b) (value_of a sdiv value_of b)"
  using binary.divide [OF assms] by (auto simp: bi_binary_divide_def signed_divide_int_def)


section \<open>Number theory that holds, and what does not\<close>



text \<open>
  The gcd of a number and zero is never returned: the loop that strips factors of two from an
  operand runs on zero for ever.
\<close>

theorem gcd_with_zero_hangs:
  assumes "normal x" "value_of x \<noteq> 0"
  shows "bi_gcd x bi_0 = None"
  using assms by (rule bi_gcd_zero_hangs)

theorem gcd_with_zero_hangs_witness: "bi_gcd \<lparr>sign = 1, comps = [6]\<rparr> bi_0 = None"
  by (rule gcd_with_zero_hangs) (simp_all add: normal_def value_of_def radix_eq)

text \<open>
  C24. A modular inverse that is returned is one, in the range of the modulus. None is returned, which
  here is the signal, only if the numbers have a common divisor or both have more than one component.
\<close>

theorem mod_inverse_correct:
  assumes "normal a" "normal m" "0 \<le> value_of a" "1 < value_of m"
  shows "(case bi_mod_inverse a m of
      Some r \<Rightarrow> normal r \<and> 0 \<le> value_of r \<and> value_of r < value_of m \<and> value_of a * value_of r mod value_of m = 1
    | None \<Rightarrow> gcd (value_of a) (value_of m) \<noteq> 1 \<or> bi_radix \<le> min (value_of a) (value_of m))"
  using assms by (rule bi_mod_inverse_cases)

theorem mod_inverse_correct_witness:
  "(case bi_mod_inverse \<lparr>sign = 1, comps = [17]\<rparr> \<lparr>sign = 1, comps = [3, 5]\<rparr> of
      Some r \<Rightarrow> normal r \<and> 0 \<le> value_of r \<and> value_of r < value_of \<lparr>sign = 1, comps = [3, 5]\<rparr> \<and>
        value_of \<lparr>sign = 1, comps = [17]\<rparr> * value_of r mod value_of \<lparr>sign = 1, comps = [3, 5]\<rparr> = 1
    | None \<Rightarrow> gcd (value_of \<lparr>sign = 1, comps = [17]\<rparr>) (value_of \<lparr>sign = 1, comps = [3, 5]\<rparr>) \<noteq> 1 \<or>
        bi_radix \<le> min (value_of \<lparr>sign = 1, comps = [17]\<rparr>) (value_of \<lparr>sign = 1, comps = [3, 5]\<rparr>))"
  by (rule mod_inverse_correct) (simp_all add: normal_def value_of_def radix_eq)

text \<open>
  Binary division, which is kept for testing, returns the quotient truncated towards zero, for
  numerators whose number of bits fits into an int.
\<close>

theorem binary_divide_exact:
  assumes "normal a" "normal b" "value_of b \<noteq> 0" "bits_fit \<bar>value_of a\<bar>"
  shows "\<exists>q. bi_binary_divide a b = Some q \<and> normal q \<and> value_of q = value_of a sdiv value_of b"
  using bi_binary_divide_gives [OF assms] by (simp add: gives_def)

theorem binary_divide_exact_witness:
  "\<exists>q. bi_binary_divide \<lparr>sign = 1, comps = [1431655764, 715827884]\<rparr> \<lparr>sign = 1, comps = [2147483647, 1]\<rparr> = Some q \<and> normal q \<and>
    value_of q = value_of \<lparr>sign = 1, comps = [1431655764, 715827884]\<rparr> sdiv value_of \<lparr>sign = 1, comps = [2147483647, 1]\<rparr>"
proof (rule binary_divide_exact)
  show "bits_fit \<bar>value_of \<lparr>sign = 1, comps = [1431655764, 715827884]\<rparr>\<bar>"
    unfolding bits_fit_def by (rule exI [of _ 62]) (simp add: value_of_def radix_eq)
qed (simp_all add: normal_def value_of_def radix_eq)

end
