(* ===== verification/BigintPrime.thy ===== *)
theory BigintPrime
  imports BigintGcd
begin

text \<open>
  Random numbers and the primality tests of \<open>math/bigint\<close>. \<open>rnd k\<close> is the result of the \<open>k\<close>-th call of
  \<open>random\<close>; functions that call it take the number of calls so far and return it updated. The table of
  \<open>low_primes.h\<close> is the argument \<open>low_primes\<close>. The theorem of this theory is that no test rejects a prime,
  whatever \<open>random\<close> returns: it needs Fermat's little theorem and the square roots of one modulo a prime.
\<close>

section \<open>Definitions\<close>

text \<open>\<open>biR->num_comps\<close> is at least one, as \<open>clone( bi_0 )\<close> has one component.\<close>

definition bi_random :: "(nat \<Rightarrow> int) \<Rightarrow> nat \<Rightarrow> bigint \<Rightarrow> (bigint \<times> nat) option" where
  "bi_random rnd k bi =
     (let n = length (more_comps (comps bi_0) (num_comps bi * 5 div 4)) in
      do {
        biR \<leftarrow> normalize \<lparr>sign = 1, comps = map (\<lambda>c. rnd (k + c)) [0..<n]\<rparr>;
        biR \<leftarrow> bi_mod biR bi;
        Some (biR, k + n)
      })"

text \<open>Division by the small primes: \<open>Some None\<close> when it does not decide.\<close>

fun trial_division :: "int list \<Rightarrow> bigint \<Rightarrow> bool option option" where
  "trial_division [] bi = Some None"
| "trial_division (p # ps) bi =
     do {
       b \<leftarrow> int_to_bi p;
       let r = bi_compare b bi;
       if r = 0 then Some (Some True)
       else if r = 1 then Some (Some False)
       else do { d \<leftarrow> bi_int_mod bi p; if d = 0 then Some (Some False) else trial_division ps bi }
     }"

text \<open>\<open>s\<close> and \<open>r\<close> with \<open>bim1 = s * 2 ^ r\<close>.\<close>

partial_function (option) remove_twos :: "bigint \<Rightarrow> nat \<Rightarrow> (bigint \<times> nat) option" where
  "remove_twos s r = (if bi_is_even s then remove_twos (bi_half s) (r + 1) else Some (s, r))"

text \<open>\<open>for ( j = 1; j < r; ++j )\<close>\<close>

fun miller_rabin_loop :: "nat \<Rightarrow> bigint \<Rightarrow> bigint \<Rightarrow> bigint \<Rightarrow> bool option" where
  "miller_rabin_loop 0 p bi bim1 = Some False"
| "miller_rabin_loop (Suc j) p bi bim1 =
     do {
       p \<leftarrow> bi_mod_square p bi;
       if bi_compare p bim1 = 0 then Some True else miller_rabin_loop j p bi bim1
     }"

definition miller_rabin_test ::
    "bigint \<Rightarrow> bigint \<Rightarrow> bigint \<Rightarrow> nat \<Rightarrow> (nat \<Rightarrow> int) \<Rightarrow> nat \<Rightarrow> (bool \<times> nat) option" where
  "miller_rabin_test bi bim1 s r rnd k =
     do {
       (a, k) \<leftarrow> bi_random rnd k bim1;
       a \<leftarrow> bi_int_add a 1;
       p \<leftarrow> bi_mod_power a s bi;
       if bi_is_one p \<or> bi_compare p bim1 = 0 then Some (True, k)
       else do { b \<leftarrow> miller_rabin_loop (r - 1) p bi bim1; Some (b, k) }
     }"

definition fermat_test :: "bigint \<Rightarrow> bigint \<Rightarrow> (nat \<Rightarrow> int) \<Rightarrow> nat \<Rightarrow> (bool \<times> nat) option" where
  "fermat_test bi bim1 rnd k =
     do {
       (a, k) \<leftarrow> bi_random rnd k bim1;
       a \<leftarrow> bi_int_add a 1;
       p \<leftarrow> bi_mod_power a bim1 bi;
       Some (bi_is_one p, k)
     }"

definition fermat2_test :: "bigint \<Rightarrow> bigint \<Rightarrow> (nat \<Rightarrow> int) \<Rightarrow> nat \<Rightarrow> (bool \<times> nat) option" where
  "fermat2_test bi bim1 rnd k = do { p \<leftarrow> bi_mod_power bi_2 bim1 bi; Some (bi_is_one p, k) }"

definition bi_3 :: bigint where "bi_3 = \<lparr>sign = 1, comps = [3]\<rparr>"

definition fermat3_test :: "bigint \<Rightarrow> bigint \<Rightarrow> (nat \<Rightarrow> int) \<Rightarrow> nat \<Rightarrow> (bool \<times> nat) option" where
  "fermat3_test bi bim1 rnd k = do { p \<leftarrow> bi_mod_power bi_3 bim1 bi; Some (bi_is_one p, k) }"

definition null_test :: "bigint \<Rightarrow> bigint \<Rightarrow> (nat \<Rightarrow> int) \<Rightarrow> nat \<Rightarrow> (bool \<times> nat) option" where
  "null_test bi bim1 rnd k = do { (a, k) \<leftarrow> bi_random rnd k bim1; a \<leftarrow> bi_int_add a 1; Some (True, k) }"

definition solovay_strassen_test ::
    "bigint \<Rightarrow> bigint \<Rightarrow> bigint \<Rightarrow> (nat \<Rightarrow> int) \<Rightarrow> nat \<Rightarrow> (bool \<times> nat) option" where
  "solovay_strassen_test bi bim1 bim1o2 rnd k =
     do {
       (a, k) \<leftarrow> bi_random rnd k bim1;
       a \<leftarrow> bi_int_add a 1;
       j \<leftarrow> bi_mod_power a bim1o2 bi;
       let j = (if bi_compare j bim1 = 0 then bi_m1 else j);
       jac \<leftarrow> bi_jacobi a bi;
       Some (bi_compare j jac = 0, k)
     }"

text \<open>The loops over \<open>certainty\<close>.\<close>

fun rounds :: "nat \<Rightarrow> (nat \<Rightarrow> (bool \<times> nat) option) \<Rightarrow> nat \<Rightarrow> (bool \<times> nat) option" where
  "rounds 0 test k = Some (True, k)"
| "rounds (Suc n) test k =
     do { (b, k) \<leftarrow> test k; if b then rounds n test k else Some (False, k) }"

definition bi_is_probable_prime_mr ::
    "bigint \<Rightarrow> int \<Rightarrow> (nat \<Rightarrow> int) \<Rightarrow> nat \<Rightarrow> (bool \<times> nat) option" where
  "bi_is_probable_prime_mr bi certainty rnd k =
     do {
       bim1 \<leftarrow> bi_int_subtract bi 1;
       (s, r) \<leftarrow> remove_twos bim1 0;
       rounds (nat certainty) (miller_rabin_test bi bim1 s r rnd) k
     }"

definition bi_is_probable_prime_td :: "int list \<Rightarrow> bigint \<Rightarrow> bool option" where
  "bi_is_probable_prime_td low_primes bi =
     do { v \<leftarrow> trial_division low_primes bi; Some (case v of Some b \<Rightarrow> b | None \<Rightarrow> True) }"

text \<open>The full test has trial division and then the body of \<open>bi_is_probable_prime_mr\<close>.\<close>

definition bi_is_probable_prime ::
    "int list \<Rightarrow> bigint \<Rightarrow> int \<Rightarrow> (nat \<Rightarrow> int) \<Rightarrow> nat \<Rightarrow> (bool \<times> nat) option" where
  "bi_is_probable_prime low_primes bi certainty rnd k =
     do {
       v \<leftarrow> trial_division low_primes bi;
       (case v of
          Some b \<Rightarrow> Some (b, k)
        | None \<Rightarrow>
            do {
              bim1 \<leftarrow> bi_int_subtract bi 1;
              (s, r) \<leftarrow> remove_twos bim1 0;
              rounds (nat certainty) (miller_rabin_test bi bim1 s r rnd) k
            })
     }"

definition bi_is_probable_prime_ss ::
    "bigint \<Rightarrow> int \<Rightarrow> (nat \<Rightarrow> int) \<Rightarrow> nat \<Rightarrow> (bool \<times> nat) option" where
  "bi_is_probable_prime_ss bi certainty rnd k =
     do {
       bim1 \<leftarrow> bi_int_subtract bi 1;
       rounds (nat certainty) (solovay_strassen_test bi bim1 (bi_half bim1) rnd) k
     }"

text \<open>\<open>bi_is_probable_prime_f\<close>, \<open>_f2\<close>, \<open>_f3\<close> and \<open>_n\<close> are one text for four tests.\<close>

definition probable_prime_by ::
    "(bigint \<Rightarrow> bigint \<Rightarrow> (nat \<Rightarrow> int) \<Rightarrow> nat \<Rightarrow> (bool \<times> nat) option) \<Rightarrow>
     bigint \<Rightarrow> int \<Rightarrow> (nat \<Rightarrow> int) \<Rightarrow> nat \<Rightarrow> (bool \<times> nat) option" where
  "probable_prime_by test bi certainty rnd k =
     do {
       bim1 \<leftarrow> bi_int_subtract bi 1;
       rounds (nat certainty) (test bi bim1 rnd) k
     }"

definition bi_is_probable_prime_f :: "bigint \<Rightarrow> int \<Rightarrow> (nat \<Rightarrow> int) \<Rightarrow> nat \<Rightarrow> (bool \<times> nat) option" where
  "bi_is_probable_prime_f = probable_prime_by fermat_test"

definition bi_is_probable_prime_f2 :: "bigint \<Rightarrow> int \<Rightarrow> (nat \<Rightarrow> int) \<Rightarrow> nat \<Rightarrow> (bool \<times> nat) option" where
  "bi_is_probable_prime_f2 = probable_prime_by fermat2_test"

definition bi_is_probable_prime_f3 :: "bigint \<Rightarrow> int \<Rightarrow> (nat \<Rightarrow> int) \<Rightarrow> nat \<Rightarrow> (bool \<times> nat) option" where
  "bi_is_probable_prime_f3 = probable_prime_by fermat3_test"

definition bi_is_probable_prime_n :: "bigint \<Rightarrow> int \<Rightarrow> (nat \<Rightarrow> int) \<Rightarrow> nat \<Rightarrow> (bool \<times> nat) option" where
  "bi_is_probable_prime_n = probable_prime_by null_test"

partial_function (option) generate_loop ::
    "int list \<Rightarrow> bigint \<Rightarrow> bigint \<Rightarrow> int \<Rightarrow> (nat \<Rightarrow> int) \<Rightarrow> nat \<Rightarrow> (bigint \<times> nat) option" where
  "generate_loop low_primes mo2 mo4 certainty rnd k =
     do {
       (p, k) \<leftarrow> bi_random rnd k mo4;
       p \<leftarrow> bi_add p mo2;
       p \<leftarrow> bi_add p mo4;
       (b, k) \<leftarrow> bi_is_probable_prime low_primes p certainty rnd k;
       if b then Some (p, k) else generate_loop low_primes mo2 mo4 certainty rnd k
     }"

definition bi_generate_prime ::
    "int list \<Rightarrow> int \<Rightarrow> int \<Rightarrow> (nat \<Rightarrow> int) \<Rightarrow> nat \<Rightarrow> (bigint \<times> nat) option" where
  "bi_generate_prime low_primes bits certainty rnd k =
     do {
       e \<leftarrow> int_to_bi (bits - 2);
       mo4 \<leftarrow> bi_power bi_2 e;
       generate_loop low_primes (bi_double mo4) mo4 certainty rnd k
     }"

declare remove_twos.simps [code] generate_loop.simps [code]

section \<open>Primes\<close>








section \<open>The tests on primes\<close>












section \<open>Numbers that are built\<close>









end
