(* ===== verification/BigintStore.thy ===== *)
theory BigintStore
  imports Bigint "HOL-Library.Multiset"
begin

text \<open>
  The storage of the numbers of \<open>math/bigint/bigint_int.c\<close>: objects with reference counts, the free list that
  recycles them, the list of active objects and the checks of \<open>check_level\<close>. A pointer is the index of an
  object in \<open>cells\<close>, the null pointer is \<open>None\<close>, and both lists run through the field \<open>next_cell\<close> of the
  objects. \<open>None\<close> as a result stands for a check that failed and raised \<open>SIGFPE\<close>, for a pointer to no object, and
  for a walk over a list that does not end. The number in an object is a value of \<open>Bigint\<close>, and what an operation
  computes is the operation there; \<open>junk\<close> is what fresh memory holds. The capacity of the array
  of components is left out.

  The theorem is that clients see values: whatever objects are shared, changed in place or recycled, each reference
  keeps its number until the client consumes it, and no check ever fails.
\<close>

section \<open>Definitions\<close>

record cell =
  refs :: int
  next_cell :: "nat option"
  body :: bigint

record store =
  cells :: "cell list"
  free_list :: "nat option"
  active_list :: "nat option"
  free_count :: int
  active_count :: int
  check_level :: nat

definition PERMANENT :: int where "PERMANENT = 123456789"

definition set_cell :: "nat \<Rightarrow> cell \<Rightarrow> store \<Rightarrow> store option" where
  "set_cell p c s = do { cs \<leftarrow> wr (cells s) p c; Some (s\<lparr>cells := cs\<rparr>) }"

subsection \<open>Checks\<close>

text \<open>The loops of \<open>double_check\<close> and \<open>triple_check\<close>: the number of objects on the list.\<close>

partial_function (option) free_walk :: "store \<Rightarrow> nat option \<Rightarrow> int \<Rightarrow> int option" where
  "free_walk s p c =
     (case p of
        None \<Rightarrow> Some c
      | Some a \<Rightarrow>
          do { x \<leftarrow> rd (cells s) a; if refs x \<noteq> 0 then None else free_walk s (next_cell x) (c + 1) })"

partial_function (option) active_walk :: "store \<Rightarrow> nat option \<Rightarrow> int \<Rightarrow> int option" where
  "active_walk s p c =
     (case p of
        None \<Rightarrow> Some c
      | Some a \<Rightarrow>
          do { x \<leftarrow> rd (cells s) a; if refs x = 0 then None else active_walk s (next_cell x) (c + 1) })"

definition double_check :: "store \<Rightarrow> unit option" where
  "double_check s =
     do { c \<leftarrow> free_walk s (free_list s) 0; if c \<noteq> free_count s then None else Some () }"

definition triple_check :: "store \<Rightarrow> unit option" where
  "triple_check s =
     do { c \<leftarrow> active_walk s (active_list s) 0; if c \<noteq> active_count s then None else Some () }"

partial_function (option) on_active :: "store \<Rightarrow> nat option \<Rightarrow> nat \<Rightarrow> bool option" where
  "on_active s p bi =
     (case p of
        None \<Rightarrow> Some False
      | Some a \<Rightarrow>
          if a = bi then Some True else do { x \<leftarrow> rd (cells s) a; on_active s (next_cell x) bi })"

definition check :: "store \<Rightarrow> nat \<Rightarrow> unit option" where
  "check s bi =
     (if check_level s = 0 then Some ()
      else
        do {
          x \<leftarrow> rd (cells s) bi;
          if refs x = 0 \<or> refs x < 0 then None
          else
            do {
              (if check_level s < 3 then (if next_cell x \<noteq> None then None else Some ())
               else do { b \<leftarrow> on_active s (active_list s) bi; if b then Some () else None });
              (if 2 \<le> check_level s then double_check s else Some ());
              (if 3 \<le> check_level s then triple_check s else Some ())
            }
        })"

subsection \<open>References\<close>

definition bi_no_check :: "store \<Rightarrow> store" where
  "bi_no_check s = s\<lparr>check_level := 0\<rparr>"

definition bi_copy :: "nat \<Rightarrow> store \<Rightarrow> store option" where
  "bi_copy bi s =
     do {
       check s bi;
       x \<leftarrow> rd (cells s) bi;
       if refs x \<noteq> PERMANENT then set_cell bi (x\<lparr>refs := refs x + 1\<rparr>) s else Some s
     }"

definition bi_permanent :: "nat \<Rightarrow> store \<Rightarrow> store option" where
  "bi_permanent bi s =
     do {
       check s bi;
       x \<leftarrow> rd (cells s) bi;
       if 1 \<le> check_level s \<and> refs x \<noteq> 1 then None else set_cell bi (x\<lparr>refs := PERMANENT\<rparr>) s
     }"

definition bi_depermanent :: "nat \<Rightarrow> store \<Rightarrow> store option" where
  "bi_depermanent bi s =
     do {
       check s bi;
       x \<leftarrow> rd (cells s) bi;
       if 1 \<le> check_level s \<and> refs x \<noteq> PERMANENT then None else set_cell bi (x\<lparr>refs := 1\<rparr>) s
     }"

text \<open>
  The loop of \<open>bi_free\<close> that takes an object off the active list. \<open>at\<close> says what \<open>nextP\<close> points to: the head of the
  list, or the field of an object.
\<close>

definition get_next :: "nat option \<Rightarrow> store \<Rightarrow> nat option option" where
  "get_next at s =
     (case at of
        None \<Rightarrow> Some (active_list s)
      | Some a \<Rightarrow> do { x \<leftarrow> rd (cells s) a; Some (next_cell x) })"

definition set_next :: "nat option \<Rightarrow> nat option \<Rightarrow> store \<Rightarrow> store option" where
  "set_next at p s =
     (case at of
        None \<Rightarrow> Some (s\<lparr>active_list := p\<rparr>)
      | Some a \<Rightarrow> do { x \<leftarrow> rd (cells s) a; set_cell a (x\<lparr>next_cell := p\<rparr>) s })"

partial_function (option) unlink :: "nat option \<Rightarrow> nat \<Rightarrow> store \<Rightarrow> store option" where
  "unlink at bi s =
     do {
       p \<leftarrow> get_next at s;
       (case p of
          None \<Rightarrow> Some s
        | Some a \<Rightarrow>
            if a = bi then do { x \<leftarrow> rd (cells s) bi; set_next at (next_cell x) s }
            else unlink (Some a) bi s)
     }"

definition bi_free :: "nat \<Rightarrow> store \<Rightarrow> store option" where
  "bi_free bi s =
     do {
       check s bi;
       x \<leftarrow> rd (cells s) bi;
       if refs x = PERMANENT then Some s
       else
         do {
           s \<leftarrow> set_cell bi (x\<lparr>refs := refs x - 1\<rparr>) s;
           if 0 < refs x - 1 then Some s
           else
             do {
               s \<leftarrow> (if 3 \<le> check_level s then unlink None bi s else Some s);
               let s = s\<lparr>active_count := active_count s - 1\<rparr>;
               x \<leftarrow> rd (cells s) bi;
               s \<leftarrow> set_cell bi (x\<lparr>next_cell := free_list s\<rparr>) s;
               let s = s\<lparr>free_list := Some bi, free_count := free_count s + 1\<rparr>;
               if 1 \<le> check_level s \<and> active_count s < 0 then None else Some s
             }
         }
     }"

text \<open>\<open>alloc\<close>: an object from the free list, or a new one, then its fields.\<close>

definition recycle :: "(nat \<Rightarrow> bigint) \<Rightarrow> store \<Rightarrow> (store \<times> nat) option" where
  "recycle junk s =
     (case free_list s of
        Some p \<Rightarrow>
          do {
            x \<leftarrow> rd (cells s) p;
            if 1 \<le> check_level s \<and> refs x \<noteq> 0 then None
            else Some (s\<lparr>free_list := next_cell x, free_count := free_count s - 1\<rparr>, p)
          }
      | None \<Rightarrow>
          (let p = length (cells s) in
           Some (s\<lparr>cells := cells s @ [\<lparr>refs = 0, next_cell = None, body = junk p\<rparr>]\<rparr>, p)))"

definition alloc :: "(nat \<Rightarrow> bigint) \<Rightarrow> nat \<Rightarrow> store \<Rightarrow> (store \<times> nat) option" where
  "alloc junk n s =
     do {
       (s, p) \<leftarrow> recycle junk s;
       x \<leftarrow> rd (cells s) p;
       s \<leftarrow> set_cell p \<lparr>refs = 1, next_cell = (if 3 \<le> check_level s then active_list s else None),
              body = (body x)\<lparr>comps := set_comps (comps (body x)) n\<rparr>\<rparr> s;
       Some (s\<lparr>active_list := (if 3 \<le> check_level s then Some p else active_list s),
               active_count := active_count s + 1\<rparr>, p)
     }"

definition set_body :: "nat \<Rightarrow> bigint \<Rightarrow> store \<Rightarrow> store option" where
  "set_body p b s = do { x \<leftarrow> rd (cells s) p; set_cell p (x\<lparr>body := b\<rparr>) s }"

definition clone :: "(nat \<Rightarrow> bigint) \<Rightarrow> nat \<Rightarrow> store \<Rightarrow> (store \<times> nat) option" where
  "clone junk bi s =
     do {
       x \<leftarrow> rd (cells s) bi;
       if refs x \<noteq> PERMANENT \<and> refs x = 1 then Some (s, bi)
       else
         do {
           (s, r) \<leftarrow> alloc junk (num_comps (body x)) s;
           x \<leftarrow> rd (cells s) bi;
           s \<leftarrow> set_body r (body x) s;
           s \<leftarrow> bi_free bi s;
           Some (s, r)
         }
     }"

subsection \<open>Operations\<close>

text \<open>
  The frame of the operations that change a clone of their operand: \<open>bi_negate\<close>, \<open>bi_abs\<close>, \<open>bi_half\<close>,
  \<open>bi_double\<close> and the four operations with an int; \<open>f\<close> is what happens to the number.
\<close>

definition in_place :: "(nat \<Rightarrow> bigint) \<Rightarrow> (bigint \<Rightarrow> bigint option) \<Rightarrow> nat \<Rightarrow> store \<Rightarrow> (store \<times> nat) option" where
  "in_place junk f bi s =
     do {
       check s bi;
       (s, r) \<leftarrow> clone junk bi s;
       x \<leftarrow> rd (cells s) r;
       b \<leftarrow> f (body x);
       s \<leftarrow> set_body r b s;
       check s r;
       Some (s, r)
     }"

text \<open>The frame of \<open>bi_add\<close> and \<open>bi_subtract\<close>, which change a clone of the first operand.\<close>

definition combine ::
    "(nat \<Rightarrow> bigint) \<Rightarrow> (bigint \<Rightarrow> bigint \<Rightarrow> bigint option) \<Rightarrow> nat \<Rightarrow> nat \<Rightarrow> store \<Rightarrow> (store \<times> nat) option" where
  "combine junk f bia bib s =
     do {
       check s bia;
       check s bib;
       (s, r) \<leftarrow> clone junk bia s;
       x \<leftarrow> rd (cells s) r;
       y \<leftarrow> rd (cells s) bib;
       b \<leftarrow> f (body x) (body y);
       s \<leftarrow> set_body r b s;
       s \<leftarrow> bi_free bib s;
       check s r;
       Some (s, r)
     }"

text \<open>\<open>bi_compare\<close> with its test for equal pointers, and the frame of \<open>bi_is_zero\<close> and the other predicates.\<close>

definition compare_refs :: "nat \<Rightarrow> nat \<Rightarrow> store \<Rightarrow> (store \<times> int) option" where
  "compare_refs bia bib s =
     do {
       check s bia;
       check s bib;
       x \<leftarrow> rd (cells s) bia;
       y \<leftarrow> rd (cells s) bib;
       let r = (if bia = bib then 0 else bi_compare (body x) (body y));
       s \<leftarrow> bi_free bia s;
       s \<leftarrow> bi_free bib s;
       Some (s, r)
     }"

definition query :: "(bigint \<Rightarrow> int) \<Rightarrow> nat \<Rightarrow> store \<Rightarrow> (store \<times> int) option" where
  "query f bi s =
     do {
       check s bi;
       x \<leftarrow> rd (cells s) bi;
       s \<leftarrow> bi_free bi s;
       Some (s, f (body x))
     }"

definition int_to_bi_ref :: "(nat \<Rightarrow> bigint) \<Rightarrow> int \<Rightarrow> store \<Rightarrow> (store \<times> nat) option" where
  "int_to_bi_ref junk i s =
     do {
       (s, r) \<leftarrow> alloc junk 1 s;
       b \<leftarrow> int_to_bi i;
       s \<leftarrow> set_body r b s;
       check s r;
       Some (s, r)
     }"

text \<open>\<open>bi_0\<close>, \<open>bi_1\<close>, \<open>bi_2\<close>, \<open>bi_3\<close>, \<open>bi_m1\<close>, \<open>bi_maxint\<close>, \<open>bi_minint\<close>: the first seven objects.\<close>

definition const_ints :: "int list" where
  "const_ints = [0, 1, 2, 3, - 1, 2147483647, - 2147483648]"

definition bi_initialize :: "(nat \<Rightarrow> bigint) \<Rightarrow> store option" where
  "bi_initialize junk =
     foldo (\<lambda>i s. do { (s, r) \<leftarrow> int_to_bi_ref junk i s; bi_permanent r s }) const_ints
       \<lparr>cells = [], free_list = None, active_list = None, free_count = 0, active_count = 0, check_level = 3\<rparr>"

text \<open>The loops of \<open>bi_terminate\<close> that free the objects of a list.\<close>

partial_function (option) freed :: "store \<Rightarrow> nat option \<Rightarrow> nat list option" where
  "freed s p =
     (case p of
        None \<Rightarrow> Some []
      | Some a \<Rightarrow> do { x \<leftarrow> rd (cells s) a; ps \<leftarrow> freed s (next_cell x); Some (a # ps) })"

text \<open>The number of un-freed objects that is reported, and the objects whose memory is freed.\<close>

definition bi_terminate :: "store \<Rightarrow> (int \<times> nat list) option" where
  "bi_terminate s =
     do {
       s \<leftarrow> foldo (\<lambda>p s. do { s \<leftarrow> bi_depermanent p s; bi_free p s }) [0..<length const_ints] s;
       (if 2 \<le> check_level s then double_check s else Some ());
       (if 3 \<le> check_level s then triple_check s else Some ());
       ps \<leftarrow> (if 3 \<le> check_level s then freed s (active_list s) else Some []);
       qs \<leftarrow> freed s (free_list s);
       Some (active_count s, ps @ qs)
     }"

subsection \<open>Clients\<close>

text \<open>
  A client holds references in slots. \<open>Compare\<close> and \<open>IsZero\<close> pass copies, as the callers in the
  library do, \<open>Unary\<close> and \<open>Binary\<close> pass the references themselves, and the
  result takes the place of the first.
\<close>

datatype unary = Negate | Abs | Half | Double | IntAdd int | IntSubtract int | IntMultiply int | IntDivide int

datatype binary = Add | Subtract

datatype command =
    Const nat
  | FromInt int
  | Copy nat
  | Free nat
  | Unary unary nat
  | Binary binary nat nat
  | Compare nat nat
  | IsZero nat
  | NoCheck

fun unary_value :: "unary \<Rightarrow> bigint \<Rightarrow> bigint option" where
  "unary_value Negate v = Some (bi_negate v)"
| "unary_value Abs v = Some (bi_abs v)"
| "unary_value Half v = Some (bi_half v)"
| "unary_value Double v = Some (bi_double v)"
| "unary_value (IntAdd i) v = bi_int_add v i"
| "unary_value (IntSubtract i) v = bi_int_subtract v i"
| "unary_value (IntMultiply i) v = bi_int_multiply v i"
| "unary_value (IntDivide i) v = bi_int_divide v i"

fun binary_value :: "binary \<Rightarrow> bigint \<Rightarrow> bigint \<Rightarrow> bigint option" where
  "binary_value Add = bi_add"
| "binary_value Subtract = bi_subtract"

definition drop_nth :: "nat \<Rightarrow> 'a list \<Rightarrow> 'a list" where
  "drop_nth i xs = take i xs @ drop (Suc i) xs"

text \<open>The client on values, and on references into a store; both collect the results of the comparisons.\<close>

fun value_step :: "command \<Rightarrow> bigint list \<times> int list \<Rightarrow> (bigint list \<times> int list) option" where
  "value_step (Const k) (vs, out) =
     do { i \<leftarrow> rd const_ints k; v \<leftarrow> int_to_bi i; Some (vs @ [v], out) }"
| "value_step (FromInt i) (vs, out) = do { v \<leftarrow> int_to_bi i; Some (vs @ [v], out) }"
| "value_step (Copy i) (vs, out) = do { v \<leftarrow> rd vs i; Some (vs @ [v], out) }"
| "value_step (Free i) (vs, out) = do { v \<leftarrow> rd vs i; Some (drop_nth i vs, out) }"
| "value_step (Unary f i) (vs, out) =
     do { v \<leftarrow> rd vs i; v \<leftarrow> unary_value f v; Some (vs[i := v], out) }"
| "value_step (Binary f i j) (vs, out) =
     (if i = j then None
      else
        do { v \<leftarrow> rd vs i; w \<leftarrow> rd vs j; v \<leftarrow> binary_value f v w; Some (drop_nth j (vs[i := v]), out) })"
| "value_step (Compare i j) (vs, out) =
     do { v \<leftarrow> rd vs i; w \<leftarrow> rd vs j; Some (vs, out @ [bi_compare v w]) }"
| "value_step (IsZero i) (vs, out) = do { v \<leftarrow> rd vs i; Some (vs, out @ [of_bool (bi_is_zero v)]) }"
| "value_step NoCheck (vs, out) = Some (vs, out)"

fun store_step ::
    "(nat \<Rightarrow> bigint) \<Rightarrow> command \<Rightarrow> store \<times> nat list \<times> int list \<Rightarrow> (store \<times> nat list \<times> int list) option" where
  "store_step junk (Const k) (s, ps, out) = do { i \<leftarrow> rd const_ints k; Some (s, ps @ [k], out) }"
| "store_step junk (FromInt i) (s, ps, out) =
     do { (s, r) \<leftarrow> int_to_bi_ref junk i s; Some (s, ps @ [r], out) }"
| "store_step junk (Copy i) (s, ps, out) =
     do { p \<leftarrow> rd ps i; s \<leftarrow> bi_copy p s; Some (s, ps @ [p], out) }"
| "store_step junk (Free i) (s, ps, out) =
     do { p \<leftarrow> rd ps i; s \<leftarrow> bi_free p s; Some (s, drop_nth i ps, out) }"
| "store_step junk (Unary f i) (s, ps, out) =
     do { p \<leftarrow> rd ps i; (s, r) \<leftarrow> in_place junk (unary_value f) p s; Some (s, ps[i := r], out) }"
| "store_step junk (Binary f i j) (s, ps, out) =
     (if i = j then None
      else
        do {
          p \<leftarrow> rd ps i;
          q \<leftarrow> rd ps j;
          (s, r) \<leftarrow> combine junk (binary_value f) p q s;
          Some (s, drop_nth j (ps[i := r]), out)
        })"
| "store_step junk (Compare i j) (s, ps, out) =
     do {
       p \<leftarrow> rd ps i;
       q \<leftarrow> rd ps j;
       s \<leftarrow> bi_copy p s;
       s \<leftarrow> bi_copy q s;
       (s, r) \<leftarrow> compare_refs p q s;
       Some (s, ps, out @ [r])
     }"
| "store_step junk (IsZero i) (s, ps, out) =
     do {
       p \<leftarrow> rd ps i;
       s \<leftarrow> bi_copy p s;
       (s, r) \<leftarrow> query (\<lambda>v. of_bool (bi_is_zero v)) p s;
       Some (s, ps, out @ [r])
     }"
| "store_step junk NoCheck (s, ps, out) = Some (bi_no_check s, ps, out)"

declare free_walk.simps [code] active_walk.simps [code] on_active.simps [code] unlink.simps [code]
  freed.simps [code]

end
