(* ===== verification/BigintStore_Proofs.thy ===== *)
theory BigintStore_Proofs
  imports BigintStore
begin

text \<open>
  The invariant of the storage and its consequences. A list of objects is described by \<open>linked\<close>; \<open>store_inv\<close>
  relates the counts to the multiset of references that are held; \<open>keeps\<close> says that an operation leaves the
  numbers alone that others hold.
\<close>

section \<open>Lists of objects\<close>

fun linked :: "cell list \<Rightarrow> nat option \<Rightarrow> nat list \<Rightarrow> bool" where
  "linked cs p [] = (p = None)"
| "linked cs p (a # as) = (p = Some a \<and> a < length cs \<and> linked cs (next_cell (cs ! a)) as)"

lemma nth_upd: "xs[i := x] ! j = (if i < length xs \<and> i = j then x else xs ! j)"
  by (cases "i < length xs") (auto simp: nth_list_update list_update_beyond)

lemma linked_bound: "linked cs p xs \<Longrightarrow> a \<in> set xs \<Longrightarrow> a < length cs"
  by (induction xs arbitrary: p) auto

lemma linked_cong:
  "linked cs p xs \<Longrightarrow> length cs \<le> length ds \<Longrightarrow> (\<And>a. a \<in> set xs \<Longrightarrow> next_cell (ds ! a) = next_cell (cs ! a)) \<Longrightarrow>
   linked ds p xs"
  by (induction xs arbitrary: p) (auto intro: less_le_trans)

lemma linked_update: "linked cs p xs \<Longrightarrow> a \<notin> set xs \<Longrightarrow> linked (cs[a := c]) p xs"
  by (erule linked_cong) (auto simp: nth_upd)

lemma linked_same_next: "linked cs p xs \<Longrightarrow> next_cell c = next_cell (cs ! a) \<Longrightarrow> linked (cs[a := c]) p xs"
  by (erule linked_cong) (auto simp: nth_upd)

lemma linked_snoc: "linked cs p xs \<Longrightarrow> linked (cs @ [c]) p xs"
  by (frule linked_cong [of cs p xs "cs @ [c]"]) (auto simp: nth_append dest: linked_bound)

lemma free_walk_linked:
  "linked (cells s) p xs \<Longrightarrow> \<forall>a \<in> set xs. refs (cells s ! a) = 0 \<Longrightarrow> free_walk s p c = Some (c + int (length xs))"
  by (induction xs arbitrary: p c) (simp_all add: free_walk.simps)

lemma active_walk_linked:
  "linked (cells s) p xs \<Longrightarrow> \<forall>a \<in> set xs. refs (cells s ! a) \<noteq> 0 \<Longrightarrow>
   active_walk s p c = Some (c + int (length xs))"
  by (induction xs arbitrary: p c) (simp_all add: active_walk.simps)

lemma on_active_linked: "linked (cells s) p xs \<Longrightarrow> on_active s p a = Some (a \<in> set xs)"
  by (induction xs arbitrary: p) (auto simp: on_active.simps)

lemma freed_linked: "linked (cells s) p xs \<Longrightarrow> freed s p = Some xs"
  by (induction xs arbitrary: p) (auto simp: freed.simps)

text \<open>Taking an object out of the middle.\<close>

lemma linked_next: "linked cs p (pre @ a # b # ys) \<Longrightarrow> next_cell (cs ! a) = Some b"
  by (induction pre arbitrary: p) auto

lemma linked_skip:
  "linked cs p (pre @ a # b # ys) \<Longrightarrow> distinct (pre @ a # b # ys) \<Longrightarrow>
   linked (cs[a := (cs ! a)\<lparr>next_cell := next_cell (cs ! b)\<rparr>]) p (pre @ a # ys)"
  by (induction pre arbitrary: p) (auto intro: linked_update)

definition same_but_next :: "store \<Rightarrow> store \<Rightarrow> nat set \<Rightarrow> bool" where
  "same_but_next s t A =
     (length (cells t) = length (cells s) \<and>
      (\<forall>a. refs (cells t ! a) = refs (cells s ! a) \<and> body (cells t ! a) = body (cells s ! a)) \<and>
      (\<forall>a. a \<notin> A \<longrightarrow> cells t ! a = cells s ! a) \<and>
      free_list t = free_list s \<and> free_count t = free_count s \<and> active_count t = active_count s \<and>
      check_level t = check_level s)"

lemma unlink_from:
  assumes "linked (cells s) (active_list s) (pre @ a # xs)" "distinct (pre @ a # xs)" "p \<in> set xs"
  shows "\<exists>t. unlink (Some a) p s = Some t \<and> linked (cells t) (active_list t) (remove1 p (pre @ a # xs)) \<and>
    same_but_next s t (set (pre @ a # xs))"
  using assms
proof (induction xs arbitrary: pre a)
  case (Cons b xs)
  have a: "a < length (cells s)" "b < length (cells s)"
    using linked_bound [OF Cons.prems(1)] by simp_all
  have n: "get_next (Some a) s = Some (Some b)" using a linked_next [OF Cons.prems(1)] by (simp add: get_next_def)
  show ?case
  proof (cases "b = p")
    case True
    let ?t = "s\<lparr>cells := (cells s)[a := (cells s ! a)\<lparr>next_cell := next_cell (cells s ! b)\<rparr>]\<rparr>"
    have "unlink (Some a) p s = Some ?t"
      using a n True by (simp add: unlink.simps set_next_def set_cell_def)
    moreover have "remove1 p (pre @ a # b # xs) = pre @ a # xs"
      using True Cons.prems(2) by (auto simp: remove1_append)
    ultimately show ?thesis using linked_skip [OF Cons.prems(1,2)] by (auto simp: same_but_next_def nth_upd)
  next
    case False
    then show ?thesis using Cons.IH [of "pre @ [a]" b] Cons.prems n by (simp add: unlink.simps)
  qed
qed simp

lemma unlink_linked:
  assumes "linked (cells s) (active_list s) xs" "distinct xs" "p \<in> set xs"
  shows "\<exists>t. unlink None p s = Some t \<and> linked (cells t) (active_list t) (remove1 p xs) \<and> same_but_next s t (set xs)"
proof (cases xs)
  case (Cons a as)
  have n: "get_next None s = Some (Some a)" "a < length (cells s)" using assms(1) Cons by (simp_all add: get_next_def)
  show ?thesis
  proof (cases "a = p")
    case True
    have "unlink None p s = Some (s\<lparr>active_list := next_cell (cells s ! a)\<rparr>)"
      using n True by (simp add: unlink.simps set_next_def)
    then show ?thesis using assms(1) Cons True by (simp add: same_but_next_def)
  next
    case False
    then show ?thesis using unlink_from [of s "[]" a as p] assms Cons n by (simp add: unlink.simps)
  qed
qed (use assms in simp)

section \<open>The invariant\<close>

definition refs_ok :: "store \<Rightarrow> nat multiset \<Rightarrow> nat \<Rightarrow> bool" where
  "refs_ok s H p =
     (refs (cells s ! p) = PERMANENT \<or>
      (refs (cells s ! p) = int (count H p) \<and> 0 < count H p \<and> int (count H p) < PERMANENT))"

definition links_ok :: "store \<Rightarrow> nat set \<Rightarrow> nat list \<Rightarrow> bool" where
  "links_ok s A al =
     ((3 \<le> check_level s \<longrightarrow> linked (cells s) (active_list s) al \<and> distinct al \<and> set al = A) \<and>
      (0 < check_level s \<and> check_level s < 3 \<longrightarrow> (\<forall>p \<in> A. next_cell (cells s ! p) = None)))"

definition live :: "store \<Rightarrow> nat list \<Rightarrow> nat set" where
  "live s fl = {..<length (cells s)} - set fl"

definition store_inv :: "store \<Rightarrow> nat multiset \<Rightarrow> nat list \<Rightarrow> nat list \<Rightarrow> bool" where
  "store_inv s H fl al =
     (linked (cells s) (free_list s) fl \<and> distinct fl \<and> free_count s = int (length fl) \<and>
      (\<forall>p \<in> set fl. refs (cells s ! p) = 0) \<and>
      (\<forall>p \<in> live s fl. refs_ok s H p) \<and>
      set_mset H \<subseteq> live s fl \<and>
      active_count s = int (card (live s fl)) \<and>
      links_ok s (live s fl) al)"

definition store_ok :: "store \<Rightarrow> nat multiset \<Rightarrow> bool" where
  "store_ok s H = (\<exists>fl al. store_inv s H fl al)"

definition perm :: "store \<Rightarrow> nat \<Rightarrow> bool" where
  "perm s p = (p < length (cells s) \<and> refs (cells s ! p) = PERMANENT)"

abbreviation val :: "store \<Rightarrow> nat \<Rightarrow> bigint" where
  "val s p \<equiv> body (cells s ! p)"

text \<open>What an operation leaves alone: the numbers of \<open>H\<close>, and the permanent objects.\<close>

definition keeps :: "store \<Rightarrow> store \<Rightarrow> nat multiset \<Rightarrow> bool" where
  "keeps s t H = ((\<forall>p \<in># H. val t p = val s p) \<and> (\<forall>p. perm t p = perm s p) \<and> (\<forall>p. perm s p \<longrightarrow> val t p = val s p))"

definition usable :: "store \<Rightarrow> nat multiset \<Rightarrow> nat \<Rightarrow> bool" where
  "usable s H p = (p \<in># H \<or> perm s p)"

lemma usable_live: "store_inv s H fl al \<Longrightarrow> usable s H p \<Longrightarrow> p \<in> live s fl"
  by (auto simp: store_inv_def usable_def perm_def live_def PERMANENT_def)

lemma live_refs: "store_inv s H fl al \<Longrightarrow> p \<in> live s fl \<Longrightarrow> 0 < refs (cells s ! p)"
  by (auto simp: store_inv_def refs_ok_def PERMANENT_def)

lemma live_active:
  "store_inv s H fl al \<Longrightarrow> 3 \<le> check_level s \<Longrightarrow> length al = card (live s fl)"
  by (auto simp: store_inv_def links_ok_def dest: distinct_card)

lemma check_live:
  assumes "store_inv s H fl al" "p \<in> live s fl"
  shows "check s p = Some ()"
proof -
  have p: "p < length (cells s)" "0 < refs (cells s ! p)"
    using assms live_refs by (auto simp: live_def)
  have free: "double_check s = Some ()"
    using assms(1) free_walk_linked [of s "free_list s" fl 0] by (simp add: double_check_def store_inv_def)
  have active: "triple_check s = Some ()" if l: "3 \<le> check_level s"
  proof -
    have "\<forall>a \<in> set al. refs (cells s ! a) \<noteq> 0" using assms(1) l live_refs [OF assms(1)]
      by (fastforce simp: store_inv_def links_ok_def)
    then show ?thesis using assms(1) l active_walk_linked [of s "active_list s" al 0] live_active [OF assms(1) l]
      by (simp add: triple_check_def store_inv_def links_ok_def)
  qed
  show ?thesis
  proof (cases "3 \<le> check_level s")
    case True
    then have "on_active s (active_list s) p = Some True"
      using assms on_active_linked [of s "active_list s" al p] by (simp add: store_inv_def links_ok_def)
    then show ?thesis using p free active True by (simp add: check_def)
  next
    case False
    then have "0 < check_level s \<Longrightarrow> next_cell (cells s ! p) = None"
      using assms by (simp add: store_inv_def links_ok_def)
    then show ?thesis using p free False by (simp add: check_def)
  qed
qed

lemmas check_usable = check_live [OF _ usable_live]

section \<open>The operations keep it\<close>

lemma keeps_refl: "keeps s s H"
  by (simp add: keeps_def)

lemma keeps_trans: "keeps s t H \<Longrightarrow> keeps t u K \<Longrightarrow> set_mset K \<subseteq> set_mset H \<Longrightarrow> keeps s u K"
  by (auto simp: keeps_def)

lemma keeps_mono: "keeps s t H \<Longrightarrow> set_mset K \<subseteq> set_mset H \<Longrightarrow> keeps s t K"
  by (auto simp: keeps_def)

lemma keeps_usable: "keeps s t K \<Longrightarrow> usable s K p \<Longrightarrow> usable t K p \<and> val t p = val s p"
  by (auto simp: keeps_def usable_def)

text \<open>An object that is in use gets a new count or number; its link stays.\<close>

lemma store_inv_set:
  assumes "store_inv s H fl al" "p \<in> live s fl" "next_cell c = next_cell (cells s ! p)"
    "refs c = PERMANENT \<or> refs c = int (count K p) \<and> 0 < count K p \<and> int (count K p) < PERMANENT"
    "\<And>q. q \<noteq> p \<Longrightarrow> count K q = count H q"
  shows "store_inv (s\<lparr>cells := (cells s)[p := c]\<rparr>) K fl al"
proof -
  let ?t = "s\<lparr>cells := (cells s)[p := c]\<rparr>"
  have p: "p < length (cells s)" "p \<notin> set fl" using assms(2) by (auto simp: live_def)
  have l: "live ?t fl = live s fl" by (simp add: live_def)
  have "set_mset K \<subseteq> live s fl"
  proof
    fix q assume "q \<in># K"
    show "q \<in> live s fl"
    proof (cases "q = p")
      case False
      then have "q \<in># H" using \<open>q \<in># K\<close> assms(5) [of q] by (metis count_eq_zero_iff)
      then show ?thesis using assms(1) by (auto simp: store_inv_def)
    qed (use assms(2) in simp)
  qed
  moreover have "refs_ok ?t K q" if "q \<in> live s fl" for q
    using that assms(1,4) assms(5) [of q] p by (cases "q = p") (auto simp: store_inv_def refs_ok_def)
  moreover have "links_ok ?t (live s fl) al"
    using assms(1,3) by (auto simp: store_inv_def links_ok_def nth_upd linked_same_next)
  ultimately show ?thesis using assms(1,3) p by (auto simp: store_inv_def l nth_upd linked_same_next)
qed

lemma store_inv_perm:
  assumes "store_inv s H fl al" "perm s p" "\<And>q. q \<noteq> p \<Longrightarrow> count K q = count H q"
  shows "store_inv s K fl al"
proof -
  have "p \<in> live s fl" using assms(1,2) usable_live [of s H fl al p] by (simp add: usable_def)
  then show ?thesis using store_inv_set [of s H fl al p "cells s ! p" K] assms by (auto simp: perm_def)
qed

lemma copy_ok:
  assumes "store_ok s H" "usable s H p" "int (count H p) + 1 < PERMANENT"
  shows "\<exists>t. bi_copy p s = Some t \<and> store_ok t (add_mset p H) \<and> keeps s t (add_mset p H)"
proof -
  obtain fl al where i: "store_inv s H fl al" using assms(1) by (auto simp: store_ok_def)
  have p: "p \<in> live s fl" using i assms(2) by (rule usable_live)
  then have pl: "p < length (cells s)" by (simp add: live_def)
  show ?thesis
  proof (cases "refs (cells s ! p) = PERMANENT")
    case True
    then have "store_inv s (add_mset p H) fl al" using store_inv_perm [OF i, of p "add_mset p H"] pl by (simp add: perm_def)
    then show ?thesis using True pl check_live [OF i p] by (auto simp: bi_copy_def store_ok_def keeps_refl)
  next
    case False
    let ?c = "(cells s ! p)\<lparr>refs := refs (cells s ! p) + 1\<rparr>"
    have r: "refs (cells s ! p) = int (count H p)" using i p False by (auto simp: store_inv_def refs_ok_def)
    have "store_inv (s\<lparr>cells := (cells s)[p := ?c]\<rparr>) (add_mset p H) fl al"
      using assms(3) r by (intro store_inv_set [OF i p]) auto
    then show ?thesis using False pl check_live [OF i p] r assms(3)
      by (auto simp: bi_copy_def store_ok_def set_cell_def keeps_def perm_def nth_upd)
  qed
qed

lemma free_last:
  assumes i: "store_inv s H fl al" and p: "p \<in> live s fl" and r: "refs (cells s ! p) \<noteq> PERMANENT" "count H p = 1"
  shows "\<exists>t. bi_free p s = Some t \<and> store_ok t (H - {#p#}) \<and> keeps s t (H - {#p#}) \<and>
    length (cells t) = length (cells s)"
proof -
  let ?H = "H - {#p#}"
  let ?s = "s\<lparr>cells := (cells s)[p := (cells s ! p)\<lparr>refs := 0\<rparr>]\<rparr>"
  have pl: "p < length (cells s)" "p \<notin> set fl" using p by (simp_all add: live_def)
  have r1: "refs (cells s ! p) = 1" using i p r by (auto simp: store_inv_def refs_ok_def)
  define al' where "al' = remove1 p al"
  have "\<exists>t. (if 3 \<le> check_level ?s then unlink None p ?s else Some ?s) = Some t \<and>
    same_but_next ?s t (live s fl) \<and> (if 3 \<le> check_level s then linked (cells t) (active_list t) al' else t = ?s)"
  proof (cases "3 \<le> check_level s")
    case True
    then have "linked (cells ?s) (active_list ?s) al" "distinct al" "set al = live s fl"
      using i by (auto simp: store_inv_def links_ok_def linked_same_next)
    then show ?thesis using unlink_linked [of ?s al p] p True by (auto simp: al'_def)
  qed (simp add: same_but_next_def)
  then obtain t where t: "(if 3 \<le> check_level s then unlink None p ?s else Some ?s) = Some t"
    "same_but_next ?s t (live s fl)" "3 \<le> check_level s \<Longrightarrow> linked (cells t) (active_list t) al'"
    "\<not> 3 \<le> check_level s \<Longrightarrow> t = ?s" by (auto split: if_splits)
  let ?x = "(cells t ! p)\<lparr>next_cell := free_list s\<rparr>"
  define u where "u = t\<lparr>active_count := active_count s - 1, cells := (cells t)[p := ?x], free_list := Some p,
    free_count := free_count s + 1\<rparr>"
  have u: "cells u = (cells t)[p := ?x]" "free_list u = Some p" "free_count u = free_count s + 1"
    "active_count u = active_count s - 1" "active_list u = active_list t" "check_level u = check_level t"
    by (simp_all add: u_def)
  have f: "length (cells t) = length (cells s)" "free_list t = free_list s" "free_count t = free_count s"
    "active_count t = active_count s" "check_level t = check_level s"
    "\<And>a. refs (cells t ! a) = (if a = p then 0 else refs (cells s ! a))"
    "\<And>a. body (cells t ! a) = body (cells s ! a)"
    "\<And>a. a \<notin> live s fl \<Longrightarrow> cells t ! a = cells s ! a"
    using t(2) pl p by (auto simp: same_but_next_def nth_upd split: if_splits)
  have card: "active_count s = int (card (live s fl))" "finite (live s fl)" using i by (auto simp: store_inv_def live_def)
  then have pos: "0 < card (live s fl)" using p by (auto simp: card_gt_0_iff)
  then have run: "bi_free p s = Some u"
    using check_live [OF i p] r r1 t(1) pl f pos card(1) by (simp add: bi_free_def set_cell_def u_def)
  have lv: "live u (p # fl) = live s fl - {p}" using f(1) by (auto simp: live_def u)
  have "linked (cells u) (Some p) (p # fl)"
  proof -
    have "linked (cells s) (free_list s) fl" using i by (simp add: store_inv_def)
    then have "linked (cells u) (free_list s) fl"
      using f(1,8) pl by (elim linked_cong) (auto simp: nth_upd live_def u)
    then show ?thesis using f(1) pl by (simp add: u)
  qed
  moreover have "refs_ok u ?H q" if "q \<in> live s fl - {p}" for q
    using that i f(6) by (auto simp: store_inv_def refs_ok_def u nth_upd)
  moreover have "set_mset ?H \<subseteq> live s fl - {p}"
    using i r(2) by (auto simp: store_inv_def in_diff_count dest: in_diffD)
  moreover have "links_ok u (live s fl - {p}) al'"
  proof (cases "3 \<le> check_level s")
    case True
    then have al: "distinct al" "set al = live s fl" using i by (auto simp: store_inv_def links_ok_def)
    then have "p \<notin> set al'" "set al' = live s fl - {p}" "distinct al'" by (simp_all add: al'_def)
    then show ?thesis using t(3) True f(5) by (simp add: links_ok_def linked_update u)
  next
    case False
    then show ?thesis using i t(4) f(5) by (auto simp: store_inv_def links_ok_def nth_upd u)
  qed
  moreover have "int (card (live s fl - {p})) = active_count s - 1" using card pos p by (simp add: card_Diff_singleton of_nat_diff)
  moreover have "distinct (p # fl)" "free_count s + 1 = int (length (p # fl))"
    "\<forall>q \<in> set (p # fl). refs (cells u ! q) = 0"
    using i pl f by (auto simp: store_inv_def nth_upd u)
  ultimately have "store_inv u ?H (p # fl) al'" unfolding store_inv_def lv by (simp add: u(2,3,4))
  moreover have "keeps s u ?H" using f r r1 pl
    by (auto simp: keeps_def perm_def nth_upd PERMANENT_def u split: if_splits)
  moreover have "length (cells u) = length (cells s)" using f(1) by (simp add: u)
  ultimately show ?thesis using run by (auto simp: store_ok_def)
qed

lemma free_ok:
  assumes "store_ok s (add_mset p H)"
  shows "\<exists>t. bi_free p s = Some t \<and> store_ok t H \<and> keeps s t H \<and> length (cells t) = length (cells s)"
proof -
  obtain fl al where i: "store_inv s (add_mset p H) fl al" using assms by (auto simp: store_ok_def)
  have p: "p \<in> live s fl" using i by (simp add: store_inv_def)
  then have pl: "p < length (cells s)" by (simp add: live_def)
  consider "refs (cells s ! p) = PERMANENT" | "refs (cells s ! p) \<noteq> PERMANENT" "p \<notin># H"
    | "refs (cells s ! p) \<noteq> PERMANENT" "p \<in># H" by blast
  then show ?thesis
  proof cases
    case 1
    then have "store_inv s H fl al" using store_inv_perm [OF i, of p H] pl by (simp add: perm_def)
    then show ?thesis using 1 pl check_live [OF i p] by (auto simp: bi_free_def store_ok_def keeps_refl)
  next
    case 2
    then show ?thesis using free_last [OF i p] by (simp add: count_eq_zero_iff)
  next
    case 3
    let ?c = "(cells s ! p)\<lparr>refs := refs (cells s ! p) - 1\<rparr>"
    have r: "refs (cells s ! p) = int (count H p) + 1" "int (count H p) + 1 < PERMANENT" "0 < count H p"
      using i p 3 by (auto simp: store_inv_def refs_ok_def)
    have "store_inv (s\<lparr>cells := (cells s)[p := ?c]\<rparr>) H fl al"
      using r by (intro store_inv_set [OF i p]) auto
    then show ?thesis using 3 pl check_live [OF i p] r
      by (auto simp: bi_free_def store_ok_def set_cell_def keeps_def perm_def nth_upd)
  qed
qed

lemma recycle_ok:
  assumes i: "store_inv s H fl al"
  shows "\<exists>t p gl. recycle junk s = Some (t, p) \<and> p < length (cells t) \<and> p \<notin> live s fl \<and>
    linked (cells t) (free_list t) gl \<and> distinct (p # gl) \<and> free_count t = int (length gl) \<and> set gl \<subseteq> set fl \<and>
    live t gl = insert p (live s fl) \<and> length (cells s) \<le> length (cells t) \<and>
    (\<forall>a < length (cells s). cells t ! a = cells s ! a) \<and>
    active_list t = active_list s \<and> active_count t = active_count s \<and> check_level t = check_level s"
proof (cases fl)
  case Nil
  let ?t = "s\<lparr>cells := cells s @ [\<lparr>refs = 0, next_cell = None, body = junk (length (cells s))\<rparr>]\<rparr>"
  have "recycle junk s = Some (?t, length (cells s))" "free_list s = None" "free_count s = 0"
    using i Nil by (simp_all add: recycle_def store_inv_def Let_def)
  moreover have "live ?t [] = insert (length (cells s)) (live s fl)" using Nil by (auto simp: live_def)
  ultimately show ?thesis using Nil by (auto simp: nth_append live_def intro!: exI [of _ "[]"])
next
  case (Cons p gl)
  have p: "free_list s = Some p" "p < length (cells s)" "refs (cells s ! p) = 0"
    using i Cons by (simp_all add: store_inv_def)
  then have "recycle junk s = Some (s\<lparr>free_list := next_cell (cells s ! p), free_count := free_count s - 1\<rparr>, p)"
    by (simp add: recycle_def)
  then show ?thesis using i Cons p by (auto simp: store_inv_def live_def)
qed

lemma alloc_ok:
  assumes "store_ok s H"
  shows "\<exists>t r. alloc junk n s = Some (t, r) \<and> store_ok t (add_mset r H) \<and> keeps s t H \<and> r \<notin># H \<and> \<not> perm t r \<and>
    (\<forall>p. usable s H p \<longrightarrow> p \<noteq> r)"
proof -
  obtain fl al where i: "store_inv s H fl al" using assms by (auto simp: store_ok_def)
  obtain t p gl where t: "recycle junk s = Some (t, p)" "p < length (cells t)" "p \<notin> live s fl"
    "linked (cells t) (free_list t) gl" "distinct (p # gl)" "free_count t = int (length gl)" "set gl \<subseteq> set fl"
    "live t gl = insert p (live s fl)" "length (cells s) \<le> length (cells t)"
    "\<forall>a < length (cells s). cells t ! a = cells s ! a"
    "active_list t = active_list s" "active_count t = active_count s" "check_level t = check_level s"
    using recycle_ok [OF i, of junk] by blast
  let ?c = "\<lparr>refs = 1, next_cell = (if 3 \<le> check_level t then active_list t else None),
    body = (body (cells t ! p))\<lparr>comps := set_comps (comps (body (cells t ! p))) n\<rparr>\<rparr>"
  define u where "u = t\<lparr>cells := (cells t)[p := ?c], active_list := (if 3 \<le> check_level t then Some p else active_list t),
    active_count := active_count t + 1\<rparr>"
  have u: "cells u = (cells t)[p := ?c]" "free_list u = free_list t" "free_count u = free_count t"
    "active_list u = (if 3 \<le> check_level s then Some p else active_list s)" "check_level u = check_level s"
    "active_count u = active_count s + 1" using t(11-13) by (simp_all add: u_def)
  have run: "alloc junk n s = Some (u, p)" using t(1,2) by (simp add: alloc_def set_cell_def u_def)
  have old: "p \<notin># H" "\<not> perm s p" using i t(3) usable_live [OF i, of p] by (auto simp: store_inv_def usable_def)
  have lv: "live u gl = insert p (live s fl)" using t(8) by (simp add: live_def u)
  have in_s: "q < length (cells s)" "q \<noteq> p" "q \<notin> set gl" if "q \<in> live s fl" for q
    using that t(3,7) by (auto simp: live_def)
  have cell: "cells u ! q = cells s ! q" if "q < length (cells s)" "q \<noteq> p" for q
    using that t(10) by (simp add: u nth_upd)
  have "links_ok u (insert p (live s fl)) (p # al)"
  proof (cases "3 \<le> check_level s")
    case True
    then have al: "linked (cells s) (active_list s) al" "distinct al" "set al = live s fl"
      using i by (auto simp: store_inv_def links_ok_def)
    then have "linked (cells u) (active_list s) al"
      using cell in_s t(2,9) by (elim linked_cong) (auto simp: u nth_upd)
    then show ?thesis using al t(2,3,11,13) True by (auto simp: links_ok_def u nth_upd)
  next
    case False
    then show ?thesis using i in_s cell t(2,13)
      by (auto simp: store_inv_def links_ok_def u(5)) (simp add: u nth_upd)
  qed
  moreover have "refs_ok u (add_mset p H) q" if "q \<in> insert p (live s fl)" for q
  proof (cases "q = p")
    case True
    moreover have "count H p = 0" using old(1) by (simp add: count_eq_zero_iff)
    ultimately show ?thesis using t(2) by (simp add: refs_ok_def u nth_upd PERMANENT_def)
  next
    case False
    then have "refs_ok s H q" "cells u ! q = cells s ! q" using that i in_s cell by (auto simp: store_inv_def)
    then show ?thesis using False by (auto simp: refs_ok_def)
  qed
  moreover have "linked (cells u) (free_list u) gl" using t(4,5) by (simp add: u linked_update)
  moreover have "\<forall>q \<in> set gl. refs (cells u ! q) = 0"
  proof
    fix q assume q: "q \<in> set gl"
    then have "q \<in> set fl" "q \<noteq> p" using t(5,7) by auto
    moreover have "q < length (cells s)" using i \<open>q \<in> set fl\<close> linked_bound by (auto simp: store_inv_def)
    ultimately show "refs (cells u ! q) = 0" using i cell by (simp add: store_inv_def)
  qed
  moreover have "int (card (insert p (live s fl))) = active_count u"
    using i t(3) by (simp add: u store_inv_def live_def)
  ultimately have "store_inv u (add_mset p H) gl (p # al)"
    using i t(5,6) by (auto simp: store_inv_def lv u(3))
  moreover have "keeps s u H"
  proof -
    have "perm u q = perm s q" for q
    proof (cases "q < length (cells s) \<and> q \<noteq> p")
      case False
      have "refs (cells u ! q) = 0" if "q < length (cells u)" "q \<noteq> p"
      proof -
        have "q \<notin> live u gl" using that False in_s by (auto simp: lv)
        then show ?thesis using that \<open>\<forall>q \<in> set gl. refs (cells u ! q) = 0\<close> by (auto simp: live_def)
      qed
      then show ?thesis using False old t(2) by (cases "q = p") (auto simp: perm_def PERMANENT_def u nth_upd)
    qed (use cell t(9) in \<open>auto simp: perm_def u nth_upd\<close>)
    moreover have "val u q = val s q" if "usable s H q" for q
      using usable_live [OF i that] in_s cell by simp
    ultimately show ?thesis by (auto simp: keeps_def usable_def)
  qed
  moreover have "\<not> perm u p" using t(2) by (simp add: perm_def u nth_upd PERMANENT_def)
  ultimately show ?thesis using run old by (auto simp: store_ok_def usable_def)
qed

lemma set_body_ok:
  assumes "store_ok s H" "usable s H p"
  shows "\<exists>t. set_body p b s = Some t \<and> store_ok t H \<and> val t p = b \<and> (\<forall>q. q \<noteq> p \<longrightarrow> val t q = val s q) \<and>
    (\<forall>q. perm t q = perm s q)"
proof -
  obtain fl al where i: "store_inv s H fl al" using assms(1) by (auto simp: store_ok_def)
  have p: "p \<in> live s fl" using i assms(2) by (rule usable_live)
  let ?c = "(cells s ! p)\<lparr>body := b\<rparr>"
  have "store_inv (s\<lparr>cells := (cells s)[p := ?c]\<rparr>) H fl al"
    using i p by (intro store_inv_set [OF i p]) (auto simp: store_inv_def refs_ok_def)
  then show ?thesis using p by (auto simp: set_body_def set_cell_def store_ok_def live_def nth_upd perm_def)
qed

text \<open>A reference that its holder owns alone may be written.\<close>

definition sole :: "store \<Rightarrow> nat multiset \<Rightarrow> nat \<Rightarrow> bool" where
  "sole s H r = (r \<notin># H \<and> \<not> perm s r)"

lemma write_ok:
  assumes "store_ok s (add_mset r H)" "sole s H r"
  shows "\<exists>t. set_body r b s = Some t \<and> store_ok t (add_mset r H) \<and> val t r = b \<and> keeps s t H \<and> sole t H r"
proof -
  obtain t where t: "set_body r b s = Some t" "store_ok t (add_mset r H)" "val t r = b"
    "\<forall>q. q \<noteq> r \<longrightarrow> val t q = val s q" "\<forall>q. perm t q = perm s q"
    using set_body_ok [OF assms(1), of r b] by (auto simp: usable_def)
  moreover have "q \<noteq> r" if "usable s H q" for q using that assms(2) by (auto simp: sole_def usable_def)
  ultimately show ?thesis using assms(2) by (auto simp: sole_def keeps_def usable_def)
qed

lemma check_ok: "store_ok s H \<Longrightarrow> usable s H p \<Longrightarrow> check s p = Some () \<and> p < length (cells s)"
  using check_usable usable_live by (fastforce simp: store_ok_def live_def)

lemma clone_ok:
  assumes "store_ok s (add_mset p H)"
  shows "\<exists>t r. clone junk p s = Some (t, r) \<and> store_ok t (add_mset r H) \<and> val t r = val s p \<and> keeps s t H \<and> sole t H r"
proof -
  obtain fl al where i: "store_inv s (add_mset p H) fl al" using assms by (auto simp: store_ok_def)
  have p: "p \<in> live s fl" "p < length (cells s)" "usable s (add_mset p H) p"
    using i by (auto simp: store_inv_def live_def usable_def)
  show ?thesis
  proof (cases "refs (cells s ! p) \<noteq> PERMANENT \<and> refs (cells s ! p) = 1")
    case True
    then have "count (add_mset p H) p = 1" using i p(1) by (auto simp: store_inv_def refs_ok_def)
    then have "p \<notin># H" by (simp add: count_eq_zero_iff)
    then show ?thesis using True p assms by (auto simp: clone_def sole_def perm_def keeps_refl)
  next
    case False
    obtain t r where t: "alloc junk (num_comps (val s p)) s = Some (t, r)" "store_ok t (add_mset r (add_mset p H))"
      "keeps s t (add_mset p H)" "r \<notin># add_mset p H" "\<not> perm t r"
      using alloc_ok [OF assms, of junk] by blast
    obtain u where u: "set_body r (val t p) t = Some u" "store_ok u (add_mset r (add_mset p H))" "val u r = val t p"
      "keeps t u (add_mset p H)" "sole u (add_mset p H) r"
      using write_ok [OF t(2), of "val t p"] t(4,5) by (auto simp: sole_def)
    obtain v where v: "bi_free p u = Some v" "store_ok v (add_mset r H)" "keeps u v (add_mset r H)"
      using free_ok [of u p "add_mset r H"] u(2) by (auto simp: add_mset_commute)
    have "p < length (cells t)" using check_ok [OF t(2), of p] by (simp add: usable_def)
    then have "clone junk p s = Some (v, r)" using False p(2) t(1) u(1) v(1)
      by (cases "refs (cells s ! p) = PERMANENT") (simp_all add: clone_def)
    moreover have "val v r = val s p" using v(3) u(3) t(3) by (simp add: keeps_def)
    moreover have "keeps s v H"
      using keeps_trans [OF keeps_trans [OF t(3) u(4)] v(3)] keeps_trans [OF t(3) u(4), of] v(3)
      by (auto simp: keeps_def)
    moreover have "sole v H r" using u(5) v(3) by (auto simp: sole_def keeps_def)
    ultimately show ?thesis using v(2) by blast
  qed
qed

text \<open>A new reference with the number \<open>v\<close>, for a client that holds \<open>H\<close> besides.\<close>

definition gives_ref :: "(store \<times> nat) option \<Rightarrow> store \<Rightarrow> nat multiset \<Rightarrow> bigint \<Rightarrow> bool" where
  "gives_ref x s H v =
     (\<exists>t r. x = Some (t, r) \<and> store_ok t (add_mset r H) \<and> val t r = v \<and> keeps s t H)"

lemma in_place_ok:
  assumes "store_ok s (add_mset p H)" "f (val s p) = Some b"
  shows "gives_ref (in_place junk f p s) s H b"
proof -
  have c: "check s p = Some ()" using check_ok [OF assms(1), of p] by (simp add: usable_def)
  obtain t r where t: "clone junk p s = Some (t, r)" "store_ok t (add_mset r H)" "val t r = val s p"
    "keeps s t H" "sole t H r" using clone_ok [OF assms(1), of junk] by blast
  obtain u where u: "set_body r b t = Some u" "store_ok u (add_mset r H)" "val u r = b" "keeps t u H"
    using write_ok [OF t(2,5), of b] by blast
  have "check u r = Some ()" "r < length (cells t)"
    using check_ok [OF u(2), of r] check_ok [OF t(2), of r] by (simp_all add: usable_def)
  then show ?thesis using c t u assms(2) keeps_trans [OF t(4) u(4)] by (simp add: in_place_def gives_ref_def)
qed

lemma combine_ok:
  assumes "store_ok s (add_mset p (add_mset q H))" "f (val s p) (val s q) = Some b"
  shows "gives_ref (combine junk f p q s) s H b"
proof -
  have c: "check s p = Some ()" "check s q = Some ()"
    using check_ok [OF assms(1), of p] check_ok [OF assms(1), of q] by (simp_all add: usable_def)
  obtain t r where t: "clone junk p s = Some (t, r)" "store_ok t (add_mset r (add_mset q H))" "val t r = val s p"
    "keeps s t (add_mset q H)" "sole t (add_mset q H) r" using clone_ok [OF assms(1), of junk] by blast
  obtain u where u: "set_body r b t = Some u" "store_ok u (add_mset r (add_mset q H))" "val u r = b"
    "keeps t u (add_mset q H)" using write_ok [OF t(2,5), of b] by blast
  obtain v where v: "bi_free q u = Some v" "store_ok v (add_mset r H)" "keeps u v (add_mset r H)"
    using free_ok [of u q "add_mset r H"] u(2) by (auto simp: add_mset_commute)
  have l: "check v r = Some ()" "r < length (cells t)" "q < length (cells t)"
    using check_ok [OF v(2), of r] check_ok [OF t(2), of r] check_ok [OF t(2), of q] by (simp_all add: usable_def)
  have "val t q = val s q" using t(4) by (simp add: keeps_def)
  then have "combine junk f p q s = Some (v, r)" using c t(1,3) u(1) v(1) l assms(2) by (simp add: combine_def)
  moreover have "val v r = b" using v(3) u(3) by (simp add: keeps_def)
  moreover have "keeps s v H"
    by (rule keeps_trans [OF keeps_trans [OF t(4) u(4)] keeps_mono [OF v(3)]]) auto
  ultimately show ?thesis using v(2) by (simp add: gives_ref_def)
qed

lemma free_two:
  assumes "store_ok s (add_mset p (add_mset q H))"
  shows "\<exists>t u. bi_free p s = Some t \<and> bi_free q t = Some u \<and> store_ok u H \<and> keeps s u H"
proof -
  obtain t where t: "bi_free p s = Some t" "store_ok t (add_mset q H)" "keeps s t (add_mset q H)"
    using free_ok [OF assms] by blast
  obtain u where "bi_free q t = Some u" "store_ok u H" "keeps t u H" using free_ok [OF t(2)] by blast
  then show ?thesis using t keeps_trans [OF t(3), of u H] by fastforce
qed

lemma bi_compare_refl: "bi_compare v v = 0"
proof -
  have "compare_down k xs xs = 0" for k xs by (induction xs) simp_all
  then show ?thesis by (simp add: bi_compare_def)
qed

lemma compare_refs_ok:
  assumes "store_ok s (add_mset p (add_mset q H))"
  shows "\<exists>t. compare_refs p q s = Some (t, bi_compare (val s p) (val s q)) \<and> store_ok t H \<and> keeps s t H"
  using free_two [OF assms] check_ok [OF assms, of p] check_ok [OF assms, of q]
  by (auto simp: compare_refs_def usable_def bi_compare_refl Let_def)

lemma query_ok:
  assumes "store_ok s (add_mset p H)"
  shows "\<exists>t. query f p s = Some (t, f (val s p)) \<and> store_ok t H \<and> keeps s t H"
  using free_ok [OF assms] check_ok [OF assms, of p] by (auto simp: query_def usable_def)

lemma int_to_bi_ref_ok:
  assumes "store_ok s H" "int_to_bi i = Some b"
  shows "gives_ref (int_to_bi_ref junk i s) s H b"
proof -
  obtain t r where t: "alloc junk 1 s = Some (t, r)" "store_ok t (add_mset r H)" "keeps s t H" "r \<notin># H" "\<not> perm t r"
    using alloc_ok [OF assms(1), of junk 1] by blast
  obtain u where u: "set_body r b t = Some u" "store_ok u (add_mset r H)" "val u r = b" "keeps t u H"
    using write_ok [OF t(2), of b] t(4,5) by (auto simp: sole_def)
  have "check u r = Some ()" using check_ok [OF u(2), of r] by (simp add: usable_def)
  then show ?thesis using t u assms(2) keeps_trans [OF t(3) u(4)] by (simp add: int_to_bi_ref_def gives_ref_def)
qed

lemma no_check_ok: "store_ok s H \<Longrightarrow> store_ok (bi_no_check s) H \<and> keeps s (bi_no_check s) H"
  by (auto simp: store_ok_def store_inv_def bi_no_check_def live_def refs_ok_def links_ok_def keeps_def perm_def)

lemma depermanent_ok:
  assumes "store_ok s H" "perm s p" "p \<notin># H"
  shows "\<exists>t. bi_depermanent p s = Some t \<and> store_ok t (add_mset p H) \<and> (\<forall>q. perm t q = (perm s q \<and> q \<noteq> p)) \<and>
    length (cells t) = length (cells s)"
proof -
  obtain fl al where i: "store_inv s H fl al" using assms(1) by (auto simp: store_ok_def)
  have p: "p \<in> live s fl" using i assms(2) usable_live [of s H fl al p] by (simp add: usable_def)
  let ?c = "(cells s ! p)\<lparr>refs := 1\<rparr>"
  have "store_inv (s\<lparr>cells := (cells s)[p := ?c]\<rparr>) (add_mset p H) fl al"
    using assms(3) not_in_iff [of p H] by (intro store_inv_set [OF i p]) (auto simp: PERMANENT_def)
  then show ?thesis using assms(2) check_live [OF i p]
    by (auto simp: bi_depermanent_def set_cell_def perm_def store_ok_def nth_upd PERMANENT_def)
qed

section \<open>Clients\<close>

text \<open>
  A machine on references simulates one on values if each step does; \<open>n\<close> bounds the steps that are left, which
  keeps the counts below the one that marks permanent objects.
\<close>

locale simulation =
  fixes cstep :: "'x \<Rightarrow> 'c \<Rightarrow> 'c option"
    and astep :: "'x \<Rightarrow> 'a \<Rightarrow> 'a option"
    and R :: "nat \<Rightarrow> 'c \<Rightarrow> 'a \<Rightarrow> bool"
  assumes step: "R (Suc n) c a \<Longrightarrow> astep x a = Some b \<Longrightarrow> \<exists>d. cstep x c = Some d \<and> R n d b"
begin

lemma run: "R (length xs + n) c a \<Longrightarrow> foldo astep xs a = Some b \<Longrightarrow> \<exists>d. foldo cstep xs c = Some d \<and> R n d b"
proof (induction xs arbitrary: c a)
  case (Cons x xs)
  then obtain a' where a': "astep x a = Some a'" "foldo astep xs a' = Some b" by (auto simp: bind_eq_Some_conv)
  then obtain c' where "cstep x c = Some c'" "R (length xs + n) c' a'" using step Cons.prems(1) by fastforce
  then show ?case using Cons.IH a'(2) by auto
qed simp

end

lemma mset_drop_nth: "i < length xs \<Longrightarrow> mset xs = add_mset (xs ! i) (mset (drop_nth i xs))"
  using arg_cong [OF id_take_nth_drop [of i xs], of mset] by (simp add: drop_nth_def)

lemma mset_upd: "i < length xs \<Longrightarrow> mset (xs[i := v]) = add_mset v (mset (drop_nth i xs))"
  by (simp add: upd_conv_take_nth_drop drop_nth_def)

lemma map_drop_nth: "map f (drop_nth i xs) = drop_nth i (map f xs)"
  by (simp add: drop_nth_def take_map drop_map)

lemma length_drop_nth: "length (drop_nth i xs) \<le> length xs"
  by (simp add: drop_nth_def)

lemma drop_nth_cong:
  "length xs = length ys \<Longrightarrow> (\<And>k. k < length xs \<Longrightarrow> k \<noteq> i \<Longrightarrow> xs ! k = ys ! k) \<Longrightarrow> drop_nth i xs = drop_nth i ys"
  unfolding drop_nth_def by (intro arg_cong2 [of _ _ _ _ "(@)"] nth_equalityI) auto

lemma in_drop_nth: "k < length xs \<Longrightarrow> k \<noteq> i \<Longrightarrow> xs ! k \<in> set (drop_nth i xs)"
  by (cases "k < i") (force simp: drop_nth_def in_set_conv_nth, auto simp: drop_nth_def in_set_conv_nth intro!: exI [of _ "k - Suc i"])

text \<open>Two consumed slots, and what is left.\<close>

lemma mset_two:
  fixes xs :: "nat list"
  assumes "i < length xs" "j < length xs" "i \<noteq> j"
  shows "\<exists>M. mset xs = add_mset (xs ! i) (add_mset (xs ! j) M) \<and>
    (\<forall>v. mset (drop_nth j (xs[i := v])) = add_mset v M) \<and>
    (\<forall>k < length xs. k \<noteq> i \<longrightarrow> k \<noteq> j \<longrightarrow> xs ! k \<in># M)"
proof -
  have "xs ! j \<in># mset (drop_nth i xs)" using assms in_drop_nth [of j xs i] by simp
  then obtain M where M: "mset (drop_nth i xs) = add_mset (xs ! j) M" by (meson multi_member_split)
  have drop: "mset (drop_nth j (xs[i := v])) = add_mset v M" for v
    using mset_drop_nth [of j "xs[i := v]"] mset_upd [OF assms(1), of v] M assms by (simp add: add_mset_commute)
  moreover have "xs ! k \<in># M" if k: "k < length xs" "k \<noteq> i" "k \<noteq> j" for k
    using in_drop_nth [of k "xs[i := Suc (xs ! k)]" j] k drop [of "Suc (xs ! k)"]
    by (simp flip: set_mset_mset)
  ultimately show ?thesis using mset_drop_nth [OF assms(1)] M by auto
qed

subsection \<open>References are values\<close>

text \<open>The permanent objects are the constants.\<close>

definition consts_ok :: "store \<Rightarrow> bool" where
  "consts_ok s =
     ((\<forall>p. perm s p = (p < length const_ints)) \<and>
      (\<forall>k < length const_ints. int_to_bi (const_ints ! k) = Some (val s k)))"

lemma consts_keep: "consts_ok s \<Longrightarrow> keeps s t H \<Longrightarrow> consts_ok t"
  by (simp add: consts_ok_def keeps_def)

definition holds :: "nat \<Rightarrow> store \<times> nat list \<times> int list \<Rightarrow> bigint list \<times> int list \<Rightarrow> bool" where
  "holds n c a =
     (case (c, a) of ((s, ps, out), (vs, out')) \<Rightarrow>
        store_ok s (mset ps) \<and> consts_ok s \<and> map (val s) ps = vs \<and> out = out' \<and>
        int (length ps + n) + 2 < PERMANENT)"

lemma keeps_vals: "keeps s t (mset ps) \<Longrightarrow> map (val t) ps = map (val s) ps"
  by (simp add: keeps_def)

lemma gives_refE:
  assumes "gives_ref x s H v"
  obtains t r where "x = Some (t, r)" "store_ok t (add_mset r H)" "val t r = v" "keeps s t H"
  using assms by (auto simp: gives_ref_def)

lemma copy_slot:
  assumes "store_ok s H" "p \<in># H" "int (size H) + 1 < PERMANENT"
  shows "\<exists>t. bi_copy p s = Some t \<and> store_ok t (add_mset p H) \<and> keeps s t (add_mset p H)"
proof -
  have "int (count H p) + 1 < PERMANENT" using count_le_size [of H p] assms(3) by linarith
  then show ?thesis using copy_ok assms(1,2) by (simp add: usable_def)
qed

lemma store_step_ok:
  assumes "holds (Suc n) c a" "value_step x a = Some b"
  shows "\<exists>d. store_step junk x c = Some d \<and> holds n d b"
proof -
  obtain s ps out vs where ca: "c = (s, ps, out)" "a = (vs, out)" by (cases c; cases a) (use assms(1) in \<open>auto simp: holds_def\<close>)
  have h: "store_ok s (mset ps)" "consts_ok s" "map (val s) ps = vs" "int (length ps) + int n + 3 < PERMANENT"
    using assms(1) by (auto simp: holds_def ca)
  have len: "length vs = length ps" using h(3) by auto
  have at: "rd ps i = Some (ps ! i)" "val s (ps ! i) = v" "ps ! i \<in># mset ps" "i < length ps" if "rd vs i = Some v" for i v
    using that h(3) len by (auto dest!: rd_SomeD)
  show ?thesis
  proof (cases x)
    case (Const k)
    then obtain i v where v: "rd const_ints k = Some i" "int_to_bi i = Some v" "b = (vs @ [v], out)"
      using assms(2) by (auto simp: ca bind_eq_Some_conv)
    then have k: "perm s k" "val s k = v" using h(2) by (auto simp: consts_ok_def dest!: rd_SomeD)
    obtain fl al where i: "store_inv s (mset ps) fl al" using h(1) by (auto simp: store_ok_def)
    have "store_ok s (add_mset k (mset ps))"
      using store_inv_perm [OF i k(1), of "add_mset k (mset ps)"] by (auto simp: store_ok_def)
    then show ?thesis using v k h by (auto simp: Const ca holds_def)
  next
    case (FromInt i)
    then obtain v where v: "int_to_bi i = Some v" "b = (vs @ [v], out)"
      using assms(2) by (auto simp: ca bind_eq_Some_conv)
    obtain t r where t: "int_to_bi_ref junk i s = Some (t, r)" "store_ok t (add_mset r (mset ps))" "val t r = v"
      "keeps s t (mset ps)" using int_to_bi_ref_ok [OF h(1) v(1)] by (rule gives_refE)
    then show ?thesis using v h consts_keep [OF h(2) t(4)] keeps_vals [OF t(4)]
      by (auto simp: FromInt ca holds_def)
  next
    case (Copy i)
    then obtain v where v: "rd vs i = Some v" "b = (vs @ [v], out)" using assms(2) by (auto simp: ca bind_eq_Some_conv)
    note a = at [OF v(1)]
    obtain t where t: "bi_copy (ps ! i) s = Some t" "store_ok t (add_mset (ps ! i) (mset ps))"
      "keeps s t (add_mset (ps ! i) (mset ps))" using copy_slot [OF h(1) a(3)] h(4) by auto
    then have k: "keeps s t (mset ps)" by (auto elim: keeps_mono)
    have "val t (ps ! i) = v" using t(3) a(2) by (simp add: keeps_def)
    then show ?thesis using t v a h consts_keep [OF h(2) k] keeps_vals [OF k] by (auto simp: Copy ca holds_def)
  next
    case (Free i)
    then obtain v where v: "rd vs i = Some v" "b = (drop_nth i vs, out)"
      using assms(2) by (auto simp: ca bind_eq_Some_conv)
    note a = at [OF v(1)]
    obtain t where t: "bi_free (ps ! i) s = Some t" "store_ok t (mset (drop_nth i ps))" "keeps s t (mset (drop_nth i ps))"
      using free_ok [of s "ps ! i" "mset (drop_nth i ps)"] h(1) mset_drop_nth [OF a(4)] by auto
    then show ?thesis
      using v a h consts_keep [OF h(2) t(3)] keeps_vals [OF t(3)] length_drop_nth [of i ps]
      by (auto simp: Free ca holds_def map_drop_nth)
  next
    case (Unary f i)
    then obtain v w where v: "rd vs i = Some v" "unary_value f v = Some w" "b = (vs[i := w], out)"
      using assms(2) by (auto simp: ca bind_eq_Some_conv)
    note a = at [OF v(1)]
    obtain t r where t: "in_place junk (unary_value f) (ps ! i) s = Some (t, r)"
      "store_ok t (add_mset r (mset (drop_nth i ps)))" "val t r = w" "keeps s t (mset (drop_nth i ps))"
      using in_place_ok [of s "ps ! i" "mset (drop_nth i ps)" "unary_value f" w junk] h(1) mset_drop_nth [OF a(4)] v(2) a(2)
      by (auto elim: gives_refE)
    have "map (val t) (ps[i := r]) = vs[i := w]"
      using h(3) t(3) keeps_vals [OF t(4)] in_drop_nth [of _ ps i] t(4) len
      by (intro nth_equalityI) (auto simp: nth_upd keeps_def)
    then show ?thesis using t v a h consts_keep [OF h(2) t(4)]
      by (auto simp: Unary ca holds_def mset_upd)
  next
    case (Binary f i j)
    then obtain v w u where v: "rd vs i = Some v" "rd vs j = Some w" "binary_value f v w = Some u" "i \<noteq> j"
      "b = (drop_nth j (vs[i := u]), out)" using assms(2) by (auto simp: ca bind_eq_Some_conv split: if_splits)
    note a = at [OF v(1)] at [OF v(2)]
    obtain M where M: "mset ps = add_mset (ps ! i) (add_mset (ps ! j) M)"
      "\<And>v. mset (drop_nth j (ps[i := v])) = add_mset v M"
      "\<And>k. k < length ps \<Longrightarrow> k \<noteq> i \<Longrightarrow> k \<noteq> j \<Longrightarrow> ps ! k \<in># M"
      using mset_two [OF a(4,8) v(4)] by blast
    obtain t r where t: "combine junk (binary_value f) (ps ! i) (ps ! j) s = Some (t, r)" "store_ok t (add_mset r M)"
      "val t r = u" "keeps s t M"
      using combine_ok [of s "ps ! i" "ps ! j" M "binary_value f" u junk] h(1) v(3) a M(1) by (auto elim: gives_refE)
    have "drop_nth j (map (val t) (ps[i := r])) = drop_nth j (vs[i := u])"
      using h(3) t(3,4) M(3) len by (intro drop_nth_cong) (auto simp: nth_upd keeps_def)
    then show ?thesis using t v a h consts_keep [OF h(2) t(4)] M(2) length_drop_nth [of j "ps[i := r]"]
      by (auto simp: Binary ca holds_def map_drop_nth)
  next
    case (Compare i j)
    then obtain v w where v: "rd vs i = Some v" "rd vs j = Some w" "b = (vs, out @ [bi_compare v w])"
      using assms(2) by (auto simp: ca bind_eq_Some_conv)
    note a = at [OF v(1)] at [OF v(2)]
    obtain t where t: "bi_copy (ps ! i) s = Some t" "store_ok t (add_mset (ps ! i) (mset ps))"
      "keeps s t (add_mset (ps ! i) (mset ps))" using copy_slot [OF h(1) a(3)] h(4) by auto
    obtain u where u: "bi_copy (ps ! j) t = Some u" "store_ok u (add_mset (ps ! j) (add_mset (ps ! i) (mset ps)))"
      "keeps t u (add_mset (ps ! j) (add_mset (ps ! i) (mset ps)))"
      using copy_slot [OF t(2), of "ps ! j"] a(7) h(4) by auto
    have e: "val u (ps ! i) = v" "val u (ps ! j) = w" using t(3) u(3) a by (auto simp: keeps_def)
    obtain y where y: "compare_refs (ps ! i) (ps ! j) u = Some (y, bi_compare v w)" "store_ok y (mset ps)" "keeps u y (mset ps)"
      using compare_refs_ok [of u "ps ! i" "ps ! j" "mset ps"] u(2) e by (auto simp: add_mset_commute)
    have "keeps s t (mset ps)" "keeps t u (mset ps)" using t(3) u(3) by (auto elim: keeps_mono)
    then have k: "keeps s y (mset ps)" using keeps_trans [OF keeps_trans y(3)] by blast
    show ?thesis using t(1) u(1) y a h v consts_keep [OF h(2) k] keeps_vals [OF k] by (auto simp: Compare ca holds_def)
  next
    case (IsZero i)
    then obtain v where v: "rd vs i = Some v" "b = (vs, out @ [of_bool (bi_is_zero v)])"
      using assms(2) by (auto simp: ca bind_eq_Some_conv)
    note a = at [OF v(1)]
    obtain t where t: "bi_copy (ps ! i) s = Some t" "store_ok t (add_mset (ps ! i) (mset ps))"
      "keeps s t (add_mset (ps ! i) (mset ps))" using copy_slot [OF h(1) a(3)] h(4) by auto
    obtain y where y: "query (\<lambda>v. of_bool (bi_is_zero v)) (ps ! i) t = Some (y, of_bool (bi_is_zero v))"
      "store_ok y (mset ps)" "keeps t y (mset ps)"
      using query_ok [OF t(2), of "\<lambda>v. of_bool (bi_is_zero v)"] t(3) a(2) by (auto simp: keeps_def)
    have k: "keeps s y (mset ps)" using t(3) y(3) by (rule keeps_trans) auto
    show ?thesis using t(1) y a h v consts_keep [OF h(2) k] keeps_vals [OF k] by (auto simp: IsZero ca holds_def)
  next
    case NoCheck
    then show ?thesis
      using assms(2) no_check_ok [OF h(1)] h consts_keep [OF h(2)] keeps_vals [of s "bi_no_check s" ps]
      by (auto simp: ca holds_def)
  qed
qed

interpretation client: simulation "store_step junk" value_step holds
  by unfold_locales (rule store_step_ok)

lemma initialized:
  "bi_initialize junk = Some
    \<lparr>cells = map (\<lambda>k. \<lparr>refs = PERMANENT, next_cell = (if k = 0 then None else Some (k - 1)),
         body = the (int_to_bi (const_ints ! k))\<rparr>) [0..<7],
     free_list = None, active_list = Some 6, free_count = 0, active_count = 7, check_level = 3\<rparr>"
  by code_simp

lemma consts_normal: "list_all (\<lambda>i. int_to_bi i \<noteq> None) const_ints"
  by code_simp

lemma initialize_ok: "\<exists>s. bi_initialize junk = Some s \<and> store_ok s {#} \<and> consts_ok s"
proof -
  define s where "s = \<lparr>cells = map (\<lambda>k. \<lparr>refs = PERMANENT, next_cell = (if k = 0 then None else Some (k - 1)),
         body = the (int_to_bi (const_ints ! k))\<rparr>) [0..<7],
     free_list = None, active_list = Some 6, free_count = 0, active_count = 7, check_level = 3\<rparr>"
  have c: "cells s ! k = \<lparr>refs = PERMANENT, next_cell = (if k = 0 then None else Some (k - 1)),
      body = the (int_to_bi (const_ints ! k))\<rparr>" if "k < 7" for k using that by (simp add: s_def)
  have l: "live s [] = {..<7}" "length (cells s) = 7" by (simp_all add: live_def s_def)
  have "linked (cells s) (Some 6) [6, 5, 4, 3, 2, 1, 0]" using c l by simp
  moreover have "set [6, 5, 4, 3, 2, 1, 0] = {..<7 :: nat}" by auto
  ultimately have "links_ok s (live s []) [6, 5, 4, 3, 2, 1, 0]" by (simp add: links_ok_def l) (simp add: s_def)
  then have "store_inv s {#} [] [6, 5, 4, 3, 2, 1, 0]"
    using c by (simp add: store_inv_def l refs_ok_def) (simp add: s_def)
  moreover have "consts_ok s"
    using c l consts_normal by (auto simp: consts_ok_def perm_def const_ints_def list_all_length)
  ultimately show ?thesis using initialized [of junk] by (auto simp: store_ok_def s_def)
qed

lemma session_holds:
  assumes "foldo value_step cmds ([], []) = Some (vs, out)" "length cmds < 123456780"
  shows "\<exists>s0 s ps. bi_initialize junk = Some s0 \<and> foldo (store_step junk) cmds (s0, [], []) = Some (s, ps, out) \<and>
    store_ok s (mset ps) \<and> consts_ok s \<and> map (val s) ps = vs"
proof -
  obtain s0 where s0: "bi_initialize junk = Some s0" "store_ok s0 {#}" "consts_ok s0" using initialize_ok by blast
  then have "holds (length cmds + 0) (s0, [], []) ([], [])" using assms(2) by (simp add: holds_def PERMANENT_def)
  then obtain d where "foldo (store_step junk) cmds (s0, [], []) = Some d" "holds 0 d (vs, out)"
    using client.run assms(1) by blast
  then show ?thesis using s0(1) by (cases d) (auto simp: holds_def)
qed

lemma release_constants:
  assumes "store_ok s {#}" "\<And>p. perm s p = (k \<le> p \<and> p < n)" "k \<le> n"
  shows "\<exists>t. foldo (\<lambda>p s. do { s \<leftarrow> bi_depermanent p s; bi_free p s }) [k..<n] s = Some t \<and> store_ok t {#} \<and>
    (\<forall>p. \<not> perm t p) \<and> length (cells t) = length (cells s)"
  using assms
proof (induction "n - k" arbitrary: k s)
  case (Suc m)
  then have k: "[k..<n] = k # [Suc k..<n]" "perm s k" by (simp_all add: upt_conv_Cons)
  obtain t where t: "bi_depermanent k s = Some t" "store_ok t {#k#}" "\<And>q. perm t q = (perm s q \<and> q \<noteq> k)"
    "length (cells t) = length (cells s)" using depermanent_ok [OF Suc.prems(1) k(2)] by auto
  obtain u where u: "bi_free k t = Some u" "store_ok u {#}" "keeps t u {#}"
    "length (cells u) = length (cells t)" using free_ok [OF t(2)] by blast
  have "perm u q = (Suc k \<le> q \<and> q < n)" for q using u(3) t(3) Suc.prems(2) by (auto simp: keeps_def)
  then show ?case using Suc.hyps(1) [of "Suc k" u] Suc.hyps(2) Suc.prems(3) t(1,4) u(1,2,4) by (simp add: k(1))
qed simp

lemma terminate_ok:
  assumes "store_ok s {#}" "consts_ok s"
  shows "\<exists>qs. bi_terminate s = Some (0, qs) \<and> distinct qs \<and> set qs = {..<length (cells s)}"
proof -
  obtain t where t: "foldo (\<lambda>p s. do { s \<leftarrow> bi_depermanent p s; bi_free p s }) [0..<length const_ints] s = Some t"
    "store_ok t {#}" "\<And>p. \<not> perm t p" "length (cells t) = length (cells s)"
    using release_constants [of s 0 "length const_ints"] assms by (auto simp: consts_ok_def)
  then obtain fl al where i: "store_inv t {#} fl al" by (auto simp: store_ok_def)
  have "live t fl = {}"
    using i t(3) by (auto simp: store_inv_def refs_ok_def perm_def live_def)
  then have fl: "set fl = {..<length (cells t)}" "distinct fl" "freed t (free_list t) = Some fl" "active_count t = 0"
    "double_check t = Some ()"
    using i linked_bound [of "cells t" "free_list t" fl] freed_linked [of t "free_list t" fl]
      free_walk_linked [of t "free_list t" fl 0]
    by (auto simp: store_inv_def live_def double_check_def)
  have "active_list t = None" if "3 \<le> check_level t" using that i \<open>live t fl = {}\<close>
    by (auto simp: store_inv_def links_ok_def)
  then have "(if 3 \<le> check_level t then triple_check t else Some ()) = Some ()"
    "(if 3 \<le> check_level t then freed t (active_list t) else Some []) = Some []"
    using fl(4) by (simp_all add: triple_check_def active_walk.simps freed.simps)
  then have "bi_terminate s = Some (0, fl)" using t(1) fl by (simp add: bi_terminate_def)
  then show ?thesis using fl(1,2) t(4) by auto
qed

section \<open>Properties\<close>

text \<open>
  C9. A client that holds references sees values. Whatever it builds, copies, frees, changes and compares, with the
  checks at level three or switched off on the way, no check fails, and its references hold the numbers, and its
  comparisons return the results, that the same commands give on values: changing an object in place, sharing it and
  recycling it are not observable.
\<close>

theorem references_are_values:
  assumes "foldo value_step cmds ([], []) = Some (vs, out)" "length cmds < 123456780"
  shows "\<exists>s0 s ps. bi_initialize junk = Some s0 \<and> foldo (store_step junk) cmds (s0, [], []) = Some (s, ps, out) \<and>
    map (\<lambda>p. body (cells s ! p)) ps = vs"
  using session_holds [OF assms, of junk] by blast

theorem references_are_values_witness:
  "\<exists>s0 s ps. bi_initialize (\<lambda>p. \<lparr>sign = 5, comps = [7]\<rparr>) = Some s0 \<and>
    foldo (store_step (\<lambda>p. \<lparr>sign = 5, comps = [7]\<rparr>))
      [FromInt 5, Copy 0, Unary Negate 0, Free 1, FromInt 9, Const 3, Binary Subtract 0 2, Compare 0 1] (s0, [], []) =
      Some (s, ps, [- 1]) \<and>
    map (\<lambda>p. body (cells s ! p)) ps = [\<lparr>sign = - 1, comps = [8]\<rparr>, \<lparr>sign = 1, comps = [9]\<rparr>]"
proof (rule references_are_values)
  show "foldo value_step
      [FromInt 5, Copy 0, Unary Negate 0, Free 1, FromInt 9, Const 3, Binary Subtract 0 2, Compare 0 1] ([], []) =
    Some ([\<lparr>sign = - 1, comps = [8]\<rparr>, \<lparr>sign = 1, comps = [9]\<rparr>], [- 1])" by code_simp
qed simp

text \<open>
  C10. Nothing leaks and nothing is freed twice: when a client has consumed all its references, the library ends with
  no number reported as un-freed, and the memory of every object that was ever allocated is freed once.
\<close>

theorem terminate_frees_all:
  assumes "foldo value_step cmds ([], []) = Some ([], out)" "length cmds < 123456780"
  shows "\<exists>s0 s qs. bi_initialize junk = Some s0 \<and> foldo (store_step junk) cmds (s0, [], []) = Some (s, [], out) \<and>
    bi_terminate s = Some (0, qs) \<and> distinct qs \<and> set qs = {..<length (cells s)}"
proof -
  obtain s0 s where "bi_initialize junk = Some s0" "foldo (store_step junk) cmds (s0, [], []) = Some (s, [], out)"
    "store_ok s {#}" "consts_ok s" using session_holds [OF assms, of junk] by auto
  then show ?thesis using terminate_ok by blast
qed

theorem terminate_frees_all_witness:
  "\<exists>s0 s qs. bi_initialize (\<lambda>p. \<lparr>sign = 5, comps = [7]\<rparr>) = Some s0 \<and>
    foldo (store_step (\<lambda>p. \<lparr>sign = 5, comps = [7]\<rparr>)) [FromInt 5, Copy 0, Unary Double 0, Binary Add 0 1, Free 0]
      (s0, [], []) = Some (s, [], []) \<and>
    bi_terminate s = Some (0, qs) \<and> distinct qs \<and> set qs = {..<length (cells s)}"
proof (rule terminate_frees_all)
  show "foldo value_step [FromInt 5, Copy 0, Unary Double 0, Binary Add 0 1, Free 0] ([], []) = Some ([], [])"
    by code_simp
qed simp

end
