(* ===== verification/Pcg.thy ===== *)
theory Pcg
  imports Prelude
begin

text \<open>
  The random number generator of \<open>math/pcg-c-basic\<close>: a linear congruential generator on 64 bits whose old state
  is shuffled to 32 bits of output. The theorems are what the comments of \<open>pcg_basic.c\<close> claim: every state is
  reached, over a period each output occurs equally often, the loop of \<open>pcg32_boundedrand_r\<close> ends, and its
  results are unbiased.
\<close>

section \<open>Definitions\<close>

record pcg32_random_t =
  state :: u64
  inc :: u64

definition PCG32_INITIALIZER :: pcg32_random_t where
  "PCG32_INITIALIZER = \<lparr>state = 0x853c49e6748fea9b, inc = 0xda3e39cb94b95bdb\<rparr>"

definition pcg32_random_r :: "pcg32_random_t \<Rightarrow> u32 \<times> pcg32_random_t" where
  "pcg32_random_r rng =
     (let oldstate = state rng;
          rng = rng\<lparr>state := oldstate * 6364136223846793005 + inc rng\<rparr>;
          xorshifted = ucast (drop_bit 27 (drop_bit 18 oldstate XOR oldstate)) :: u32;
          rot = ucast (drop_bit 59 oldstate) :: u32
      in (drop_bit (unat rot) xorshifted OR push_bit (unat ((- rot) AND 31)) xorshifted, rng))"

definition pcg32_srandom_r :: "pcg32_random_t \<Rightarrow> u64 \<Rightarrow> u64 \<Rightarrow> pcg32_random_t" where
  "pcg32_srandom_r rng initstate initseq =
     (let rng = rng\<lparr>state := 0, inc := push_bit 1 initseq OR 1\<rparr>;
          rng = snd (pcg32_random_r rng);
          rng = rng\<lparr>state := state rng + initstate\<rparr>
      in snd (pcg32_random_r rng))"

text \<open>The loop of \<open>pcg32_boundedrand_r\<close>. \<open>None\<close> is a loop that does not end, or a division by a bound of zero.\<close>

partial_function (option) boundedrand_loop ::
    "u32 \<Rightarrow> u32 \<Rightarrow> pcg32_random_t \<Rightarrow> (u32 \<times> pcg32_random_t) option" where
  "boundedrand_loop threshold bound rng =
     (let (r, rng) = pcg32_random_r rng in
      if threshold \<le> r then Some (r mod bound, rng) else boundedrand_loop threshold bound rng)"

definition pcg32_boundedrand_r :: "pcg32_random_t \<Rightarrow> u32 \<Rightarrow> (u32 \<times> pcg32_random_t) option" where
  "pcg32_boundedrand_r rng bound =
     (if bound = 0 then None
      else (let threshold = - bound mod bound in boundedrand_loop threshold bound rng))"

text \<open>The functions on \<open>pcg32_global\<close>, which is passed and returned.\<close>

definition pcg32_srandom :: "u64 \<Rightarrow> u64 \<Rightarrow> pcg32_random_t \<Rightarrow> pcg32_random_t" where
  "pcg32_srandom seed seq pcg32_global = pcg32_srandom_r pcg32_global seed seq"

definition pcg32_random :: "pcg32_random_t \<Rightarrow> u32 \<times> pcg32_random_t" where
  "pcg32_random pcg32_global = pcg32_random_r pcg32_global"

definition pcg32_boundedrand :: "u32 \<Rightarrow> pcg32_random_t \<Rightarrow> (u32 \<times> pcg32_random_t) option" where
  "pcg32_boundedrand bound pcg32_global = pcg32_boundedrand_r pcg32_global bound"

declare boundedrand_loop.simps [code]

section \<open>The period\<close>

text \<open>The generator after one draw.\<close>

definition advance :: "pcg32_random_t \<Rightarrow> pcg32_random_t" where
  "advance rng = snd (pcg32_random_r rng)"

abbreviation drawn :: "pcg32_random_t \<Rightarrow> u32" where
  "drawn rng \<equiv> fst (pcg32_random_r rng)"

lemma advance_eq: "advance rng = rng\<lparr>state := state rng * 6364136223846793005 + inc rng\<rparr>"
  by (simp add: advance_def pcg32_random_r_def Let_def)

lemma inc_advance [simp]: "inc ((advance ^^ n) rng) = inc rng"
  by (induction n) (simp_all add: advance_eq)

lemma affine_mod: "(a * (y mod m) + c) mod m = (a * y + c) mod m" for a :: int
  by (metis mod_add_left_eq mod_mult_right_eq)

lemma state_unfolded:
  "uint (state ((advance ^^ n) rng)) =
   ((\<lambda>x. 6364136223846793005 * x + uint (inc rng)) ^^ n) (uint (state rng)) mod 2 ^ 64"
proof (induction n)
  case (Suc n)
  have "uint (state ((advance ^^ Suc n) rng)) =
      (6364136223846793005 * uint (state ((advance ^^ n) rng)) + uint (inc rng)) mod 2 ^ 64"
    by (simp add: advance_eq [of "(advance ^^ n) rng"] uint_word_ariths mod_simps mult.commute)
  then show ?case unfolding Suc affine_mod by simp
next
  case 0
  show ?case using unsigned_less [of "state rng", where ?'a = int] by simp
qed

text \<open>An iterated affine map is affine; a power of two of steps moves a state by as much, modulo twice that.\<close>

lemma affine_power2:
  fixes a c :: int
  assumes "4 dvd a - 1" "odd c"
  shows "\<exists>A d. (\<forall>x. ((\<lambda>x. a * x + c) ^^ 2 ^ k) x = A * x + 2 ^ k * d) \<and> 2 ^ (k + 2) dvd A - 1 \<and> odd d"
proof (induction k)
  case 0
  show ?case using assms by (intro exI [of _ a] exI [of _ c]) simp
next
  case (Suc k)
  then obtain A d where A: "\<And>x. ((\<lambda>x. a * x + c) ^^ 2 ^ k) x = A * x + 2 ^ k * d" "2 ^ (k + 2) dvd A - 1" "odd d"
    by blast
  obtain e where e: "A = 1 + 2 ^ (k + 2) * e" using A(2) by (metis add_diff_cancel_left' diff_add_cancel dvdE add.commute)
  have half: "A + 1 = 2 * (1 + 2 ^ (k + 1) * e)" by (simp add: e)
  have "((\<lambda>x. a * x + c) ^^ 2 ^ Suc k) x = (A * A) * x + 2 ^ Suc k * (d * (1 + 2 ^ (k + 1) * e))" for x
  proof -
    have "((\<lambda>x. a * x + c) ^^ 2 ^ Suc k) x = A * (A * x + 2 ^ k * d) + 2 ^ k * d"
      by (simp add: A(1) funpow_add mult_2)
    also have "\<dots> = (A * A) * x + 2 ^ k * d * (A + 1)" by (simp add: algebra_simps)
    finally show ?thesis unfolding half by (simp add: algebra_simps)
  qed
  moreover have "2 ^ (Suc k + 2) dvd A * A - 1"
  proof -
    have "A * A - 1 = (A - 1) * (A + 1)" by (simp add: algebra_simps)
    also have "\<dots> = 2 ^ (Suc k + 2) * (e * (1 + 2 ^ (k + 1) * e))" unfolding half by (simp add: e)
    finally show ?thesis by simp
  qed
  moreover have "odd (d * (1 + 2 ^ (k + 1) * e))" using A(3) by simp
  ultimately show ?case by blast
qed

lemma affine_steps:
  fixes a c :: int
  assumes "4 dvd a - 1" "odd c"
  shows "(((\<lambda>x. a * x + c) ^^ (2 ^ k * m)) x) mod 2 ^ (k + 1) = (x + int m * 2 ^ k) mod 2 ^ (k + 1)"
proof (induction m)
  case (Suc m)
  let ?g = "\<lambda>x. a * x + c"
  obtain A d where A: "\<And>x. (?g ^^ 2 ^ k) x = A * x + 2 ^ k * d" "2 ^ (k + 2) dvd A - 1" "odd d"
    using affine_power2 [OF assms, of k] by blast
  have step: "(?g ^^ 2 ^ k) y mod 2 ^ (k + 1) = (y + 2 ^ k) mod 2 ^ (k + 1)" for y
  proof -
    have "2 ^ (k + 1) dvd (A - 1) * y" 
      by (rule dvd_mult2, rule dvd_trans [OF le_imp_power_dvd A(2)]) simp
    moreover have "2 ^ (k + 1) dvd 2 ^ k * (d - 1)" using A(3) by simp
    ultimately have "2 ^ (k + 1) dvd (A * y + 2 ^ k * d) - (y + 2 ^ k)"
      using dvd_add [of "2 ^ (k + 1)" "(A - 1) * y" "2 ^ k * (d - 1)"] by (simp add: algebra_simps)
    then show ?thesis by (simp only: A(1) mod_eq_dvd_iff)
  qed
  have "(?g ^^ (2 ^ k * Suc m)) x = (?g ^^ 2 ^ k) ((?g ^^ (2 ^ k * m)) x)" by (simp add: funpow_add)
  then have "(?g ^^ (2 ^ k * Suc m)) x mod 2 ^ (k + 1) = ((?g ^^ (2 ^ k * m)) x + 2 ^ k) mod 2 ^ (k + 1)"
    by (simp only: step)
  also have "\<dots> = (x + int m * 2 ^ k + 2 ^ k) mod 2 ^ (k + 1)" using Suc by (metis mod_add_left_eq)
  finally show ?case by (simp add: algebra_simps)
qed simp

lemma odd_part: "0 < n \<Longrightarrow> \<exists>k m :: nat. n = 2 ^ k * m \<and> odd m"
proof (induction n rule: less_induct)
  case (less n)
  show ?case
  proof (cases "odd n")
    case False
    then obtain h where h: "n = 2 * h" by blast
    then have "h < n" "0 < h" using less.prems by auto
    then obtain k m where "h = 2 ^ k * m" "odd m" using less.IH by blast
    then show ?thesis using h by (intro exI [of _ "Suc k"] exI [of _ m]) simp
  qed (auto intro: exI [of _ 0])
qed

lemma even_uint: "even (uint w) = even w" for w :: u64
  using bit_uint_iff [of w 0] by (simp only: bit_0) simp

lemma no_return:
  assumes "odd (inc rng)" "0 < n" "n < 2 ^ 64"
  shows "state ((advance ^^ n) rng) \<noteq> state rng"
proof
  assume eq: "state ((advance ^^ n) rng) = state rng"
  obtain k m where n: "n = 2 ^ k * m" "odd m" using odd_part [OF assms(2)] by blast
  have "2 ^ k < (2 :: nat) ^ 64" using assms(2,3) n(1) by (metis le_less_trans dvd_imp_le dvd_triv_left)
  then have k: "k < 64" by (rule power_less_imp_less_exp [rotated]) simp
  let ?g = "\<lambda>x. 6364136223846793005 * x + uint (inc rng)"
  have "odd (uint (inc rng))" using assms(1) by (simp add: even_uint)
  then have "((?g ^^ n) (uint (state rng))) mod 2 ^ (k + 1) = (uint (state rng) + int m * 2 ^ k) mod 2 ^ (k + 1)"
    unfolding n(1) by (intro affine_steps) simp_all
  moreover have "((?g ^^ n) (uint (state rng))) mod 2 ^ (k + 1) = uint (state rng) mod 2 ^ (k + 1)"
  proof -
    have "(2 :: int) ^ (k + 1) dvd 2 ^ 64" using k by (intro le_imp_power_dvd) simp
    then have "((?g ^^ n) (uint (state rng))) mod 2 ^ (k + 1) =
        ((?g ^^ n) (uint (state rng))) mod 2 ^ 64 mod 2 ^ (k + 1)" by (simp only: mod_mod_cancel)
    then show ?thesis by (simp only: state_unfolded [symmetric] eq)
  qed
  ultimately have "2 ^ (k + 1) dvd int m * 2 ^ k" by (metis mod_eq_dvd_iff add_diff_cancel_left')
  then have "2 dvd int m" by simp
  then show False using n(2) by simp
qed

lemma funpow_split: "(f ^^ (i + j)) x = (f ^^ j) ((f ^^ i) x)"
  by (metis add.commute comp_apply funpow_add)

lemma states_distinct:
  assumes "odd (inc rng)"
  shows "inj_on (\<lambda>n. state ((advance ^^ n) rng)) {..<2 ^ 64}"
proof (rule linorder_inj_onI')
  fix i j :: nat assume ij: "i \<in> {..<2 ^ 64}" "j \<in> {..<2 ^ 64}" "i < j"
  have "j - i < 2 ^ 64" using ij by (meson lessThan_iff less_imp_diff_less)
  then show "state ((advance ^^ i) rng) \<noteq> state ((advance ^^ j) rng)"
    using no_return [of "(advance ^^ i) rng" "j - i"] assms ij(3) funpow_split [where f = advance and i = i and j = "j - i" and x = rng] by auto
qed

lemma states_all:
  assumes "odd (inc rng)"
  shows "(\<lambda>n. state ((advance ^^ n) rng)) ` {..<2 ^ 64} = UNIV"
proof (rule card_subset_eq)
  show "card ((\<lambda>n. state ((advance ^^ n) rng)) ` {..<2 ^ 64}) = card (UNIV :: u64 set)"
    by (simp only: card_image [OF states_distinct [OF assms]] card_lessThan card_word len_num1 len_bit0) simp
qed simp_all

section \<open>The distribution of the output\<close>

definition xorshifted :: "u64 \<Rightarrow> u32" where
  "xorshifted s = ucast (drop_bit 27 (drop_bit 18 s XOR s))"

definition rotate :: "u32 \<Rightarrow> nat \<Rightarrow> u32" where
  "rotate x r = drop_bit r x OR push_bit ((32 - r) mod 32) x"

lemma unat_rot: "unat (ucast (drop_bit 59 s) :: u32) = unat (drop_bit 59 s)" "unat (drop_bit 59 s) < 32" for s :: u64
proof -
  have "unat (drop_bit 59 s) = unat s div 2 ^ 59" unfolding unat_drop_bit_eq by (simp add: drop_bit_eq_div)
  moreover have "unat s < 2 ^ 59 * 32" using unsigned_less [of s, where ?'a = nat] by simp
  ultimately show "unat (drop_bit 59 s) < 32" by (simp add: less_mult_imp_div_less mult.commute)
  then show "unat (ucast (drop_bit 59 s) :: u32) = unat (drop_bit 59 s)" by (simp add: unsigned_ucast_eq take_bit_nat_eq_self)
qed

lemma neg_and_31: "unat r < 32 \<Longrightarrow> unat ((- r) AND 31) = (32 - unat r) mod 32" for r :: u32
proof -
  assume r: "unat r < 32"
  have "(- r) AND 31 = take_bit 5 (- r)" by (simp add: take_bit_eq_mask mask_eq_exp_minus_1)
  moreover have "uint (take_bit 5 (- r)) = (- uint r) mod 32"
    unfolding unsigned_take_bit_eq by (simp add: take_bit_eq_mod uint_word_ariths mod_mod_cancel)
  moreover have "(- uint r) mod 32 = (32 - uint r) mod 32" by (simp add: mod_simps)
  moreover have "(32 - uint r) mod 32 = int ((32 - unat r) mod 32)"
    using r by (simp add: of_nat_diff zmod_int)
  ultimately have "uint ((- r) AND 31) = int ((32 - unat r) mod 32)" by (simp only:)
  then show ?thesis by (simp only: unat_eq_nat_uint nat_int)
qed

lemma drawn_eq: "drawn rng = rotate (xorshifted (state rng)) (unat (drop_bit 59 (state rng)))"
  using unat_rot [of "state rng"] neg_and_31 [of "ucast (drop_bit 59 (state rng))"]
  by (simp add: pcg32_random_r_def rotate_def xorshifted_def Let_def)

lemma bit_rotate:
  assumes "r < 32" "i < 32"
  shows "bit (rotate x r) i = bit x ((i + r) mod 32)"
proof (cases "i + r < 32")
  case True
  then have "\<not> (32 - r) mod 32 \<le> i \<or> r = 0" using assms by (cases "r = 0") auto
  then show ?thesis using True assms by (auto simp: rotate_def bit_simps add.commute [of r i])
next
  case False
  then have m: "(i + r) mod 32 = i + r - 32" "(32 - r) mod 32 = 32 - r" using assms by (auto simp: mod_if)
  then have "\<not> bit x (r + i)" using False by (auto dest: bit_imp_le_length)
  then show ?thesis using m False assms by (auto simp: rotate_def bit_simps add.commute)
qed

lemma rotate_inject:
  assumes "r < 32" "rotate x r = rotate y r"
  shows "x = y"
proof (rule bit_word_eqI)
  fix j assume "j < LENGTH(32)"
  then have j: "j < 32" by simp
  define i where "i = (j + 32 - r) mod 32"
  have "i < 32" "(i + r) mod 32 = j" using assms(1) j by (simp_all add: i_def mod_simps)
  then show "bit x j = bit y j" using bit_rotate [OF assms(1), of i] assms(2) by metis
qed

lemma bit_xorshifted: "i < 32 \<Longrightarrow> bit (xorshifted s) i = (bit s (i + 27) \<noteq> bit s (i + 45))"
  by (auto simp: xorshifted_def bit_simps add.commute)

text \<open>The output, the top five and the low 27 bits determine a state.\<close>

definition parts :: "u64 \<Rightarrow> u32 \<times> nat \<times> nat" where
  "parts s = (rotate (xorshifted s) (unat (drop_bit 59 s)), unat (drop_bit 59 s), unat (take_bit 27 s))"

lemma parts_inject: "inj parts"
proof (rule injI)
  fix s t assume "parts s = parts t"
  then have r: "drop_bit 59 s = drop_bit 59 t" and l: "take_bit 27 s = take_bit 27 t" and
    o: "rotate (xorshifted s) (unat (drop_bit 59 s)) = rotate (xorshifted t) (unat (drop_bit 59 s))"
    by (auto simp: parts_def intro!: unsigned_word_eqI)
  have x: "xorshifted s = xorshifted t" using rotate_inject unat_rot(2) o by blast
  have "bit s n = bit t n" if "n < 64" for n
    using that
  proof (induction "64 - n" arbitrary: n rule: less_induct)
    case less
    consider "n < 27" | "27 \<le> n" "n < 59" | "59 \<le> n" by linarith
    then show ?case
    proof cases
      case 1
      then show ?thesis using arg_cong [OF l, of "\<lambda>w. bit w n"] by (simp add: bit_simps)
    next
      case 2
      have "bit s (n + 18) = bit t (n + 18)"
      proof (cases "n + 18 < 64")
        case False
        then show ?thesis using bit_imp_le_length by fastforce
      qed (use less in simp)
      moreover have "n - 27 < 32" using 2 by simp
      ultimately show ?thesis
        using 2 bit_xorshifted [of "n - 27" s] bit_xorshifted [of "n - 27" t] x by (auto simp: add.commute)
    next
      case 3
      then show ?thesis using arg_cong [OF r, of "\<lambda>w. bit w (n - 59)"] by (simp add: bit_simps)
    qed
  qed
  then show "s = t" by (intro bit_word_eqI) simp
qed

definition rest :: "(nat \<times> nat) set" where
  "rest = {..<32} \<times> {..<2 ^ 27}"

lemma card_rest: "finite rest" "card rest = 2 ^ 32"
  by (simp_all add: rest_def card_cartesian_product)

lemma parts_image: "parts ` UNIV = UNIV \<times> rest"
proof (rule card_subset_eq)
  have "unat (take_bit 27 s) < 2 ^ 27" for s :: u64
    using take_bit_nat_less_exp [of 27 "unat s"] by (simp add: unsigned_take_bit_eq)
  then show "parts ` UNIV \<subseteq> UNIV \<times> rest" using unat_rot(2) by (auto simp: parts_def rest_def)
  show "card (parts ` UNIV) = card ((UNIV :: u32 set) \<times> rest)"
    by (simp add: card_image [OF parts_inject] card_cartesian_product card_word card_rest)
qed (simp add: card_rest)

lemma card_drawn: "card {s. rotate (xorshifted s) (unat (drop_bit 59 s)) = v} = 2 ^ 32"
proof -
  have "parts ` {s. rotate (xorshifted s) (unat (drop_bit 59 s)) = v} = {v} \<times> rest"
  proof
    show "{v} \<times> rest \<subseteq> parts ` {s. rotate (xorshifted s) (unat (drop_bit 59 s)) = v}"
    proof
      fix q assume q: "q \<in> {v} \<times> rest"
      then have "q \<in> parts ` UNIV" unfolding parts_image by auto
      then show "q \<in> parts ` {s. rotate (xorshifted s) (unat (drop_bit 59 s)) = v}" using q by (auto simp: parts_def)
    qed
  qed (use parts_image in \<open>auto simp: parts_def\<close>)
  moreover have "card (parts ` {s. rotate (xorshifted s) (unat (drop_bit 59 s)) = v}) =
      card {s. rotate (xorshifted s) (unat (drop_bit 59 s)) = v}"
    by (rule card_image, rule inj_on_subset [OF parts_inject]) simp
  ultimately have "card {s. rotate (xorshifted s) (unat (drop_bit 59 s)) = v} = card ({v} \<times> rest)" by (simp only:)
  then show ?thesis by (simp add: card_cartesian_product card_rest)
qed

text \<open>Counting over a period is counting over the states.\<close>

lemma card_period:
  assumes "odd (inc rng)"
  shows "card {n. n < 2 ^ 64 \<and> P (state ((advance ^^ n) rng))} = card {s. P s}"
proof -
  let ?N = "{n. n < 2 ^ 64 \<and> P (state ((advance ^^ n) rng))}"
  have sub: "?N \<subseteq> {..<2 ^ 64}" by blast
  have "(\<lambda>n. state ((advance ^^ n) rng)) ` ?N = {s. P s}"
  proof
    show "{s. P s} \<subseteq> (\<lambda>n. state ((advance ^^ n) rng)) ` ?N"
    proof
      fix s assume s: "s \<in> {s. P s}"
      have "s \<in> (\<lambda>n. state ((advance ^^ n) rng)) ` {..<2 ^ 64}" unfolding states_all [OF assms] by (rule UNIV_I)
      then obtain n where "n \<in> {..<2 ^ 64}" "s = state ((advance ^^ n) rng)" by (rule imageE)
      then show "s \<in> (\<lambda>n. state ((advance ^^ n) rng)) ` ?N" using s by blast
    qed
  qed blast
  then show ?thesis using card_image [OF inj_on_subset [OF states_distinct [OF assms] sub]] by (simp only:)
qed

section \<open>Bounded numbers\<close>

lemma card_residues:
  fixes B N v :: nat
  assumes "v < B"
  shows "card {r. r < N \<and> N mod B \<le> r \<and> r mod B = v} = N div B"
proof -
  define T where "T = N mod B"
  define w where "w = (v + (B - T)) mod B"
  have T: "T < B" using assms by (simp add: T_def)
  have res: "(k + T) mod B = v \<longleftrightarrow> k mod B = w" for k
  proof
    assume "(k + T) mod B = v"
    then have "w = (k + T + (B - T)) mod B" unfolding w_def by (metis mod_add_left_eq)
    then show "k mod B = w" using T by simp
  next
    assume "k mod B = w"
    then have "(k + T) mod B = (v + (B - T) + T) mod B" unfolding w_def by (metis mod_add_left_eq)
    then show "(k + T) mod B = v" using T assms by simp
  qed
  have "{r. r < N \<and> T \<le> r \<and> r mod B = v} = (\<lambda>k. B * k + w + T) ` {..<N div B}"
  proof (intro equalityI subsetI)
    fix r assume "r \<in> {r. r < N \<and> T \<le> r \<and> r mod B = v}"
    then have r: "r < N" "T \<le> r" "(r - T) mod B = w" using res [of "r - T"] by auto
    then have e: "r = B * ((r - T) div B) + w + T" using mult_div_mod_eq [of B "r - T"] by linarith
    have "r - T < B * (N div B)" using r(1,2) mult_div_mod_eq [of B N] unfolding T_def by linarith
    then have "(r - T) div B < N div B" by (metis less_mult_imp_div_less mult.commute)
    then show "r \<in> (\<lambda>k. B * k + w + T) ` {..<N div B}" using e by blast
  next
    fix r assume "r \<in> (\<lambda>k. B * k + w + T) ` {..<N div B}"
    then obtain k where k: "k < N div B" "r = B * k + w + T" by auto
    have w: "w < B" using assms by (simp add: w_def)
    have "B * Suc k \<le> B * (N div B)" using k(1) by (intro mult_le_mono) auto
    then have "B * k + w + T < B * (N div B) + T" using w by simp
    then have "r < N" using k(2) mult_div_mod_eq [of B N] unfolding T_def by simp
    moreover have "r mod B = v" using res [of "B * k + w"] w k(2) by simp
    ultimately show "r \<in> {r. r < N \<and> T \<le> r \<and> r mod B = v}" using k(2) by simp
  qed
  moreover have "inj_on (\<lambda>k. B * k + w + T) {..<N div B}" using assms by (auto simp: inj_on_def)
  ultimately show ?thesis by (simp add: T_def card_image)
qed

lemma card_unat: "card {r :: u32. P (unat r)} = card {n. n < 2 ^ 32 \<and> P n}"
proof -
  have "unat ` {r :: u32. P (unat r)} = {n. n < 2 ^ 32 \<and> P n}"
  proof (intro equalityI subsetI)
    fix n assume n: "n \<in> {n. n < 2 ^ 32 \<and> P n}"
    then have "unat (of_nat n :: u32) = n" by (simp add: unat_of_nat)
    then show "n \<in> unat ` {r :: u32. P (unat r)}" using n by (metis (mono_tags) image_eqI mem_Collect_eq)
  next
    fix n assume "n \<in> unat ` {r :: u32. P (unat r)}"
    then obtain r :: u32 where "n = unat r" "P (unat r)" by blast
    then show "n \<in> {n. n < 2 ^ 32 \<and> P n}" using unsigned_less [of r, where ?'a = nat] by simp
  qed
  then show ?thesis using card_image [of unat "{r :: u32. P (unat r)}"] by (simp add: inj_on_def unsigned_word_eqI)
qed

lemma threshold_mod: "b \<noteq> 0 \<Longrightarrow> unat (- b mod b) = 2 ^ 32 mod unat b" for b :: u32
proof -
  assume b: "b \<noteq> 0"
  have "uint (- b) = (2 ^ 32 - uint b) mod 2 ^ 32" by (simp add: uint_word_ariths)
  also have "\<dots> = 2 ^ 32 - uint b"
  proof (rule mod_pos_pos_trivial)
    have "0 < uint b" using b uint_0_iff [of b] uint_ge_0 [of b] by linarith
    then show "2 ^ 32 - uint b < 2 ^ 32" by simp
  qed (use uint_lt2p [of b] in simp)
  finally have "nat (uint (- b) + uint b) = 2 ^ 32" by simp
  then have "unat (- b) + unat b = 2 ^ 32" by (simp only: unat_eq_nat_uint nat_add_distrib uint_ge_0)
  then show ?thesis by (metis mod_add_self2 unat_mod)
qed

lemma card_accepted:
  fixes b v :: u32
  assumes "v < b"
  shows "card {r. - b mod b \<le> r \<and> r mod b = v} = 2 ^ 32 div unat b"
proof -
  have b: "b \<noteq> 0" using assms by auto
  have "(- b mod b \<le> r \<and> r mod b = v) = (2 ^ 32 mod unat b \<le> unat r \<and> unat r mod unat b = unat v)" for r
    using threshold_mod [OF b] unsigned_word_eqI [of "r mod b" v, where ?'a = nat]
    by (auto simp: word_le_nat_alt unat_mod)
  then have "card {r. - b mod b \<le> r \<and> r mod b = v} =
      card {n. n < 2 ^ 32 \<and> 2 ^ 32 mod unat b \<le> n \<and> n mod unat b = unat v}"
    using card_unat [of "\<lambda>n. 2 ^ 32 mod unat b \<le> n \<and> n mod unat b = unat v"] by (simp only:)
  then show ?thesis using card_residues [of "unat v" "unat b" "2 ^ 32"] assms by (simp only: word_less_nat_alt)
qed

lemma loop_first:
  "t \<le> drawn ((advance ^^ k) rng) \<Longrightarrow> (\<And>i. i < k \<Longrightarrow> \<not> t \<le> drawn ((advance ^^ i) rng)) \<Longrightarrow>
   boundedrand_loop t b rng = Some (drawn ((advance ^^ k) rng) mod b, (advance ^^ Suc k) rng)"
proof (induction k arbitrary: rng)
  case 0
  then show ?case by (simp add: boundedrand_loop.simps [of t b rng] case_prod_beta Let_def advance_def [symmetric])
next
  case (Suc k)
  have "\<not> t \<le> drawn ((advance ^^ i) (advance rng))" if "i < k" for i
    using Suc.prems(2) [of "Suc i"] that by (simp add: funpow_swap1)
  moreover have "t \<le> drawn ((advance ^^ k) (advance rng))" using Suc.prems(1) by (simp add: funpow_swap1)
  ultimately have "boundedrand_loop t b (advance rng) =
      Some (drawn ((advance ^^ k) (advance rng)) mod b, (advance ^^ Suc k) (advance rng))" by (intro Suc.IH)
  moreover have "\<not> t \<le> drawn rng" using Suc.prems(2) [of 0] by simp
  ultimately show ?case by (simp add: boundedrand_loop.simps [of t b rng] case_prod_beta Let_def advance_def [symmetric] funpow_swap1)
qed

text \<open>Within a period the largest output is drawn, so the loop ends.\<close>

lemma accepted_eventually:
  assumes "odd (inc rng)"
  shows "\<exists>k < 2 ^ 64. t \<le> drawn ((advance ^^ k) rng) \<and> (\<forall>i < k. \<not> t \<le> drawn ((advance ^^ i) rng))"
proof -
  have "card {s. rotate (xorshifted s) (unat (drop_bit 59 s)) = - 1} \<noteq> 0" unfolding card_drawn by simp
  then have "{s. rotate (xorshifted s) (unat (drop_bit 59 s)) = - 1} \<noteq> {}" by (rule contrapos_nn) (simp only: card.empty)
  then obtain s where s: "rotate (xorshifted s) (unat (drop_bit 59 s)) = - 1" by blast
  have "s \<in> (\<lambda>n. state ((advance ^^ n) rng)) ` {..<2 ^ 64}" unfolding states_all [OF assms] by (rule UNIV_I)
  then obtain n where n: "n \<in> {..<2 ^ 64}" "s = state ((advance ^^ n) rng)" by (rule imageE)
  have a: "t \<le> drawn ((advance ^^ n) rng)" unfolding drawn_eq n(2) [symmetric] s by simp
  define k where "k = (LEAST k. t \<le> drawn ((advance ^^ k) rng))"
  have "t \<le> drawn ((advance ^^ k) rng)" "k \<le> n" unfolding k_def 
    by (rule LeastI [where P = "\<lambda>k. t \<le> drawn ((advance ^^ k) rng)", OF a],
        rule Least_le [where P = "\<lambda>k. t \<le> drawn ((advance ^^ k) rng)", OF a])
  moreover have "\<not> t \<le> drawn ((advance ^^ i) rng)" if "i < k" for i using that not_less_Least unfolding k_def by blast
  ultimately show ?thesis using n(1) by (metis lessThan_iff le_less_trans)
qed

text \<open>The loop returns \<open>v\<close> in one draw exactly if the first draw is accepted and gives it.\<close>

lemma one_draw:
  assumes "odd (inc rng)" "v < b"
  shows "pcg32_boundedrand_r rng b = Some (v, advance rng) \<longleftrightarrow> - b mod b \<le> drawn rng \<and> drawn rng mod b = v"
proof -
  let ?t = "- b mod b"
  have b: "b \<noteq> 0" using assms(2) by auto
  obtain k where k: "k < 2 ^ 64" "?t \<le> drawn ((advance ^^ k) rng)" "\<forall>i < k. \<not> ?t \<le> drawn ((advance ^^ i) rng)"
    using accepted_eventually [OF assms(1)] by blast
  have r: "pcg32_boundedrand_r rng b = Some (drawn ((advance ^^ k) rng) mod b, (advance ^^ Suc k) rng)"
    using loop_first [of ?t k rng b] k b by (simp add: pcg32_boundedrand_r_def)
  show ?thesis
  proof (cases "k = 0")
    case True
    then show ?thesis using r k(2) by auto
  next
    case False
    then have "(advance ^^ Suc k) rng \<noteq> advance rng"
      using no_return [of "advance rng" k] assms(1) k(1) inc_advance [of 1 rng] by (auto simp: funpow_swap1)
    then show ?thesis using r k(3) False by auto
  qed
qed

section \<open>Properties\<close>

text \<open>
  C14. The generator has the full period of 2 ^ 64: whatever state it starts in, every 64-bit state is
  reached once before one returns, as long as the increment is odd.
\<close>

theorem full_period:
  assumes "odd (inc rng)"
  shows "bij_betw (\<lambda>n. state ((advance ^^ n) rng)) {..<2 ^ 64} UNIV"
  using states_distinct [OF assms] states_all [OF assms] by (rule bij_betw_imageI)

theorem full_period_witness:
  "bij_betw (\<lambda>n. state ((advance ^^ n) PCG32_INITIALIZER)) {..<2 ^ 64} UNIV"
  by (rule full_period) (simp add: PCG32_INITIALIZER_def)

text \<open>
  C11. The output is uniformly distributed: over a period each of the 2 ^ 32 values is drawn exactly 2 ^ 32 times.
\<close>

theorem output_is_uniform:
  assumes "odd (inc rng)"
  shows "card {n. n < 2 ^ 64 \<and> fst (pcg32_random_r ((advance ^^ n) rng)) = v} = 2 ^ 32"
  unfolding drawn_eq card_period [OF assms, of "\<lambda>s. rotate (xorshifted s) (unat (drop_bit 59 s)) = v"]
  by (rule card_drawn)

theorem output_is_uniform_witness:
  "card {n. n < 2 ^ 64 \<and>
     fst (pcg32_random_r ((advance ^^ n) (pcg32_srandom_r PCG32_INITIALIZER 42 54))) = 7} = 2 ^ 32"
  by (rule output_is_uniform)
    (simp add: pcg32_srandom_r_def pcg32_random_r_def Let_def PCG32_INITIALIZER_def)

text \<open>
  C13. A bounded random number is always returned, whatever the state and however many draws are rejected on the way,
  and it lies below the bound.
\<close>

theorem boundedrand_returns:
  assumes "odd (inc rng)" "bound \<noteq> 0"
  shows "\<exists>r rng'. pcg32_boundedrand_r rng bound = Some (r, rng') \<and> r < bound \<and> inc rng' = inc rng"
proof -
  obtain k where "- bound mod bound \<le> drawn ((advance ^^ k) rng)"
    "\<forall>i < k. \<not> - bound mod bound \<le> drawn ((advance ^^ i) rng)"
    using accepted_eventually [OF assms(1)] by blast
  then have "pcg32_boundedrand_r rng bound = Some (drawn ((advance ^^ k) rng) mod bound, (advance ^^ Suc k) rng)"
    using loop_first assms(2) by (simp add: pcg32_boundedrand_r_def)
  then show ?thesis using assms(2) inc_advance [of "Suc k" rng] by (auto simp: word_mod_less_divisor word_gt_0)
qed

theorem boundedrand_returns_witness:
  "\<exists>r rng'. pcg32_boundedrand_r PCG32_INITIALIZER 2147483649 = Some (r, rng') \<and> r < 2147483649 \<and>
     inc rng' = inc PCG32_INITIALIZER"
  by (rule boundedrand_returns) (simp_all add: PCG32_INITIALIZER_def)

text \<open>
  C12. Bounded random numbers are unbiased: among the 2 ^ 64 states of the generator, each number below the bound is returned
  at the first draw from equally many.
\<close>

theorem boundedrand_is_unbiased:
  assumes "odd (inc rng)" "v < bound"
  shows "card {n. n < 2 ^ 64 \<and>
      (let g = (advance ^^ n) rng in
        pcg32_boundedrand_r g bound = Some (v, advance g))} = 2 ^ 32 * (2 ^ 32 div unat bound)"
proof -
  let ?P = "\<lambda>r. - bound mod bound \<le> r \<and> r mod bound = v"
  let ?f = "\<lambda>s. rotate (xorshifted s) (unat (drop_bit 59 s))"
  have "{s. ?P (?f s)} = (\<Union>r \<in> {r. ?P r}. {s. ?f s = r})" by blast
  then have "card {s. ?P (?f s)} = (\<Sum>r \<in> {r. ?P r}. card {s. ?f s = r})"
    by (simp only:) (rule card_UN_disjoint, auto)
  then have "card {s. ?P (?f s)} = 2 ^ 32 * (2 ^ 32 div unat bound)"
    by (simp only: card_drawn sum_constant card_accepted [OF assms(2)] of_nat_id mult.commute)
  moreover have "(let g = (advance ^^ n) rng in pcg32_boundedrand_r g bound = Some (v, advance g)) =
      ?P (?f (state ((advance ^^ n) rng)))" for n
    using one_draw [of "(advance ^^ n) rng" v bound] assms by (simp only: Let_def inc_advance drawn_eq simp_thms)
  ultimately show ?thesis using card_period [OF assms(1), of "\<lambda>s. ?P (?f s)"] by (simp only:)
qed

theorem boundedrand_is_unbiased_witness:
  "card {n. n < 2 ^ 64 \<and>
      (let g = (advance ^^ n) PCG32_INITIALIZER in
        pcg32_boundedrand_r g 6 = Some (5, advance g))} = 2 ^ 32 * (2 ^ 32 div unat (6 :: u32))"
  by (rule boundedrand_is_unbiased) (simp_all add: PCG32_INITIALIZER_def)

end
