(* ===== verification/Spec2Isabelle.thy ===== *)
theory Spec2Isabelle
  imports Game2048 Blake2_Proofs SixPack Sudoku Atto_Proofs BigintPrime BigintStore_Proofs Pcg
begin

text \<open>
  A verification library for programs of the LiteBSD ports collection.

  \<^bold>\<open>The system.\<close> The repository holds some eighty independent C programs, one directory per port,
  built and installed by recursive makefiles. The ports do not call each other; the interaction to
  be verified lies inside each of them. The library takes ports whose logic is their own and whose
  errors cost data: an archiver, a family of hash functions, integers of arbitrary size, a random number
  generator, a text editor and three games.

  \<^bold>\<open>Conventions\<close> (theory \<open>Prelude\<close>). C integers are words of their width where they wrap around, and
  \<open>int\<close> or \<open>nat\<close> where the code keeps them in range. An array is a list with checked accesses \<open>rd\<close> and
  \<open>wr\<close>: \<open>None\<close>, or an error constructor of the component, is what C leaves undefined. A theorem that
  an operation is \<open>Some\<close> is therefore a statement of memory safety. Pointers are offsets, and static
  variables are fields of a record that the operations return updated. What the operating system
  returns (random numbers, bytes of fresh or adjacent memory, refused allocations, failing file
  calls) is a parameter, over which the theorems quantify.

  \<^bold>\<open>archivers/fastlz\<close>, theories \<open>FastLZ\<close>, \<open>FastLZ_Proofs\<close>, \<open>Adler32\<close>, \<open>SixPack\<close>.
  \<open>FastLZ\<close> is \<open>fastlz.c\<close>: \<open>compress_level\<close> and its loop \<open>main_loop\<close> are \<open>FASTLZ_COMPRESSOR\<close> with the level as a
  parameter, \<open>dec_loop\<close> is \<open>FASTLZ_DECOMPRESSOR\<close>. \<open>FastLZ_Proofs\<close> describes a stream as tokens and shows that
  decompression inverts compression, that the output fits the documented buffer, that the
  decompressor stays inside the output, and the two reads behind the input that the code has.
  \<open>Adler32\<close> shows that the unrolled checksum with delayed reduction is that of RFC 1950. \<open>SixPack\<close> is
  \<open>6pack.c\<close> and \<open>6unpack.c\<close>, which call both. The locale \<open>block_packer\<close> is what the archive needs from a
  codec (a block that was compressed decompresses, and is short enough); its interpretations
  \<open>fast\<close> and \<open>better\<close> discharge that for the two levels of FastLZ, and the round trip of whole
  archives rests on them. Extraction is a \<open>partial_function\<close>, since it may hang: one theorem shows that
  it returns on archives that 6pack wrote, and one that it does not on a crafted archive.

  \<^bold>\<open>math/blake2\<close>, theories \<open>Blake2\<close>, \<open>Blake2_Proofs\<close>. The reference implementation of BLAKE2b, BLAKE2s,
  BLAKE2bp and BLAKE2sp, over a record \<open>alg\<close> of what the files differ in. The locale
  \<open>blake2_algorithm\<close> relates \<open>init\<close>, \<open>update\<close> and \<open>final\<close> to the recursion of RFC 7693, however the input
  is cut into pieces; \<open>blake2_tree\<close> extends it by the parallel modes. The interpretations \<open>b2b\<close>, \<open>b2s\<close>,
  \<open>b2bp\<close>, \<open>b2sp\<close> are the four files.

  \<^bold>\<open>math/bigint\<close>, theories \<open>Bigint\<close>, \<open>Bigint_Proofs\<close>, \<open>Bigint_Division\<close>, \<open>BigintExt\<close>, \<open>BigintExt_Proofs\<close>,
  \<open>BigintGcd\<close>, \<open>BigintPrime\<close>, \<open>BigintStore\<close>, \<open>BigintStore_Proofs\<close>. \<open>Bigint\<close> is \<open>bigint_int.c\<close>, \<open>BigintExt\<close> is \<open>bigint_ext.c\<close> up to the Jacobi symbol, with
  the functions of \<open>bigint_int.c\<close> that call it; \<open>BigintPrime\<close> is the rest of it. A number is a sign and a list of
  components, related to an \<open>int\<close> by \<open>value_of\<close>; \<open>normal\<close> is the normal form of the comment at \<open>normalize\<close>. Each
  operation on a 64-bit component goes through \<open>chk\<close>, and \<open>normalize\<close> is shown to be free of overflow for
  components that are \<open>roomy\<close>, which those that the operations leave are. \<open>None\<close> stands for an overflow,
  the signal that the code raises, and a recursion that does not end (\<open>partial_function\<close>), so that an operation
  shown to be \<open>Some\<close> is free of all three. The locale \<open>binary_op\<close> is the contract of an
  operation that implements one on integers, interpreted as \<open>plus_op\<close>, \<open>minus_op\<close>, \<open>times_op\<close>; \<open>long_division\<close> is
  what the frame of signs and trivial cases needs from a division of long numbers, interpreted on the
  approximating division and on the binary one. The lemmas show that Karatsuba multiplication and
  squaring are exact and that remainder, powers, gcd, inverse, lcm, printing and reading are right, although the
  quotient of \<open>bi_divide\<close> may be rounded up, which is shown as well. \<open>BigintPrime\<close> proves Fermat's little theorem and
  that no prime is rejected; \<open>random\<close> and the table of \<open>low_primes.h\<close> are arguments (\<open>random_ok\<close>, \<open>table_ok\<close>). The
  Jacobi symbol, with the Solovay-Strassen test, and the square root are definitions without a theorem of
  correctness. \<open>BigintStore\<close> is the other half of \<open>bigint_int.c\<close>, the objects with reference counts that
  hold the numbers, with pointers as indices and the lists linked through the objects. \<open>store_inv\<close> is its invariant for the multiset of
  references that clients hold; the locale \<open>simulation\<close>, interpreted as \<open>client\<close>, lifts the laws of single
  operations to sessions, and the result is that references behave as the values of the other theories do.

  \<^bold>\<open>math/pcg-c-basic\<close>, theory \<open>Pcg\<close>. The random number generator of \<open>pcg_basic.c\<close>. The state runs through
  all 64-bit words, the output function is shown to take each value equally often, and from
  both follows that the rejection loop of \<open>pcg32_boundedrand_r\<close>, a \<open>partial_function\<close>, ends and is unbiased.

  \<^bold>\<open>games/cgames/csokoban\<close>, theories \<open>Movelist\<close>, \<open>Sokoban\<close>, \<open>Sokoban_Proofs\<close>, \<open>SokobanFiles\<close>,
  \<open>SokobanLevels\<close>, \<open>SokobanAnswers\<close>. \<open>Movelist\<close> is \<open>movelist.c\<close>, with the locale \<open>move_stack\<close> as the contract of a growable
  array and its interpretation \<open>ml\<close>; \<open>Sokoban\<close> is \<open>play.c\<close> and the key loop of \<open>csokoban.c\<close>.
  \<open>Sokoban_Proofs\<close> states the rules on sets of positions and shows that the moves implement them, that
  undo and redo are inverse, that a saved solution replays, and that a session never leaves the
  arrays (\<open>state_ok\<close>, \<open>world_ok\<close> and the reachable worlds \<open>session\<close>, by rule induction). \<open>SokobanFiles\<close> and \<open>SokobanLevels\<close> are
  \<open>answers.c\<close> and \<open>fileread.c\<close>: the moves of an answer, the lines, the map, the flood fill. They show
  that every puzzle that is accepted satisfies the well-formedness that the game assumes. The recursion of
  \<open>pullflooring\<close> takes fuel 1025: each call marks a cell of the 1024 or returns, and
  \<open>improvemap_returns\<close> shows that this is enough. \<open>SokobanAnswers\<close> is the rest of both files: the answer file of a series,
  with the numbers and lines of its text, and the reading of a series up to a level. It shows that the answers of
  all puzzles survive the file.

  \<^bold>\<open>games/sudoku\<close>, theory \<open>Sudoku\<close>. The solver of \<open>sudoku.c\<close>: two rules of deduction, and guesses of one number. \<open>deduces\<close> relates a table
  to one that adds only what every solution has; both rules are shown to do so, the loops to end
  (\<open>progress\<close>, \<open>guess_pos\<close>), and the result to be the only solution when nothing was guessed. \<open>None\<close> stands for a
  read behind the table and for a loop that does not end; \<open>solver_returns\<close> excludes the latter. Two theorems show
  faults: a wrong answer, and the read that ends every failing run.

  \<^bold>\<open>editors/atto\<close>, theories \<open>Atto\<close>, \<open>Atto_Proofs\<close>. The gap buffer of \<open>gap.c\<close>, the text commands of
  \<open>command.c\<close>, the line scanning of \<open>display.c\<close>, \<open>search.c\<close> and \<open>replace.c\<close>. The abstract state is a text
  with a position (\<open>view\<close>); the locale \<open>text_editor\<close> lifts the laws of single commands to
  sessions, \<open>erasing_editor\<close> adds an inverse of typing, and \<open>atto\<close> and \<open>atto_insert\<close> interpret them on the
  commands. Undo, cut and paste, search, loading and saving, and substitution have their own
  theorems, with the hypotheses that the code needs (where the gap is, how wide it is) and
  theorems on what happens without them. \<open>query_loop\<close> takes fuel, which
  bounds the searches of one run. The theorem on replacement is about one substitution and needs no fuel.

  \<^bold>\<open>games/2048\<close>, theory \<open>Game2048\<close>. The board logic of \<open>2048.c\<close>. A row that slides implements the abstract
  rule; the locale \<open>slide_move\<close> gives each of the four directions the conservation of the tile
  sum and the accounting of the score.

  \<^bold>\<open>Not modelled.\<close> Drawing and terminal handling, usage texts and option parsing of the ports above,
  the buffer list, windows, prompts and key map of atto, the search for puzzle files of
  csokoban in a directory. All other ports; the manifest lists them with a reason. Most are large programs of
  which the collection carries a third-party copy, and consist of terminal, network or file
  system calls.

  \<^bold>\<open>Plan.\<close> Next are the answer files of whole puzzle files of csokoban, and the buffer list and windows of atto.
\<close>

end
